(* ===== verification/Prelude.thy ===== *)
theory Prelude
  imports Main
begin

text \<open>
  Shared vocabulary of the development: the named collections of simplification rules the
  component proofs use, the generic list and word-free arithmetic lemmas, the type of outcomes of
  the C functions that report failure through a message buffer, and the interface of a transition
  system with an invariant, which the concurrency components instantiate.
\<close>

named_theorems ctype_defs "definitions of the C character classes"
named_theorems state_defs "definitions of state predicates and updates"

section \<open>Outcomes\<close>

text \<open>
  A C function that returns 0 and fills a message buffer on failure returns \<open>Inl message\<close>; its
  success value is \<open>Inr\<close>.
\<close>

type_synonym 'a outcome = "string + 'a"

text \<open>
  Where a run can also leave the bounds of an array, the failure is a \<open>fault\<close>: the message of an
  error the code reports, or the undefined behaviour itself.
\<close>

datatype fault = Message string | ArrayOverflow

fun is_ok :: "'e + 'a \<Rightarrow> bool" where
  "is_ok (Inl _) = False"
| "is_ok (Inr _) = True"

lemma is_ok_iff: "is_ok r \<longleftrightarrow> (\<exists>x. r = Inr x)"
  by (cases r) auto

text \<open>
  The pattern \<open>if (!step (...)) return 0;\<close> of the C code: the next step runs on the value of a
  successful one, and a failure is passed on unchanged.
\<close>

fun sbind :: "'e + 'a \<Rightarrow> ('a \<Rightarrow> 'e + 'b) \<Rightarrow> 'e + 'b" where
  "sbind (Inl e) f = Inl e"
| "sbind (Inr x) f = f x"

lemma sbind_Inr_iff: "sbind m f = Inr y \<longleftrightarrow> (\<exists>x. m = Inr x \<and> f x = Inr y)"
  by (cases m) auto

lemma sbind_Inl_iff: "sbind m f = Inl e \<longleftrightarrow> m = Inl e \<or> (\<exists>x. m = Inr x \<and> f x = Inl e)"
  by (cases m) auto

lemma sbind_cong [fundef_cong]:
  "m = m' \<Longrightarrow> (\<And>x. m' = Inr x \<Longrightarrow> f x = g x) \<Longrightarrow> sbind m f = sbind m' g"
  by (cases m') auto

text \<open>A failure reported by a callee, turned into the message or fault of the caller.\<close>

fun map_err :: "('e \<Rightarrow> 'f) \<Rightarrow> 'e + 'a \<Rightarrow> 'f + 'a" where
  "map_err g (Inl e) = Inl (g e)"
| "map_err g (Inr x) = Inr x"

lemma map_err_Inr [simp]: "map_err g m = Inr x \<longleftrightarrow> m = Inr x"
  by (cases m) auto

lemma map_err_Inl: "map_err g m = Inl e \<longleftrightarrow> (\<exists>d. m = Inl d \<and> e = g d)"
  by (cases m) auto

section \<open>Insertion at an index and array shifting\<close>

definition insert_at :: "nat \<Rightarrow> 'a \<Rightarrow> 'a list \<Rightarrow> 'a list" where
  "insert_at i x xs = take i xs @ x # drop i xs"

lemma length_insert_at [simp]: "length (insert_at i x xs) = Suc (length xs)"
  by (simp add: insert_at_def)

lemma insert_at_not_Nil [simp]: "insert_at i x xs \<noteq> []"
  by (simp add: insert_at_def)

lemma insert_at_0 [simp]: "insert_at 0 x xs = x # xs"
  by (simp add: insert_at_def)

lemma insert_at_Suc [simp]: "insert_at (Suc i) x (y # xs) = y # insert_at i x xs"
  by (simp add: insert_at_def)

lemma map_insert_at: "map f (insert_at i x xs) = insert_at i (f x) (map f xs)"
  by (simp add: insert_at_def take_map drop_map)

lemma zip_insert_at:
  "length xs = length ys \<Longrightarrow> zip (insert_at i x xs) (insert_at i y ys) = insert_at i (x, y) (zip xs ys)"
  by (simp add: insert_at_def zip_append take_zip drop_zip)

lemma insert_at_append:
  "insert_at (length xs) x (xs @ ys) = xs @ x # ys"
  by (simp add: insert_at_def)

text \<open>
  The C code opens a gap in a fixed array by copying every element from the end down to the gap
  one slot to the right and then stores the new element. \<open>shift_right\<close> is that loop.
\<close>

function shift_right :: "nat \<Rightarrow> nat \<Rightarrow> 'a list \<Rightarrow> 'a list" where
  "shift_right index gap a =
     (if gap < index then shift_right (index - 1) gap (a[index := a ! (index - 1)]) else a)"
  by pat_completeness auto
termination
  by (relation "measure (\<lambda>(index, gap, a). index - gap)") auto

declare shift_right.simps [simp del]

lemma length_shift_right [simp]: "length (shift_right n g a) = length a"
proof (induction n g a rule: shift_right.induct)
  case (1 n g a)
  then show ?case by (subst shift_right.simps) simp
qed

lemma nth_shift_right:
  "n < length a \<Longrightarrow> j < length a \<Longrightarrow>
   shift_right n g a ! j = (if g < j \<and> j \<le> n then a ! (j - 1) else a ! j)"
proof (induction n g a arbitrary: j rule: shift_right.induct)
  case (1 n g a)
  show ?case
  proof (cases "g < n")
    case True
    let ?b = "a[n := a ! (n - 1)]"
    have "shift_right n g a ! j = shift_right (n - 1) g ?b ! j"
      using True by (subst shift_right.simps) simp
    also have "\<dots> = (if g < j \<and> j \<le> n - 1 then ?b ! (j - 1) else ?b ! j)"
      using True "1.prems" by (intro "1.IH") auto
    also have "\<dots> = (if g < j \<and> j \<le> n then a ! (j - 1) else a ! j)"
      using True "1.prems" by (auto simp: nth_list_update)
    finally show ?thesis .
  next
    case False
    then show ?thesis by (subst shift_right.simps) auto
  qed
qed

text \<open>
  The loop followed by the store is insertion into the live prefix, provided the array has a free
  slot: this is what justifies modelling the arrays of the B+ tree by their live prefixes.
\<close>

lemma shift_right_insert:
  assumes "n < length a" "g \<le> n"
  shows "take (Suc n) ((shift_right n g a)[g := x]) = insert_at g x (take n a)"
proof (rule nth_equalityI)
  show "length (take (Suc n) ((shift_right n g a)[g := x])) = length (insert_at g x (take n a))"
    using assms by simp
next
  fix j
  assume "j < length (take (Suc n) ((shift_right n g a)[g := x]))"
  then have j: "j \<le> n" by simp
  show "take (Suc n) ((shift_right n g a)[g := x]) ! j = insert_at g x (take n a) ! j"
    using assms j by (auto simp: insert_at_def nth_append nth_list_update nth_shift_right nth_Cons'
        min_def)
qed

section \<open>Transition systems with an invariant\<close>

inductive reachable :: "('s \<Rightarrow> bool) \<Rightarrow> ('s \<Rightarrow> 's \<Rightarrow> bool) \<Rightarrow> 's \<Rightarrow> bool"
  for init :: "'s \<Rightarrow> bool" and step :: "'s \<Rightarrow> 's \<Rightarrow> bool"
where
  reach_init: "init s \<Longrightarrow> reachable init step s"
| reach_step: "reachable init step s \<Longrightarrow> step s t \<Longrightarrow> reachable init step t"

locale invariant_system =
  fixes init :: "'s \<Rightarrow> bool"
    and step :: "'s \<Rightarrow> 's \<Rightarrow> bool"
    and inv :: "'s \<Rightarrow> bool"
  assumes inv_init: "init s \<Longrightarrow> inv s"
    and inv_step: "inv s \<Longrightarrow> step s t \<Longrightarrow> inv t"
begin

lemma reachable_inv: "reachable init step s \<Longrightarrow> inv s"
proof (induction rule: reachable.induct)
  case (reach_init s)
  then show ?case by (rule inv_init)
next
  case (reach_step s t)
  then show ?case by (blast intro: inv_step)
qed

lemma steps_inv: "inv s \<Longrightarrow> step\<^sup>*\<^sup>* s t \<Longrightarrow> inv t"
  by (rotate_tac 1, induction rule: rtranclp_induct) (auto intro: inv_step)

end

section \<open>Threads in phases\<close>

text \<open>
  A system of threads is described by the phase of each; only finitely many have left the idle
  phase. \<open>phase_count ph p\<close> is the number of threads in phase \<open>p\<close>.
\<close>

definition in_phase :: "(nat \<Rightarrow> 'p) \<Rightarrow> 'p \<Rightarrow> nat set" where
  "in_phase ph p = {t. ph t = p}"

definition phase_count :: "(nat \<Rightarrow> 'p) \<Rightarrow> 'p \<Rightarrow> nat" where
  "phase_count ph p = card (in_phase ph p)"

text \<open>The counts after one thread has gone from phase \<open>p\<close> to phase \<open>q\<close>, and a broadcast.\<close>

definition moved :: "'p \<Rightarrow> 'p \<Rightarrow> ('p \<Rightarrow> nat) \<Rightarrow> 'p \<Rightarrow> nat" where
  "moved p q c r = (if r = q then Suc (c r) else if r = p then c r - 1 else c r)"

definition wake_all :: "'p \<Rightarrow> 'p \<Rightarrow> (nat \<Rightarrow> 'p) \<Rightarrow> nat \<Rightarrow> 'p" where
  "wake_all p q ph t = (if ph t = p then q else ph t)"

lemma in_phase_finite: "finite {t. ph t \<noteq> idle} \<Longrightarrow> p \<noteq> idle \<Longrightarrow> finite (in_phase ph p)"
  by (rule finite_subset [of _ "{t. ph t \<noteq> idle}"]) (auto simp: in_phase_def)

lemma count_pos: "finite {t. ph t \<noteq> idle} \<Longrightarrow> p \<noteq> idle \<Longrightarrow> phase_count ph p > 0 \<longleftrightarrow> (\<exists>t. ph t = p)"
proof -
  assume "finite {t. ph t \<noteq> idle}" "p \<noteq> idle"
  then have "finite (in_phase ph p)" by (rule in_phase_finite)
  then have "phase_count ph p > 0 \<longleftrightarrow> in_phase ph p \<noteq> {}" by (simp add: phase_count_def card_gt_0_iff)
  then show ?thesis by (simp add: in_phase_def)
qed

lemma count_update:
  assumes "finite {t. ph t \<noteq> idle}" "r \<noteq> idle" "ph t = p" "p \<noteq> q"
  shows "phase_count (ph(t := q)) r = moved p q (phase_count ph) r"
proof -
  have fin: "finite (in_phase ph r)" by (rule in_phase_finite [OF assms(1,2)])
  consider (q) "r = q" | (p) "r = p" "r \<noteq> q" | (other) "r \<noteq> p" "r \<noteq> q" by blast
  then show ?thesis
  proof cases
    case q
    then have "in_phase (ph(t := q)) r = insert t (in_phase ph r)" "t \<notin> in_phase ph r"
      using assms(3,4) by (auto simp: in_phase_def)
    with fin q show ?thesis by (simp add: phase_count_def moved_def)
  next
    case p
    then have "in_phase (ph(t := q)) r = in_phase ph r - {t}" "t \<in> in_phase ph r"
      using assms(3,4) by (auto simp: in_phase_def)
    with fin p show ?thesis by (simp add: phase_count_def moved_def)
  next
    case other
    then have "in_phase (ph(t := q)) r = in_phase ph r" using assms(3) by (auto simp: in_phase_def)
    with other show ?thesis by (simp add: phase_count_def moved_def)
  qed
qed

lemma count_wake_all:
  assumes "finite {t. ph t \<noteq> idle}" "p \<noteq> q"
  shows "phase_count (wake_all p q ph) p = 0"
    and "r \<noteq> p \<Longrightarrow> r \<noteq> q \<Longrightarrow> phase_count (wake_all p q ph) r = phase_count ph r"
  using assms(2) by (auto simp: phase_count_def in_phase_def wake_all_def intro!: arg_cong [where f = card])

lemma finite_update: "finite {t. ph t \<noteq> idle} \<Longrightarrow> finite {u. (ph(t := q)) u \<noteq> idle}"
  by (rule finite_subset [of _ "insert t {t. ph t \<noteq> idle}"]) auto

lemma finite_wake_all:
  "finite {t. ph t \<noteq> idle} \<Longrightarrow> p \<noteq> idle \<Longrightarrow> finite {t. wake_all p q ph t \<noteq> idle}"
  by (rule finite_subset [of _ "{t. ph t \<noteq> idle}"]) (auto simp: wake_all_def)

text \<open>A thread returns to the idle phase; one thread of phase \<open>p\<close>, if there is one, is signalled.\<close>

lemma count_to_idle:
  assumes "finite {t. ph t \<noteq> idle}" "r \<noteq> idle"
  shows "phase_count (ph(t := idle)) r = (if r = ph t then phase_count ph r - 1 else phase_count ph r)"
proof (cases "ph t = idle")
  case True
  then have "ph(t := idle) = ph" by (auto simp: fun_eq_iff)
  with True assms(2) show ?thesis by simp
next
  case False
  from count_update [OF assms refl False] assms(2) show ?thesis by (simp add: moved_def)
qed

inductive signalled :: "'p \<Rightarrow> 'p \<Rightarrow> (nat \<Rightarrow> 'p) \<Rightarrow> (nat \<Rightarrow> 'p) \<Rightarrow> bool" for p q where
  signal_wakes: "ph w = p \<Longrightarrow> signalled p q ph (ph(w := q))"
| signal_lost: "\<forall>t. ph t \<noteq> p \<Longrightarrow> signalled p q ph ph"

lemma signalled_counts:
  assumes "signalled p q ph ph'" "finite {t. ph t \<noteq> idle}" "p \<noteq> idle" "p \<noteq> q"
  shows "finite {t. ph' t \<noteq> idle}"
    and "(phase_count ph p = 0 \<and> ph' = ph) \<or>
      (phase_count ph p > 0 \<and> (\<forall>r. r \<noteq> idle \<longrightarrow> phase_count ph' r = moved p q (phase_count ph) r))"
proof -
  from assms(1) have "finite {t. ph' t \<noteq> idle} \<and> ((phase_count ph p = 0 \<and> ph' = ph) \<or>
      (phase_count ph p > 0 \<and> (\<forall>r. r \<noteq> idle \<longrightarrow> phase_count ph' r = moved p q (phase_count ph) r)))"
  proof cases
    case (signal_wakes w)
    have "phase_count ph p > 0" using count_pos [OF assms(2,3)] signal_wakes(2) by blast
    moreover have "\<forall>r. r \<noteq> idle \<longrightarrow> phase_count ph' r = moved p q (phase_count ph) r"
      using count_update [OF assms(2) _ signal_wakes(2) assms(4)] signal_wakes(1) by simp
    ultimately show ?thesis using finite_update [OF assms(2), of w q] signal_wakes(1) by simp
  next
    case signal_lost
    then show ?thesis using assms(2) by (simp add: phase_count_def in_phase_def)
  qed
  then show "finite {t. ph' t \<noteq> idle}"
    "(phase_count ph p = 0 \<and> ph' = ph) \<or>
      (phase_count ph p > 0 \<and> (\<forall>r. r \<noteq> idle \<longrightarrow> phase_count ph' r = moved p q (phase_count ph) r))" by simp_all
qed

end
