(* ===== verification/CLib.thy ===== *)
theory CLib
  imports Prelude
begin

text \<open>
  The part of the C language and its standard library the program uses: the character classes of
  \<open>ctype.h\<close> in the C locale, NUL-terminated strings, \<open>snprintf\<close> truncation and decimal
  printing, \<open>strtol\<close>, the 32- and 64-bit integer ranges, and files: \<open>fopen\<close>, \<open>fgets\<close>
  and the error numbers the code inspects. A C string is a \<^typ>\<open>string\<close> without NUL;
  \<open>c_str\<close> is the view of a byte buffer as a C string.
\<close>

section \<open>Characters\<close>

abbreviation NUL :: char where "NUL \<equiv> CHR 0x00"
abbreviation TAB :: char where "TAB \<equiv> CHR 0x09"
abbreviation LF :: char where "LF \<equiv> CHR 0x0A"
abbreviation CR :: char where "CR \<equiv> CHR 0x0D"
abbreviation SPC :: char where "SPC \<equiv> CHR 0x20"
abbreviation DQUOTE :: char where "DQUOTE \<equiv> CHR 0x22"
abbreviation SQUOTE :: char where "SQUOTE \<equiv> CHR 0x27"
abbreviation BACKSLASH :: char where "BACKSLASH \<equiv> CHR 0x5C"

definition byte :: "char \<Rightarrow> nat" where
  "byte c = of_char c"

definition isdigit :: "char \<Rightarrow> bool" where
  [ctype_defs]: "isdigit c \<longleftrightarrow> 48 \<le> byte c \<and> byte c \<le> 57"

definition isupper :: "char \<Rightarrow> bool" where
  [ctype_defs]: "isupper c \<longleftrightarrow> 65 \<le> byte c \<and> byte c \<le> 90"

definition islower :: "char \<Rightarrow> bool" where
  [ctype_defs]: "islower c \<longleftrightarrow> 97 \<le> byte c \<and> byte c \<le> 122"

definition isalpha :: "char \<Rightarrow> bool" where
  [ctype_defs]: "isalpha c \<longleftrightarrow> isupper c \<or> islower c"

definition isalnum :: "char \<Rightarrow> bool" where
  [ctype_defs]: "isalnum c \<longleftrightarrow> isalpha c \<or> isdigit c"

definition isspace :: "char \<Rightarrow> bool" where
  [ctype_defs]: "isspace c \<longleftrightarrow> byte c = 32 \<or> (9 \<le> byte c \<and> byte c \<le> 13)"

definition tolower :: "char \<Rightarrow> char" where
  [ctype_defs]: "tolower c = (if isupper c then char_of (byte c + 32) else c)"

definition toupper :: "char \<Rightarrow> char" where
  [ctype_defs]: "toupper c = (if islower c then char_of (byte c - 32) else c)"

declare byte_def [ctype_defs]

lemma byte_less: "byte c < 256"
  by (simp add: byte_def)

lemma char_of_byte [simp]: "char_of (byte c) = c"
  by (simp add: byte_def)

lemma byte_char_of: "n < 256 \<Longrightarrow> byte (char_of n) = n"
  by (simp add: byte_def)

lemma byte_eq_iff: "byte c = byte d \<longleftrightarrow> c = d"
  by (metis char_of_byte)

lemma byte_tolower: "byte (tolower c) = (if isupper c then byte c + 32 else byte c)"
  by (simp add: tolower_def isupper_def byte_char_of)

lemma byte_toupper: "byte (toupper c) = (if islower c then byte c - 32 else byte c)"
  using byte_less [of c] by (simp add: toupper_def islower_def byte_char_of)

lemma tolower_idem [simp]: "tolower (tolower c) = tolower c"
  by (simp add: byte_eq_iff [symmetric] byte_tolower isupper_def)

lemma isspace_NUL [simp]: "\<not> isspace NUL"
  by (simp add: isspace_def byte_def)

section \<open>C strings, \<open>snprintf\<close> and decimal printing\<close>

definition c_str :: "string \<Rightarrow> string" where
  "c_str buf = takeWhile (\<lambda>c. c \<noteq> NUL) buf"

definition char_at :: "string \<Rightarrow> nat \<Rightarrow> char" where
  "char_at s i = (if i < length s then s ! i else NUL)"

lemma c_str_id: "NUL \<notin> set s \<Longrightarrow> c_str s = s"
  by (auto simp: c_str_def takeWhile_eq_all_conv)

lemma NUL_notin_c_str [simp]: "NUL \<notin> set (c_str s)"
  by (auto simp: c_str_def dest: set_takeWhileD)

lemma c_str_idem [simp]: "c_str (c_str s) = c_str s"
  by (simp add: c_str_id)

lemma set_c_str: "set (c_str s) \<subseteq> set s"
  by (auto simp: c_str_def dest: set_takeWhileD)

lemma char_at_append [simp]: "char_at (xs @ c # ys) (length xs) = c"
  by (simp add: char_at_def)

lemma char_at_nonNUL: "char_at s i \<noteq> NUL \<Longrightarrow> i < length s"
  by (auto simp: char_at_def split: if_splits)

text \<open>\<open>snprintf\<close> into a buffer of \<open>n\<close> bytes keeps at most \<open>n - 1\<close> of them.\<close>

definition snprintf :: "nat \<Rightarrow> string \<Rightarrow> string" where
  "snprintf n s = take (n - 1) s"

lemma length_snprintf: "0 < n \<Longrightarrow> length (snprintf n s) < n"
  by (simp add: snprintf_def)

lemma snprintf_short: "length s < n \<Longrightarrow> snprintf n s = s"
  by (simp add: snprintf_def)

lemma snprintf_idem [simp]: "snprintf n (snprintf n s) = snprintf n s"
  by (simp add: snprintf_def)

definition digit_char :: "nat \<Rightarrow> char" where
  "digit_char d = char_of (48 + d)"

fun show_nat :: "nat \<Rightarrow> string" where
  "show_nat n = (if n < 10 then [digit_char n] else show_nat (n div 10) @ [digit_char (n mod 10)])"

declare show_nat.simps [simp del]

definition show_int :: "int \<Rightarrow> string" where
  "show_int z = (if z < 0 then CHR ''-'' # show_nat (nat (- z)) else show_nat (nat z))"

definition digit_value :: "char \<Rightarrow> nat" where
  "digit_value c = byte c - 48"

lemma isdigit_digit_char [simp]: "d < 10 \<Longrightarrow> isdigit (digit_char d)"
  by (simp add: isdigit_def digit_char_def byte_char_of)

lemma digit_value_digit_char [simp]: "d < 10 \<Longrightarrow> digit_value (digit_char d) = d"
  by (simp add: digit_value_def digit_char_def byte_char_of)

lemma show_nat_digits: "c \<in> set (show_nat n) \<Longrightarrow> isdigit c"
proof (induction n rule: show_nat.induct)
  case (1 n)
  then show ?case
    by (subst (asm) show_nat.simps) (auto split: if_splits)
qed

lemma show_nat_nonempty [simp]: "show_nat n \<noteq> []"
  by (subst show_nat.simps) simp

lemma show_nat_span [simp]:
  "takeWhile isdigit (show_nat n) = show_nat n" "dropWhile isdigit (show_nat n) = []"
  using show_nat_digits by (auto simp: takeWhile_eq_all_conv dropWhile_eq_Nil_conv)

definition digits_value :: "string \<Rightarrow> nat" where
  "digits_value ds = foldl (\<lambda>n c. 10 * n + digit_value c) 0 ds"

lemma digits_value_snoc [simp]: "digits_value (ds @ [c]) = 10 * digits_value ds + digit_value c"
  by (simp add: digits_value_def)

lemma digits_value_show_nat [simp]: "digits_value (show_nat n) = n"
proof (induction n rule: show_nat.induct)
  case (1 n)
  show ?case
  proof (cases "n < 10")
    case True
    then show ?thesis by (subst show_nat.simps) (simp add: digits_value_def)
  next
    case False
    with 1 show ?thesis by (subst show_nat.simps) simp
  qed
qed

section \<open>Integer ranges and \<open>strtol\<close>\<close>

definition INT_MAX :: int where "INT_MAX = 2147483647"
definition INT_MIN :: int where "INT_MIN = - 2147483648"
definition LONG_MAX :: int where "LONG_MAX = 9223372036854775807"
definition LONG_MIN :: int where "LONG_MIN = - 9223372036854775808"
definition SIZE_MAX :: nat where "SIZE_MAX = 18446744073709551615"

definition in_int :: "int \<Rightarrow> bool" where
  "in_int z \<longleftrightarrow> INT_MIN \<le> z \<and> z \<le> INT_MAX"

lemmas range_defs = INT_MAX_def INT_MIN_def LONG_MAX_def LONG_MIN_def in_int_def

text \<open>
  \<open>strtol(text, &end, 10)\<close>: skip white space, an optional sign, then digits. The result is the
  value clamped to \<open>long\<close>, whether \<open>ERANGE\<close> was set, whether any digit was converted, and the
  unconverted rest at which \<open>end\<close> points (the whole text when there is no digit).
\<close>

record strtol_result =
  st_value :: int
  st_erange :: bool
  st_converted :: bool
  st_rest :: string

definition strtol_sign :: "string \<Rightarrow> int \<times> string" where
  "strtol_sign s = (case s of
       [] \<Rightarrow> (1, [])
     | c # cs \<Rightarrow> if c = CHR ''-'' then (- 1, cs) else if c = CHR ''+'' then (1, cs) else (1, c # cs))"

definition strtol :: "string \<Rightarrow> strtol_result" where
  "strtol text =
     (let (sign, body) = strtol_sign (dropWhile isspace text);
          ds = takeWhile isdigit body;
          v = sign * int (digits_value ds)
      in if ds = [] then \<lparr>st_value = 0, st_erange = False, st_converted = False, st_rest = text\<rparr>
         else \<lparr>st_value = (if v < LONG_MIN then LONG_MIN else if v > LONG_MAX then LONG_MAX else v),
               st_erange = (v < LONG_MIN \<or> v > LONG_MAX),
               st_converted = True, st_rest = dropWhile isdigit body\<rparr>)"

lemma isdigit_not_isspace: "isdigit c \<Longrightarrow> \<not> isspace c"
  by (auto simp: isdigit_def isspace_def)

lemma isdigit_not_sign: "isdigit c \<Longrightarrow> c \<noteq> CHR ''-'' \<and> c \<noteq> CHR ''+''"
  by (auto simp: ctype_defs)

lemma strtol_show_nat:
  "int n \<le> LONG_MAX \<Longrightarrow>
   strtol (show_nat n) = \<lparr>st_value = int n, st_erange = False, st_converted = True, st_rest = []\<rparr>"
proof -
  assume n: "int n \<le> LONG_MAX"
  obtain c cs where s: "show_nat n = c # cs" by (cases "show_nat n") auto
  then have c: "isdigit c" using show_nat_digits [of c n] by simp
  have "strtol_sign (dropWhile isspace (show_nat n)) = (1, show_nat n)"
    using s c isdigit_not_isspace [OF c] isdigit_not_sign [OF c] by (simp add: strtol_sign_def)
  then show ?thesis
    using n by (simp add: strtol_def range_defs Let_def)
qed

lemma strtol_show_int:
  assumes "LONG_MIN \<le> z" "z \<le> LONG_MAX"
  shows "strtol (show_int z) =
    \<lparr>st_value = z, st_erange = False, st_converted = True, st_rest = []\<rparr>"
proof (cases "z < 0")
  case False
  then show ?thesis
    using strtol_show_nat [of "nat z"] assms by (simp add: show_int_def)
next
  case True
  have minus: "\<not> isspace (CHR ''-'')" by (simp add: ctype_defs)
  then show ?thesis
    using True assms by (simp add: show_int_def strtol_def strtol_sign_def range_defs Let_def)
qed

end
