(* ===== verification/Util.thy ===== *)
theory Util
  imports CLib
begin

text \<open>
  The string and list helpers of \<open>common/util.c\<close>. Allocation (\<open>malloc\<close>, \<open>realloc\<close>) is
  taken to succeed here, so a copy of a string is the string itself; pointer arguments are not
  NULL, as in every call. The dynamic array \<open>StringList\<close> is modelled with its capacity, and
  refined to the plain list of its items, which is what the other components are written over.
\<close>

section \<open>Strings\<close>

fun strings_equal_ignore_case :: "string \<Rightarrow> string \<Rightarrow> bool" where
  "strings_equal_ignore_case (l # ls) (r # rs) =
     (if tolower l \<noteq> tolower r then False else strings_equal_ignore_case ls rs)"
| "strings_equal_ignore_case [] [] = True"
| "strings_equal_ignore_case _ _ = False"

definition trim_whitespace :: "string \<Rightarrow> string" where
  "trim_whitespace text = rev (dropWhile isspace (rev (dropWhile isspace text)))"

definition strip_line_endings :: "string \<Rightarrow> string" where
  "strip_line_endings text = rev (dropWhile (\<lambda>c. c = LF \<or> c = CR) (rev text))"

definition build_path :: "string \<Rightarrow> string \<Rightarrow> string \<Rightarrow> string" where
  "build_path dir name extension = dir @ ''/'' @ name @ extension"

definition parse_int_strict :: "string \<Rightarrow> int option" where
  "parse_int_strict text =
     (if text = [] then None
      else let r = strtol text in
        if st_erange r \<or> \<not> st_converted r \<or> st_rest r \<noteq> [] then None
        else if st_value r < INT_MIN \<or> st_value r > INT_MAX then None
        else Some (st_value r))"

section \<open>The dynamic array of strings\<close>

record string_list =
  sl_items :: "string list"
  sl_capacity :: nat

definition string_list_empty :: string_list where
  "string_list_empty = \<lparr>sl_items = [], sl_capacity = 0\<rparr>"

definition string_list_push :: "string_list \<Rightarrow> string \<Rightarrow> string_list" where
  "string_list_push l v =
     (let cap = (if length (sl_items l) = sl_capacity l
                 then (if sl_capacity l = 0 then 4 else sl_capacity l * 2) else sl_capacity l)
      in \<lparr>sl_items = sl_items l @ [v], sl_capacity = cap\<rparr>)"

fun index_of_from :: "nat \<Rightarrow> string list \<Rightarrow> string \<Rightarrow> int" where
  "index_of_from index [] v = - 1"
| "index_of_from index (x # xs) v = (if x = v then int index else index_of_from (Suc index) xs v)"

definition string_list_index_of :: "string list \<Rightarrow> string \<Rightarrow> int" where
  "string_list_index_of items v = index_of_from 0 items v"

definition string_list_free :: "string_list \<Rightarrow> string_list" where
  "string_list_free l = \<lparr>sl_items = [], sl_capacity = 0\<rparr>"

definition string_list_wf :: "string_list \<Rightarrow> bool" where
  "string_list_wf l \<longleftrightarrow> length (sl_items l) \<le> sl_capacity l"

section \<open>Facts about the string helpers\<close>

lemma strings_equal_ignore_case_iff:
  "strings_equal_ignore_case l r \<longleftrightarrow> map tolower l = map tolower r"
  by (induction l r rule: strings_equal_ignore_case.induct) auto

lemma dropWhile_id: "xs = [] \<or> \<not> P (hd xs) \<Longrightarrow> dropWhile P xs = xs"
  by (cases xs) auto

lemma trim_whitespace_id:
  assumes "s = [] \<or> \<not> isspace (hd s) \<and> \<not> isspace (last s)"
  shows "trim_whitespace s = s"
proof -
  have "dropWhile isspace s = s" using assms by (intro dropWhile_id) auto
  moreover have "dropWhile isspace (rev s) = rev s"
    using assms by (intro dropWhile_id) (auto simp: hd_rev)
  ultimately show ?thesis by (simp add: trim_whitespace_def)
qed

lemma trim_whitespace_ends:
  assumes ne: "trim_whitespace s \<noteq> []"
  shows "\<not> isspace (hd (trim_whitespace s)) \<and> \<not> isspace (last (trim_whitespace s))"
proof -
  let ?d = "dropWhile isspace s"
  let ?r = "dropWhile isspace (rev ?d)"
  have r: "?r \<noteq> []" using ne by (auto simp: trim_whitespace_def)
  then have last: "\<not> isspace (last (rev ?r))"
    using hd_dropWhile [OF r] by (simp only: last_rev not_False_eq_True)
  obtain p where "rev ?d = p @ ?r"
    by (metis takeWhile_dropWhile_id)
  then have d: "?d = rev ?r @ rev p" by (metis rev_append rev_rev_ident)
  have "hd (rev ?r) = hd ?d" using r by (subst d) (simp only: hd_append rev_is_Nil_conv if_False)
  moreover have "?d \<noteq> []"
    using r by (metis dropWhile.simps(1) rev.simps(1))
  ultimately have "\<not> isspace (hd (rev ?r))" using hd_dropWhile [of isspace s] by simp
  with last show ?thesis by (simp add: trim_whitespace_def)
qed

lemma trim_whitespace_idem [simp]: "trim_whitespace (trim_whitespace s) = trim_whitespace s"
  using trim_whitespace_ends by (intro trim_whitespace_id) blast

lemma set_dropWhile_subset: "set (dropWhile P xs) \<subseteq> set xs"
  by (auto dest: set_dropWhileD)

lemma set_trim_whitespace: "set (trim_whitespace s) \<subseteq> set s"
  by (auto simp: trim_whitespace_def dest!: set_dropWhileD)

lemma strip_line_endings_append_LF:
  "strip_line_endings (s @ [LF]) = strip_line_endings s"
  by (simp add: strip_line_endings_def)

lemma strip_line_endings_id:
  "s = [] \<or> last s \<noteq> LF \<and> last s \<noteq> CR \<Longrightarrow> strip_line_endings s = s"
  by (cases s rule: rev_cases) (auto simp: strip_line_endings_def)

lemma strip_line_endings_no_newline:
  "LF \<notin> set s \<Longrightarrow> CR \<notin> set s \<Longrightarrow> strip_line_endings s = s"
  by (cases s rule: rev_cases) (auto simp: strip_line_endings_def)

lemma set_strip_line_endings: "set (strip_line_endings s) \<subseteq> set s"
  by (auto simp: strip_line_endings_def dest: set_dropWhileD)

section \<open>Facts about \<open>parse_int_strict\<close>\<close>

lemma show_int_nonempty [simp]: "show_int z \<noteq> []"
  by (simp add: show_int_def)

lemma parse_int_strict_range: "parse_int_strict s = Some z \<Longrightarrow> in_int z"
  by (auto simp: parse_int_strict_def in_int_def Let_def split: if_splits)

lemma parse_int_strict_show_int: "in_int z \<Longrightarrow> parse_int_strict (show_int z) = Some z"
  using strtol_show_int [of z] by (simp add: parse_int_strict_def range_defs)

section \<open>Facts about string lists\<close>

lemma string_list_push_wf: "string_list_wf l \<Longrightarrow> string_list_wf (string_list_push l v)"
  by (auto simp: string_list_wf_def string_list_push_def Let_def)

lemma string_list_push_items [simp]: "sl_items (string_list_push l v) = sl_items l @ [v]"
  by (simp add: string_list_push_def Let_def)

lemma string_list_push_room:
  "string_list_wf l \<Longrightarrow> length (sl_items l) < sl_capacity (string_list_push l v)"
  by (auto simp: string_list_wf_def string_list_push_def Let_def)

lemma index_of_from_less: "index_of_from n xs v < 0 \<longleftrightarrow> v \<notin> set xs"
  by (induction n xs v rule: index_of_from.induct) auto

lemma index_of_from_found:
  "v \<in> set xs \<Longrightarrow> \<exists>i < length xs. index_of_from n xs v = int (n + i) \<and> xs ! i = v \<and> v \<notin> set (take i xs)"
proof (induction n xs v rule: index_of_from.induct)
  case (2 n x xs v)
  show ?case
  proof (cases "x = v")
    case True
    then show ?thesis by (intro exI [of _ 0]) simp
  next
    case False
    with 2 obtain i where "i < length xs" "index_of_from (Suc n) xs v = int (Suc n + i)"
      "xs ! i = v" "v \<notin> set (take i xs)" by auto
    with False show ?thesis by (intro exI [of _ "Suc i"]) simp
  qed
qed simp

lemma string_list_index_of_neg [simp]: "string_list_index_of xs v < 0 \<longleftrightarrow> v \<notin> set xs"
  by (simp add: string_list_index_of_def index_of_from_less)

lemma string_list_index_of_found:
  "v \<in> set xs \<Longrightarrow> \<exists>i < length xs. string_list_index_of xs v = int i \<and> xs ! i = v \<and> v \<notin> set (take i xs)"
  using index_of_from_found [of v xs 0] by (simp add: string_list_index_of_def)

end
