(* ===== verification/Lexer.thy ===== *)
theory Lexer
  imports Util
begin

text \<open>
  The SQL lexer of \<open>sql/lexer.c\<close>. The input is a C string scanned by index; \<open>char_at\<close> gives
  NUL at and past the end, which is the terminator the C loops test for. The token array is the
  list of its tokens (its growth is that of \<open>StringList\<close>), errors are the messages written
  to the 256-byte buffer of the callers.
\<close>

section \<open>Tokens\<close>

datatype token_type =
    TOKEN_IDENTIFIER | TOKEN_STRING | TOKEN_NUMBER | TOKEN_STAR | TOKEN_EQUALS
  | TOKEN_COMMA | TOKEN_LPAREN | TOKEN_RPAREN | TOKEN_SEMICOLON | TOKEN_END

record token =
  tok_type :: token_type
  tok_text :: string
  tok_position :: nat

definition is_identifier_start :: "char \<Rightarrow> bool" where
  [ctype_defs]: "is_identifier_start c \<longleftrightarrow>
     isalpha c \<or> c = CHR ''_'' \<or> isdigit c \<or> 128 \<le> byte c"

definition is_identifier_continue :: "char \<Rightarrow> bool" where
  [ctype_defs]: "is_identifier_continue c \<longleftrightarrow> isalnum c \<or> c = CHR ''_'' \<or> 128 \<le> byte c"

definition push_token :: "token list \<Rightarrow> token_type \<Rightarrow> string \<Rightarrow> nat \<Rightarrow> token list" where
  "push_token tokens ty text position =
     tokens @ [\<lparr>tok_type = ty, tok_text = text, tok_position = position\<rparr>]"

definition push_simple_token :: "token list \<Rightarrow> token_type \<Rightarrow> char \<Rightarrow> nat \<Rightarrow> token list" where
  "push_simple_token tokens ty value position = push_token tokens ty [value] position"

lemma is_identifier_start_continue: "is_identifier_start c \<longleftrightarrow> is_identifier_continue c"
  by (auto simp: is_identifier_start_def is_identifier_continue_def isalnum_def)

lemma identifier_not_NUL: "is_identifier_continue c \<Longrightarrow> c \<noteq> NUL"
  by (auto simp: ctype_defs)

section \<open>Words\<close>

function word_end :: "string \<Rightarrow> nat \<Rightarrow> nat" where
  "word_end input index =
     (if is_identifier_continue (char_at input index) then word_end input (Suc index) else index)"
  by pat_completeness auto
termination
  by (relation "measure (\<lambda>(input, index). length input - index)")
    (auto dest!: identifier_not_NUL char_at_nonNUL)

declare word_end.simps [simp del]

definition lex_word :: "string \<Rightarrow> nat \<Rightarrow> token list \<Rightarrow> nat \<times> token list" where
  "lex_word input start tokens =
     (let index = word_end input start;
          buffer = take (index - start) (drop start input);
          ty = (if isdigit (char_at buffer 0) then TOKEN_NUMBER else TOKEN_IDENTIFIER)
      in (index, push_token tokens ty buffer start))"

section \<open>String literals\<close>

function string_loop :: "string \<Rightarrow> nat \<Rightarrow> string \<Rightarrow> string \<times> nat" where
  "string_loop input index buffer =
     (let current = char_at input index in
      if current = NUL then (buffer, index)
      else if current = SQUOTE then
        (if char_at input (Suc index) = SQUOTE
         then string_loop input (Suc (Suc index)) (buffer @ [SQUOTE])
         else (buffer, Suc index))
      else string_loop input (Suc index) (buffer @ [current]))"
  by pat_completeness auto
termination
  by (relation "measure (\<lambda>(input, index, buffer). length input - index)")
    (auto dest!: char_at_nonNUL)

declare string_loop.simps [simp del]

definition lex_string :: "string \<Rightarrow> nat \<Rightarrow> token list \<Rightarrow> (nat \<times> token list) outcome" where
  "lex_string input start tokens =
     (let (buffer, index) = string_loop input (Suc start) [] in
      if char_at input (index - 1) \<noteq> SQUOTE
      then Inl (snprintf 256 (''unterminated string literal at position '' @ show_nat start))
      else Inr (index, push_token tokens TOKEN_STRING buffer start))"

section \<open>The main loop\<close>

lemma word_end_ge: "index \<le> word_end input index"
proof (induction input index rule: word_end.induct)
  case (1 input index)
  then show ?case by (subst word_end.simps) force
qed

lemma word_end_progress:
  "is_identifier_start (char_at input index) \<Longrightarrow> index < word_end input index"
  using word_end_ge [of "Suc index" input]
  by (subst word_end.simps) (simp add: is_identifier_start_continue)

lemma string_loop_ge: "index \<le> snd (string_loop input index buffer)"
proof (induction input index buffer rule: string_loop.induct)
  case (1 input index buffer)
  show ?case
    by (subst string_loop.simps) (use 1 in \<open>auto simp: Let_def\<close>)
qed

lemma lex_string_progress: "lex_string input start tokens = Inr (index, ts) \<Longrightarrow> start < index"
  using string_loop_ge [of "Suc start" input "[]"]
  by (auto simp: lex_string_def split: prod.splits if_splits)

definition simple_token_type :: "char \<Rightarrow> token_type option" where
  "simple_token_type c =
     (if c = CHR ''*'' then Some TOKEN_STAR
      else if c = CHR ''='' then Some TOKEN_EQUALS
      else if c = CHR '','' then Some TOKEN_COMMA
      else if c = CHR ''('' then Some TOKEN_LPAREN
      else if c = CHR '')'' then Some TOKEN_RPAREN
      else if c = CHR '';'' then Some TOKEN_SEMICOLON
      else None)"

function lex_loop :: "string \<Rightarrow> nat \<Rightarrow> token list \<Rightarrow> token list outcome" where
  "lex_loop input index tokens =
     (let current = char_at input index in
      if current = NUL then Inr (push_token tokens TOKEN_END [] index)
      else if isspace current then lex_loop input (Suc index) tokens
      else if is_identifier_start current then
        (let (index', tokens') = lex_word input index tokens in lex_loop input index' tokens')
      else if current = SQUOTE then
        (case lex_string input index tokens of
           Inl e \<Rightarrow> Inl e
         | Inr (index', tokens') \<Rightarrow> lex_loop input index' tokens')
      else (case simple_token_type current of
           Some ty \<Rightarrow> lex_loop input (Suc index) (push_simple_token tokens ty current index)
         | None \<Rightarrow> Inl (snprintf 256 (''unexpected character '' @ [SQUOTE] @ [current] @ [SQUOTE] @
                     '' at position '' @ show_nat index))))"
  by pat_completeness auto
termination
proof (relation "measure (\<lambda>(input, index, tokens). length input - index)", goal_cases)
  case (3 input index tokens current p index' tokens')
  then have "index' = word_end input index" by (auto simp: lex_word_def Let_def)
  then have "index < index'" using 3 word_end_progress [of input index] by simp
  moreover have "index < length input" using 3 by (simp add: char_at_nonNUL)
  ultimately show ?case by simp
next
  case (4 input index tokens current p index' tokens')
  then have "index < index'" using lex_string_progress by auto
  moreover have "index < length input" using 4 by (simp add: char_at_nonNUL)
  ultimately show ?case by simp
qed (auto dest: char_at_nonNUL)

declare lex_loop.simps [simp del]

definition lex_sql :: "string \<Rightarrow> token list outcome" where
  "lex_sql input = lex_loop input 0 []"

lemmas lex_defs = lex_word_def lex_string_def push_token_def push_simple_token_def

section \<open>Well-formedness of the token array\<close>

definition token_at :: "string \<Rightarrow> token \<Rightarrow> bool" where
  "token_at input t \<longleftrightarrow>
     (case tok_type t of
        TOKEN_END \<Rightarrow> False
      | TOKEN_STRING \<Rightarrow> char_at input (tok_position t) = SQUOTE
      | TOKEN_IDENTIFIER \<Rightarrow> tok_text t \<noteq> [] \<and> (\<forall>c \<in> set (tok_text t). is_identifier_continue c) \<and>
          \<not> isdigit (hd (tok_text t)) \<and>
          tok_text t = take (length (tok_text t)) (drop (tok_position t) input)
      | TOKEN_NUMBER \<Rightarrow> tok_text t \<noteq> [] \<and> (\<forall>c \<in> set (tok_text t). is_identifier_continue c) \<and>
          isdigit (hd (tok_text t)) \<and>
          tok_text t = take (length (tok_text t)) (drop (tok_position t) input)
      | ty \<Rightarrow> simple_token_type (char_at input (tok_position t)) = Some ty \<and>
          tok_text t = [char_at input (tok_position t)])"

lemma word_end_chars:
  "i \<le> j \<Longrightarrow> j < word_end input i \<Longrightarrow> j < length input \<and> is_identifier_continue (input ! j)"
proof (induction input i rule: word_end.induct)
  case (1 input i)
  show ?case
  proof (cases "is_identifier_continue (char_at input i)")
    case True
    then have "i < length input" by (rule char_at_nonNUL [OF identifier_not_NUL])
    with True 1 show ?thesis
      by (cases "j = i") (auto simp: char_at_def word_end.simps [of input i])
  next
    case False
    with 1 show ?thesis by (simp add: word_end.simps [of input i])
  qed
qed

lemma word_end_le: "i \<le> length input \<Longrightarrow> word_end input i \<le> length input"
  using word_end_chars [of i "length input" input] word_end_ge [of i input]
  by (meson not_less less_irrefl)

lemma lex_word_token:
  assumes start: "is_identifier_start (char_at input i)"
    and lex: "lex_word input i tokens = (i', tokens')"
  shows "\<exists>t. tokens' = tokens @ [t] \<and> token_at input t \<and> tok_position t = i \<and> i < i'"
proof -
  let ?j = "word_end input i"
  let ?w = "take (?j - i) (drop i input)"
  have i: "i < length input"
    using start by (intro char_at_nonNUL identifier_not_NUL) (simp add: is_identifier_start_continue)
  have j: "i < ?j" using word_end_progress [OF start] .
  have len: "length ?w = ?j - i" using i word_end_le [of i input] by simp
  have chars: "\<forall>c \<in> set ?w. is_identifier_continue c"
  proof
    fix c assume "c \<in> set ?w"
    then obtain k where "k < ?j - i" "?w ! k = c"
      by (metis in_set_conv_nth len)
    then show "is_identifier_continue c"
      using word_end_chars [of i "i + k" input] i by (auto simp: less_diff_conv)
  qed
  have ne: "?w \<noteq> []" using j i by simp
  then have hd: "char_at ?w 0 = hd ?w" by (simp add: char_at_def hd_conv_nth)
  show ?thesis
    using lex j ne chars len hd
    by (auto simp: lex_defs Let_def token_at_def)
qed

text \<open>
  \<open>lexed input i tokens ts\<close>: scanning on from index \<open>i\<close> extended \<open>tokens\<close> to \<open>ts\<close> by well-placed
  tokens in increasing order of position, closed by one end token at the terminator.
\<close>

definition lexed :: "string \<Rightarrow> nat \<Rightarrow> token list \<Rightarrow> token list \<Rightarrow> bool" where
  "lexed input i tokens ts \<longleftrightarrow> (\<exists>us e. ts = tokens @ us @ [e] \<and>
     tok_type e = TOKEN_END \<and> tok_text e = [] \<and> char_at input (tok_position e) = NUL \<and>
     (\<forall>t \<in> set us. token_at input t) \<and> (\<forall>t \<in> set (us @ [e]). i \<le> tok_position t) \<and>
     sorted_wrt (<) (map tok_position (us @ [e])))"

lemma lexed_Cons:
  assumes "lexed input i' (tokens @ [t]) ts" "i < i'" "token_at input t" "tok_position t = i"
  shows "lexed input i tokens ts"
proof -
  from assms(1) obtain us e where "ts = (tokens @ [t]) @ us @ [e]" "tok_type e = TOKEN_END"
    "tok_text e = []" "char_at input (tok_position e) = NUL" "\<forall>t \<in> set us. token_at input t"
    "\<forall>t \<in> set (us @ [e]). i' \<le> tok_position t" "sorted_wrt (<) (map tok_position (us @ [e]))"
    unfolding lexed_def by blast
  with assms(2,3,4) show ?thesis
    unfolding lexed_def
    by (intro exI [of _ "t # us"] exI [of _ e]) (auto simp: order_less_le_trans less_imp_le)
qed

lemma lexed_skip: "lexed input (Suc i) tokens ts \<Longrightarrow> lexed input i tokens ts"
  unfolding lexed_def by (force dest: Suc_leD)

lemma lex_loop_wf: "lex_loop input i tokens = Inr ts \<Longrightarrow> lexed input i tokens ts"
proof (induction input i tokens arbitrary: ts rule: lex_loop.induct)
  case (1 input i tokens)
  let ?c = "char_at input i"
  consider (fin) "?c = NUL" | (space) "?c \<noteq> NUL" "isspace ?c"
    | (word) "?c \<noteq> NUL" "\<not> isspace ?c" "is_identifier_start ?c"
    | (str) "?c \<noteq> NUL" "\<not> isspace ?c" "\<not> is_identifier_start ?c" "?c = SQUOTE"
    | (other) "?c \<noteq> NUL" "\<not> isspace ?c" "\<not> is_identifier_start ?c" "?c \<noteq> SQUOTE"
    by blast
  then show ?case
  proof cases
    case fin
    with "1.prems" show ?thesis
      by (auto simp: lex_loop.simps [of input i] push_token_def lexed_def intro!: exI [of _ "[]"])
  next
    case space
    with "1.prems" have "lex_loop input (Suc i) tokens = Inr ts"
      by (simp add: lex_loop.simps [of input i])
    with "1.IH"(1) [OF refl space] show ?thesis by (blast intro: lexed_skip)
  next
    case word
    obtain i' tokens' where lw: "lex_word input i tokens = (i', tokens')" by fastforce
    from lex_word_token [OF word(3) lw] obtain t where
      t: "tokens' = tokens @ [t]" "token_at input t" "tok_position t = i" "i < i'" by blast
    with word lw "1.prems" have "lex_loop input i' (tokens @ [t]) = Inr ts"
      by (simp add: lex_loop.simps [of input i])
    with "1.IH"(2) [OF refl word refl lw [symmetric]] t show ?thesis
      by (intro lexed_Cons [of input i' tokens t]) auto
  next
    case str
    with "1.prems" obtain i' tokens' where ls: "lex_string input i tokens = Inr (i', tokens')"
      and rec: "lex_loop input i' tokens' = Inr ts"
      by (auto simp: lex_loop.simps [of input i] split: sum.splits)
    define t where "t = \<lparr>tok_type = TOKEN_STRING,
      tok_text = fst (string_loop input (Suc i) []), tok_position = i\<rparr>"
    have t: "tokens' = tokens @ [t]" "i < i'"
      using ls lex_string_progress [OF ls]
      by (auto simp: lex_defs t_def split: prod.splits if_splits)
    moreover have "token_at input t" "tok_position t = i" using str by (auto simp: token_at_def t_def)
    ultimately show ?thesis
      using rec "1.IH"(3) [OF refl str ls refl] by (intro lexed_Cons [of input i' tokens t]) auto
  next
    case other
    with "1.prems" obtain ty where ty: "simple_token_type ?c = Some ty"
      and rec: "lex_loop input (Suc i) (push_simple_token tokens ty ?c i) = Inr ts"
      by (auto simp: lex_loop.simps [of input i] Let_def split: option.splits)
    define t where "t = \<lparr>tok_type = ty, tok_text = [?c], tok_position = i\<rparr>"
    have "push_simple_token tokens ty ?c i = tokens @ [t]" by (simp add: lex_defs t_def)
    moreover have "token_at input t" "tok_position t = i"
      using ty by (auto simp: token_at_def t_def simple_token_type_def split: if_splits)
    ultimately show ?thesis
      using rec "1.IH"(4) [OF refl other ty] by (intro lexed_Cons [of input "Suc i" tokens t]) auto
  qed
qed

section \<open>Rendering tokens and reading them back\<close>

definition escape_quotes :: "string \<Rightarrow> string" where
  "escape_quotes s = concat (map (\<lambda>c. if c = SQUOTE then [SQUOTE, SQUOTE] else [c]) s)"

definition render_token :: "token_type \<times> string \<Rightarrow> string" where
  "render_token t = (case t of
       (TOKEN_STRING, s) \<Rightarrow> SQUOTE # escape_quotes s @ [SQUOTE]
     | (_, s) \<Rightarrow> s)"

definition render_tokens :: "(token_type \<times> string) list \<Rightarrow> string" where
  "render_tokens ts = concat (map (\<lambda>t. render_token t @ [SPC]) ts)"

definition lexable :: "token_type \<times> string \<Rightarrow> bool" where
  "lexable t = (case t of
       (TOKEN_STRING, s) \<Rightarrow> NUL \<notin> set s
     | (TOKEN_IDENTIFIER, s) \<Rightarrow> s \<noteq> [] \<and> list_all is_identifier_continue s \<and> \<not> isdigit (hd s)
     | (TOKEN_NUMBER, s) \<Rightarrow> s \<noteq> [] \<and> list_all is_identifier_continue s \<and> isdigit (hd s)
     | (TOKEN_END, s) \<Rightarrow> False
     | (ty, s) \<Rightarrow> (case s of [c] \<Rightarrow> simple_token_type c = Some ty | _ \<Rightarrow> False))"

definition token_key :: "token \<Rightarrow> token_type \<times> string" where
  "token_key t = (tok_type t, tok_text t)"

lemma token_key_make [simp]:
  "token_key \<lparr>tok_type = ty, tok_text = s, tok_position = p\<rparr> = (ty, s)"
  by (simp add: token_key_def)

lemma escape_quotes_simps [simp]:
  "escape_quotes [] = []"
  "escape_quotes (c # s) = (if c = SQUOTE then [SQUOTE, SQUOTE] else [c]) @ escape_quotes s"
  by (simp_all add: escape_quotes_def)

lemma char_at_append_shift: "char_at (xs @ ys) (length xs + n) = char_at ys n"
  by (simp add: char_at_def nth_append)

lemma char_at_length [simp]: "char_at (xs @ ys) (length xs) = char_at ys 0"
  using char_at_append_shift [of xs ys 0] by simp

lemma char_at_Suc_length [simp]: "char_at (xs @ c # ys) (Suc (length xs)) = char_at ys 0"
  using char_at_append_shift [of "xs @ [c]" ys 0] by simp

lemma char_at_Cons [simp]: "char_at (c # cs) 0 = c"
  by (simp add: char_at_def)

lemma char_at_Nil [simp]: "char_at [] i = NUL"
  by (simp add: char_at_def)

lemma word_end_span:
  "list_all is_identifier_continue w \<Longrightarrow> \<not> is_identifier_continue (char_at rest 0) \<Longrightarrow>
   word_end (pre @ w @ rest) (length pre) = length pre + length w"
proof (induction w arbitrary: pre)
  case Nil
  then show ?case by (subst word_end.simps) simp
next
  case (Cons c w)
  have "word_end ((pre @ [c]) @ w @ rest) (length (pre @ [c])) = length (pre @ [c]) + length w"
    using Cons.prems by (intro Cons.IH) auto
  with Cons.prems show ?case by (subst word_end.simps) simp
qed

lemma string_loop_escape:
  assumes "NUL \<notin> set s" "char_at rest 0 \<noteq> SQUOTE"
  shows "string_loop (pre @ escape_quotes s @ SQUOTE # rest) (length pre) buf =
         (buf @ s, length pre + length (escape_quotes s) + 1)"
  using assms(1)
proof (induction s arbitrary: pre buf)
  case Nil
  then show ?case using assms(2) by (subst string_loop.simps) simp
next
  case (Cons c s)
  show ?case
  proof (cases "c = SQUOTE")
    case True
    have "string_loop ((pre @ [SQUOTE, SQUOTE]) @ escape_quotes s @ SQUOTE # rest)
        (length (pre @ [SQUOTE, SQUOTE])) (buf @ [SQUOTE]) =
      ((buf @ [SQUOTE]) @ s, length (pre @ [SQUOTE, SQUOTE]) + length (escape_quotes s) + 1)"
      using Cons.prems by (intro Cons.IH) auto
    with True show ?thesis by (subst string_loop.simps) (simp add: Let_def)
  next
    case False
    have "string_loop ((pre @ [c]) @ escape_quotes s @ SQUOTE # rest) (length (pre @ [c])) (buf @ [c]) =
      ((buf @ [c]) @ s, length (pre @ [c]) + length (escape_quotes s) + 1)"
      using Cons.prems by (intro Cons.IH) auto
    with False Cons.prems show ?thesis by (subst string_loop.simps) (auto simp: Let_def)
  qed
qed

lemma identifier_not_space: "is_identifier_continue c \<Longrightarrow> \<not> isspace c \<and> c \<noteq> SQUOTE"
  by (auto simp: ctype_defs)

lemma simple_not_other:
  "simple_token_type c = Some ty \<Longrightarrow>
   c \<noteq> NUL \<and> \<not> isspace c \<and> \<not> is_identifier_start c \<and> c \<noteq> SQUOTE"
  by (auto simp: simple_token_type_def ctype_defs split: if_splits)

lemma space_class: "isspace SPC" "\<not> is_identifier_continue SPC" "SPC \<noteq> SQUOTE"
  by (auto simp: ctype_defs)

lemma lex_loop_space:
  "char_at input i = SPC \<Longrightarrow> lex_loop input i tokens = lex_loop input (Suc i) tokens"
  by (subst lex_loop.simps) (simp add: space_class)

lemma lex_loop_word:
  assumes "w \<noteq> []" "list_all is_identifier_continue w"
    "ty = (if isdigit (hd w) then TOKEN_NUMBER else TOKEN_IDENTIFIER)"
  shows "lex_loop (pre @ w @ SPC # rest) (length pre) tokens =
         lex_loop (pre @ w @ SPC # rest) (length pre + length w)
           (push_token tokens ty w (length pre))"
proof -
  obtain c cs where w: "w = c # cs" using assms(1) by (cases w) auto
  then have c: "is_identifier_continue c" using assms(2) by simp
  have "word_end (pre @ w @ SPC # rest) (length pre) = length pre + length w"
    using assms(2) by (intro word_end_span) (simp_all add: space_class)
  then have "lex_word (pre @ w @ SPC # rest) (length pre) tokens =
      (length pre + length w, push_token tokens ty w (length pre))"
    using assms(3) w by (simp add: lex_word_def Let_def char_at_def)
  with c w show ?thesis
    using identifier_not_space [OF c] identifier_not_NUL [OF c]
    by (subst lex_loop.simps) (simp add: is_identifier_start_continue)
qed

lemma lex_loop_token:
  assumes "lexable (ty, s)"
  shows "lex_loop (pre @ render_token (ty, s) @ SPC # rest) (length pre) tokens =
         lex_loop (pre @ render_token (ty, s) @ SPC # rest)
           (length pre + length (render_token (ty, s)) + 1) (push_token tokens ty s (length pre))"
    (is "lex_loop ?in _ _ = lex_loop _ (?end + 1) ?ts")
proof -
  have sp: "lex_loop ?in ?end ?ts = lex_loop ?in (?end + 1) ?ts"
    using char_at_append_shift [of "pre @ render_token (ty, s)" "SPC # rest" 0]
    by (subst lex_loop_space) (simp_all add: char_at_Cons)
  have "lex_loop ?in (length pre) tokens = lex_loop ?in ?end ?ts"
  proof (cases "ty = TOKEN_IDENTIFIER \<or> ty = TOKEN_NUMBER")
    case True
    with assms show ?thesis
      by (auto simp: lexable_def render_token_def intro!: lex_loop_word)
  next
    case word: False
    show ?thesis
    proof (cases "ty = TOKEN_STRING")
      case True
      have q: "\<not> isspace SQUOTE" "\<not> is_identifier_start SQUOTE" by (auto simp: ctype_defs)
      have "string_loop ((pre @ [SQUOTE]) @ escape_quotes s @ SQUOTE # SPC # rest)
          (length (pre @ [SQUOTE])) [] =
        ([] @ s, length (pre @ [SQUOTE]) + length (escape_quotes s) + 1)"
        using assms True by (intro string_loop_escape) (auto simp: lexable_def)
      moreover have "char_at (pre @ SQUOTE # escape_quotes s @ SQUOTE # SPC # rest)
          (Suc (length pre + length (escape_quotes s))) = SQUOTE"
        using char_at_append_shift [of "pre @ SQUOTE # escape_quotes s" "SQUOTE # SPC # rest" 0] by simp
      ultimately have "lex_string ?in (length pre) tokens = Inr (?end, ?ts)"
        using True by (simp add: lex_string_def render_token_def)
      with q show ?thesis
        using True by (subst lex_loop.simps) (simp add: render_token_def Let_def)
    next
      case False
      with word assms obtain c where c: "s = [c]" "simple_token_type c = Some ty"
        by (cases ty; cases s rule: remdups_adj.cases) (auto simp: lexable_def)
      with False word simple_not_other [OF c(2)] show ?thesis
        by (cases ty) (subst lex_loop.simps, simp add: render_token_def push_simple_token_def)+
    qed
  qed
  with sp show ?thesis by simp
qed

lemma lex_loop_render:
  assumes "list_all lexable ts"
  shows "\<exists>us. lex_loop (pre @ render_tokens ts) (length pre) tokens =
       Inr (tokens @ us) \<and> map token_key us = ts @ [(TOKEN_END, [])]"
  using assms
proof (induction ts arbitrary: pre tokens)
  case Nil
  have "char_at pre (length pre) = NUL" by (simp add: char_at_def)
  then show ?case
    by (subst lex_loop.simps) (simp add: render_tokens_def push_token_def)
next
  case (Cons t ts)
  obtain ty s where t: "t = (ty, s)" by (cases t)
  let ?pre = "pre @ render_token t @ [SPC]"
  have "lex_loop (pre @ render_tokens (t # ts)) (length pre) tokens =
    lex_loop (?pre @ render_tokens ts) (length ?pre) (push_token tokens ty s (length pre))"
    using Cons.prems lex_loop_token [of ty s pre "render_tokens ts" tokens]
    by (simp add: render_tokens_def t)
  moreover obtain us where
    "lex_loop (?pre @ render_tokens ts) (length ?pre) (push_token tokens ty s (length pre)) =
       Inr (push_token tokens ty s (length pre) @ us)" "map token_key us = ts @ [(TOKEN_END, [])]"
    using Cons.IH [of ?pre "push_token tokens ty s (length pre)"] Cons.prems by auto
  ultimately show ?case
    by (intro exI [of _ "\<lparr>tok_type = ty, tok_text = s, tok_position = length pre\<rparr> # us"])
      (simp add: push_token_def t)
qed

section \<open>Literals that are never closed\<close>

lemma string_loop_open:
  "NUL \<notin> set s \<Longrightarrow>
   string_loop (pre @ escape_quotes s) (length pre) buf = (buf @ s, length pre + length (escape_quotes s))"
proof (induction s arbitrary: pre buf)
  case Nil
  have "char_at pre (length pre) = NUL" by (simp add: char_at_def)
  then show ?case by (subst string_loop.simps) simp
next
  case (Cons c s)
  show ?case
  proof (cases "c = SQUOTE")
    case True
    have "string_loop ((pre @ [SQUOTE, SQUOTE]) @ escape_quotes s)
        (length (pre @ [SQUOTE, SQUOTE])) (buf @ [SQUOTE]) =
      ((buf @ [SQUOTE]) @ s, length (pre @ [SQUOTE, SQUOTE]) + length (escape_quotes s))"
      using Cons.prems by (intro Cons.IH) auto
    with True show ?thesis by (subst string_loop.simps) (simp add: Let_def)
  next
    case False
    have "string_loop ((pre @ [c]) @ escape_quotes s) (length (pre @ [c])) (buf @ [c]) =
      ((buf @ [c]) @ s, length (pre @ [c]) + length (escape_quotes s))"
      using Cons.prems by (intro Cons.IH) auto
    with False Cons.prems show ?thesis by (subst string_loop.simps) (auto simp: Let_def)
  qed
qed

lemma last_escape_quotes: "s \<noteq> [] \<Longrightarrow> escape_quotes s \<noteq> [] \<and> last (escape_quotes s) = last s"
  by (induction s) (auto simp: escape_quotes_def)

lemma lex_loop_literal:
  assumes "char_at input i = SQUOTE"
  shows "lex_loop input i tokens =
    (case lex_string input i tokens of Inl e \<Rightarrow> Inl e | Inr (i', tokens') \<Rightarrow> lex_loop input i' tokens')"
proof -
  have "\<not> isspace SQUOTE" "\<not> is_identifier_start SQUOTE" by (auto simp: ctype_defs)
  with assms show ?thesis by (subst lex_loop.simps) (simp add: Let_def)
qed

section \<open>The lexer's theorems\<close>

text \<open>
  Token array: whenever \<open>lex_sql\<close> succeeds, its result is a sequence of tokens each of which is
  the lexeme found at its recorded position (words and numbers verbatim, symbols by their
  character, string literals by their opening quote), in strictly increasing order of position,
  followed by exactly one end token positioned at the terminator of the input.
\<close>

theorem lex_sql_wellformed:
  assumes "lex_sql input = Inr ts"
  shows "\<exists>us e. ts = us @ [e] \<and> tok_type e = TOKEN_END \<and> tok_text e = [] \<and>
    char_at input (tok_position e) = NUL \<and> (\<forall>t \<in> set us. token_at input t) \<and>
    sorted_wrt (<) (map tok_position ts)"
  using lex_loop_wf [OF assms [unfolded lex_sql_def]] unfolding lexed_def by auto

theorem lex_sql_wellformed_witness:
  "lex_sql ''a;'' = Inr [\<lparr>tok_type = TOKEN_IDENTIFIER, tok_text = ''a'', tok_position = 0\<rparr>,
     \<lparr>tok_type = TOKEN_SEMICOLON, tok_text = '';'', tok_position = 1\<rparr>,
     \<lparr>tok_type = TOKEN_END, tok_text = [], tok_position = 2\<rparr>] \<and>
   (\<exists>us e. [\<lparr>tok_type = TOKEN_IDENTIFIER, tok_text = ''a'', tok_position = 0\<rparr>,
     \<lparr>tok_type = TOKEN_SEMICOLON, tok_text = '';'', tok_position = 1\<rparr>,
     \<lparr>tok_type = TOKEN_END, tok_text = [], tok_position = 2\<rparr>] = us @ [e] \<and>
     tok_type e = TOKEN_END \<and> (\<forall>t \<in> set us. token_at ''a;'' t))"
proof -
  have "lex_sql ''a;'' = Inr [\<lparr>tok_type = TOKEN_IDENTIFIER, tok_text = ''a'', tok_position = 0\<rparr>,
     \<lparr>tok_type = TOKEN_SEMICOLON, tok_text = '';'', tok_position = 1\<rparr>,
     \<lparr>tok_type = TOKEN_END, tok_text = [], tok_position = 2\<rparr>]"
    by code_simp
  from lex_sql_wellformed [OF this] this show ?thesis by blast
qed

text \<open>
  Round trip: rendering any list of lexable tokens, with a space after each and quotes doubled
  inside string literals, and lexing the text gives back the same token types and texts, followed
  by the end token.
\<close>

theorem lex_sql_render:
  assumes "list_all lexable ts"
  shows "\<exists>us. lex_sql (render_tokens ts) = Inr us \<and> map token_key us = ts @ [(TOKEN_END, [])]"
  using lex_loop_render [OF assms, of "[]" "[]"] by (simp add: lex_sql_def)

theorem lex_sql_render_witness:
  "list_all lexable [(TOKEN_IDENTIFIER, ''select''), (TOKEN_STRING, [CHR ''a'', SQUOTE])] \<and>
   (\<exists>us. lex_sql (render_tokens [(TOKEN_IDENTIFIER, ''select''), (TOKEN_STRING, [CHR ''a'', SQUOTE])]) =
      Inr us \<and> map token_key us =
      [(TOKEN_IDENTIFIER, ''select''), (TOKEN_STRING, [CHR ''a'', SQUOTE])] @ [(TOKEN_END, [])])"
proof -
  have "list_all lexable [(TOKEN_IDENTIFIER, ''select''), (TOKEN_STRING, [CHR ''a'', SQUOTE])]"
    by code_simp
  with lex_sql_render [OF this] show ?thesis by blast
qed



end
