(* ===== verification/Parser.thy ===== *)
theory Parser
  imports Lexer
begin

text \<open>
  The AST of \<open>sql/ast.h\<close> and the recursive-descent parser of \<open>sql/parser.c\<close>. The parser state
  is the token array and the index of the current token; every function takes the index and
  returns the new one. Reading a token past the end of the array is a fault of its own
  (\<open>TokenOutOfBounds\<close>), so that the absence of such reads is a theorem and not an assumption.
\<close>

section \<open>Statements\<close>

record insert_statement =
  ins_table :: string
  ins_columns :: "string list"
  ins_values :: "string list"

record select_statement =
  sel_table :: string
  sel_columns :: "string list"
  sel_all :: bool
  sel_where :: "(string \<times> string) option"

datatype statement = Insert insert_statement | Select select_statement

section \<open>Errors\<close>

datatype parse_failure = ParseMessage string | TokenOutOfBounds

fun token_type_name :: "token_type \<Rightarrow> string" where
  "token_type_name TOKEN_IDENTIFIER = ''IDENTIFIER''"
| "token_type_name TOKEN_STRING = ''STRING''"
| "token_type_name TOKEN_NUMBER = ''NUMBER''"
| "token_type_name TOKEN_STAR = ''STAR''"
| "token_type_name TOKEN_EQUALS = ''EQUALS''"
| "token_type_name TOKEN_COMMA = ''COMMA''"
| "token_type_name TOKEN_LPAREN = ''LPAREN''"
| "token_type_name TOKEN_RPAREN = ''RPAREN''"
| "token_type_name TOKEN_SEMICOLON = ''SEMICOLON''"
| "token_type_name TOKEN_END = ''EOF''"

definition describe_token :: "token \<Rightarrow> string" where
  "describe_token t = snprintf 128
     (if tok_type t = TOKEN_END then ''EOF at position '' @ show_nat (tok_position t)
      else if tok_text t \<noteq> [] then
        token_type_name (tok_type t) @ ''('' @ [DQUOTE] @ tok_text t @ [DQUOTE] @ '') at position '' @
        show_nat (tok_position t)
      else token_type_name (tok_type t) @ '' at position '' @ show_nat (tok_position t))"

definition expected_token_message :: "string \<Rightarrow> token \<Rightarrow> string" where
  "expected_token_message expected t = snprintf 256
     (if take 9 expected = ''expected '' \<or> take 11 expected = ''unexpected ''
      then expected @ '', got '' @ describe_token t
      else ''expected '' @ expected @ '', got '' @ describe_token t)"

section \<open>Token access\<close>

definition current_token :: "token list \<Rightarrow> nat \<Rightarrow> parse_failure + token" where
  "current_token tokens index =
     (if index < length tokens then Inr (tokens ! index) else Inl TokenOutOfBounds)"

definition set_expected_token_error :: "token list \<Rightarrow> nat \<Rightarrow> string \<Rightarrow> parse_failure" where
  "set_expected_token_error tokens index expected =
     (case current_token tokens index of
        Inl f \<Rightarrow> f
      | Inr t \<Rightarrow> ParseMessage (expected_token_message expected t))"

definition match_type :: "token list \<Rightarrow> nat \<Rightarrow> token_type \<Rightarrow> parse_failure + (bool \<times> nat)" where
  "match_type tokens index ty =
     (case current_token tokens index of
        Inl f \<Rightarrow> Inl f
      | Inr t \<Rightarrow> if tok_type t = ty then Inr (True, Suc index) else Inr (False, index))"

definition expect_type :: "token list \<Rightarrow> nat \<Rightarrow> token_type \<Rightarrow> string \<Rightarrow> parse_failure + nat" where
  "expect_type tokens index ty message =
     (case match_type tokens index ty of
        Inl f \<Rightarrow> Inl f
      | Inr (True, index') \<Rightarrow> Inr index'
      | Inr (False, index') \<Rightarrow> Inl (set_expected_token_error tokens index' message))"

definition is_keyword :: "string \<Rightarrow> token \<Rightarrow> bool" where
  "is_keyword keyword t \<longleftrightarrow>
     tok_type t = TOKEN_IDENTIFIER \<and> strings_equal_ignore_case (tok_text t) keyword"

definition expect_keyword :: "token list \<Rightarrow> nat \<Rightarrow> string \<Rightarrow> parse_failure + nat" where
  "expect_keyword tokens index keyword =
     (case current_token tokens index of
        Inl f \<Rightarrow> Inl f
      | Inr t \<Rightarrow>
          if \<not> is_keyword keyword t
          then Inl (set_expected_token_error tokens index (snprintf 64 (''keyword '' @ keyword)))
          else Inr (Suc index))"

section \<open>Identifiers and values\<close>

definition parse_identifier :: "token list \<Rightarrow> nat \<Rightarrow> parse_failure + (string \<times> nat)" where
  "parse_identifier tokens index =
     (case current_token tokens index of
        Inl f \<Rightarrow> Inl f
      | Inr t \<Rightarrow>
          if tok_type t \<noteq> TOKEN_IDENTIFIER
          then Inl (set_expected_token_error tokens index ''identifier'')
          else Inr (tok_text t, Suc index))"

lemma parse_identifier_progress: "parse_identifier tokens i = Inr (v, j) \<Longrightarrow> j = Suc i \<and> i < length tokens"
  by (auto simp: parse_identifier_def current_token_def split: if_splits)

lemma match_type_progress:
  "match_type tokens i ty = Inr (b, j) \<Longrightarrow> i < length tokens \<and> j = (if b then Suc i else i)"
  by (auto simp: match_type_def current_token_def split: if_splits)

function identifier_list_loop ::
    "token list \<Rightarrow> nat \<Rightarrow> string list \<Rightarrow> parse_failure + (string list \<times> nat)" where
  "identifier_list_loop tokens index acc =
     (case match_type tokens index TOKEN_COMMA of
        Inl f \<Rightarrow> Inl f
      | Inr (False, index') \<Rightarrow> Inr (acc, index')
      | Inr (True, index') \<Rightarrow>
          (case parse_identifier tokens index' of
             Inl f \<Rightarrow> Inl f
           | Inr (v, index'') \<Rightarrow> identifier_list_loop tokens index'' (acc @ [v])))"
  by pat_completeness auto
termination
  by (relation "measure (\<lambda>(tokens, index, acc). length tokens - index)")
    (auto dest!: match_type_progress parse_identifier_progress)

declare identifier_list_loop.simps [simp del]

definition parse_identifier_list :: "token list \<Rightarrow> nat \<Rightarrow> parse_failure + (string list \<times> nat)" where
  "parse_identifier_list tokens index =
     (case parse_identifier tokens index of
        Inl f \<Rightarrow> Inl f
      | Inr (v, index') \<Rightarrow> identifier_list_loop tokens index' [v])"

definition is_value_type :: "token_type \<Rightarrow> bool" where
  "is_value_type ty \<longleftrightarrow> ty = TOKEN_STRING \<or> ty = TOKEN_NUMBER \<or> ty = TOKEN_IDENTIFIER"

definition parse_value :: "token list \<Rightarrow> nat \<Rightarrow> string \<Rightarrow> parse_failure + (string \<times> nat)" where
  "parse_value tokens index expected =
     (case current_token tokens index of
        Inl f \<Rightarrow> Inl f
      | Inr t \<Rightarrow>
          if \<not> is_value_type (tok_type t)
          then Inl (set_expected_token_error tokens index expected)
          else Inr (tok_text t, Suc index))"

lemma parse_value_progress: "parse_value tokens i e = Inr (v, j) \<Longrightarrow> j = Suc i \<and> i < length tokens"
  by (auto simp: parse_value_def current_token_def split: if_splits)

function value_list_loop ::
    "token list \<Rightarrow> nat \<Rightarrow> string list \<Rightarrow> parse_failure + (string list \<times> nat)" where
  "value_list_loop tokens index acc =
     (case match_type tokens index TOKEN_COMMA of
        Inl f \<Rightarrow> Inl f
      | Inr (False, index') \<Rightarrow> Inr (acc, index')
      | Inr (True, index') \<Rightarrow>
          (case parse_value tokens index' ''SQL value'' of
             Inl f \<Rightarrow> Inl f
           | Inr (v, index'') \<Rightarrow> value_list_loop tokens index'' (acc @ [v])))"
  by pat_completeness auto
termination
  by (relation "measure (\<lambda>(tokens, index, acc). length tokens - index)")
    (auto dest!: match_type_progress parse_value_progress)

declare value_list_loop.simps [simp del]

definition parse_value_list :: "token list \<Rightarrow> nat \<Rightarrow> parse_failure + (string list \<times> nat)" where
  "parse_value_list tokens index =
     (case parse_value tokens index ''SQL value'' of
        Inl f \<Rightarrow> Inl f
      | Inr (v, index') \<Rightarrow> value_list_loop tokens index' [v])"

definition parse_condition_value :: "token list \<Rightarrow> nat \<Rightarrow> parse_failure + (string \<times> nat)" where
  "parse_condition_value tokens index = parse_value tokens index ''SQL value in WHERE clause''"

definition reject_unsupported_where_connector :: "token list \<Rightarrow> nat \<Rightarrow> parse_failure + unit" where
  "reject_unsupported_where_connector tokens index =
     (case current_token tokens index of
        Inl f \<Rightarrow> Inl f
      | Inr t \<Rightarrow>
          if tok_type t \<noteq> TOKEN_IDENTIFIER then Inr ()
          else if \<not> strings_equal_ignore_case (tok_text t) ''AND'' \<and>
                  \<not> strings_equal_ignore_case (tok_text t) ''OR'' then Inr ()
          else Inl (ParseMessage (snprintf 256
            (''AND/OR conditions are not supported; only a single WHERE condition is allowed, got IDENTIFIER('' @
             [DQUOTE] @ tok_text t @ [DQUOTE] @ '') at position '' @ show_nat (tok_position t)))))"

section \<open>Statements\<close>

definition parse_insert :: "token list \<Rightarrow> nat \<Rightarrow> parse_failure + (insert_statement \<times> nat)" where
  "parse_insert tokens i0 =
     sbind (expect_keyword tokens i0 ''INSERT'') (\<lambda>i1.
     sbind (expect_keyword tokens i1 ''INTO'') (\<lambda>i2.
     sbind (parse_identifier tokens i2) (\<lambda>(table, i3).
     sbind (expect_type tokens i3 TOKEN_LPAREN
        (''expected '' @ [SQUOTE] @ ''('' @ [SQUOTE] @ '' after table name'')) (\<lambda>i4.
     sbind (parse_identifier_list tokens i4) (\<lambda>(columns, i5).
     sbind (expect_type tokens i5 TOKEN_RPAREN
        (''expected '' @ [SQUOTE] @ '')'' @ [SQUOTE] @ '' after column list'')) (\<lambda>i6.
     sbind (expect_keyword tokens i6 ''VALUES'') (\<lambda>i7.
     sbind (expect_type tokens i7 TOKEN_LPAREN
        (''expected '' @ [SQUOTE] @ ''('' @ [SQUOTE] @ '' after VALUES'')) (\<lambda>i8.
     sbind (parse_value_list tokens i8) (\<lambda>(vals, i9).
     sbind (expect_type tokens i9 TOKEN_RPAREN
        (''expected '' @ [SQUOTE] @ '')'' @ [SQUOTE] @ '' after value list'')) (\<lambda>i10.
     Inr (\<lparr>ins_table = table, ins_columns = columns, ins_values = vals\<rparr>, i10)))))))))))"

definition parse_where :: "token list \<Rightarrow> nat \<Rightarrow> parse_failure + ((string \<times> string) option \<times> nat)" where
  "parse_where tokens i0 =
     sbind (current_token tokens i0) (\<lambda>t.
       if \<not> is_keyword ''WHERE'' t then Inr (None, i0)
       else
         sbind (parse_identifier tokens (Suc i0)) (\<lambda>(column, i1).
         sbind (expect_type tokens i1 TOKEN_EQUALS
            (''expected '' @ [SQUOTE] @ ''='' @ [SQUOTE] @ '' in WHERE clause'')) (\<lambda>i2.
         sbind (parse_condition_value tokens i2) (\<lambda>(v, i3).
         sbind (reject_unsupported_where_connector tokens i3) (\<lambda>_.
         Inr (Some (column, v), i3))))))"

definition parse_select :: "token list \<Rightarrow> nat \<Rightarrow> parse_failure + (select_statement \<times> nat)" where
  "parse_select tokens i0 =
     sbind (expect_keyword tokens i0 ''SELECT'') (\<lambda>i1.
     sbind (match_type tokens i1 TOKEN_STAR) (\<lambda>(star, i2).
     sbind (if star then Inr ([], i2) else parse_identifier_list tokens i2) (\<lambda>(columns, i3).
     sbind (expect_keyword tokens i3 ''FROM'') (\<lambda>i4.
     sbind (parse_identifier tokens i4) (\<lambda>(table, i5).
     sbind (parse_where tokens i5) (\<lambda>(w, i6).
     Inr (\<lparr>sel_table = table, sel_columns = columns, sel_all = star, sel_where = w\<rparr>, i6)))))))"

definition finish_statement ::
    "token list \<Rightarrow> statement \<Rightarrow> nat \<Rightarrow> parse_failure + statement" where
  "finish_statement tokens stmt i0 =
     sbind (expect_type tokens i0 TOKEN_SEMICOLON
        (''expected '' @ [SQUOTE] @ '';'' @ [SQUOTE] @ '' at end of SQL statement'')) (\<lambda>i1.
     sbind (expect_type tokens i1 TOKEN_END ''unexpected tokens after SQL statement'') (\<lambda>i2.
     Inr stmt))"

definition parse_statement :: "token list \<Rightarrow> parse_failure + statement" where
  "parse_statement tokens =
     sbind (current_token tokens 0) (\<lambda>t.
       if is_keyword ''INSERT'' t then
         sbind (parse_insert tokens 0) (\<lambda>(s, i). finish_statement tokens (Insert s) i)
       else if is_keyword ''SELECT'' t then
         sbind (parse_select tokens 0) (\<lambda>(s, i). finish_statement tokens (Select s) i)
       else Inl (ParseMessage (snprintf 256
              (''only INSERT and SELECT are supported, got '' @ describe_token t))))"

section \<open>The grammar\<close>

text \<open>
  The grammar as patterns over single tokens. \<open>sentence s\<close> is the pattern of statement \<open>s\<close>, and
  \<open>match_at tokens i ps\<close> says that the tokens from index \<open>i\<close> on instantiate the patterns \<open>ps\<close>.
\<close>

datatype pattern = Keyword string | Identifier string | Val string | Punct token_type

fun token_matches :: "pattern \<Rightarrow> token \<Rightarrow> bool" where
  "token_matches (Keyword k) t \<longleftrightarrow> is_keyword k t"
| "token_matches (Identifier x) t \<longleftrightarrow> tok_type t = TOKEN_IDENTIFIER \<and> tok_text t = x"
| "token_matches (Val x) t \<longleftrightarrow> is_value_type (tok_type t) \<and> tok_text t = x"
| "token_matches (Punct ty) t \<longleftrightarrow> tok_type t = ty"

fun match_at :: "token list \<Rightarrow> nat \<Rightarrow> pattern list \<Rightarrow> bool" where
  "match_at tokens i [] \<longleftrightarrow> True"
| "match_at tokens i (p # ps) \<longleftrightarrow>
     i < length tokens \<and> token_matches p (tokens ! i) \<and> match_at tokens (Suc i) ps"

definition comma_tail :: "('a \<Rightarrow> pattern) \<Rightarrow> 'a list \<Rightarrow> pattern list" where
  "comma_tail p xs = concat (map (\<lambda>x. [Punct TOKEN_COMMA, p x]) xs)"

fun comma_list :: "('a \<Rightarrow> pattern) \<Rightarrow> 'a list \<Rightarrow> pattern list" where
  "comma_list p [] = []"
| "comma_list p (x # xs) = p x # comma_tail p xs"

fun where_pattern :: "(string \<times> string) option \<Rightarrow> pattern list" where
  "where_pattern None = []"
| "where_pattern (Some (c, v)) = [Keyword ''WHERE'', Identifier c, Punct TOKEN_EQUALS, Val v]"

fun statement_pattern :: "statement \<Rightarrow> pattern list" where
  "statement_pattern (Insert s) =
     [Keyword ''INSERT'', Keyword ''INTO'', Identifier (ins_table s), Punct TOKEN_LPAREN] @
     comma_list Identifier (ins_columns s) @
     [Punct TOKEN_RPAREN, Keyword ''VALUES'', Punct TOKEN_LPAREN] @
     comma_list Val (ins_values s) @ [Punct TOKEN_RPAREN]"
| "statement_pattern (Select s) =
     [Keyword ''SELECT''] @
     (if sel_all s then [Punct TOKEN_STAR] else comma_list Identifier (sel_columns s)) @
     [Keyword ''FROM'', Identifier (sel_table s)] @ where_pattern (sel_where s)"

definition sentence :: "statement \<Rightarrow> pattern list" where
  "sentence s = statement_pattern s @ [Punct TOKEN_SEMICOLON, Punct TOKEN_END]"

text \<open>The statements the parser can build: non-empty lists, and no column list beside a star.\<close>

fun proper_statement :: "statement \<Rightarrow> bool" where
  "proper_statement (Insert s) \<longleftrightarrow> ins_columns s \<noteq> [] \<and> ins_values s \<noteq> []"
| "proper_statement (Select s) \<longleftrightarrow> (sel_columns s = []) = sel_all s"

lemma match_at_append [simp]:
  "match_at tokens i (ps @ qs) \<longleftrightarrow> match_at tokens i ps \<and> match_at tokens (i + length ps) qs"
  by (induction ps arbitrary: i) auto

lemma comma_tail_simps [simp]:
  "comma_tail p [] = []"
  "comma_tail p (x # xs) = Punct TOKEN_COMMA # p x # comma_tail p xs"
  by (simp_all add: comma_tail_def)

lemma length_comma_tail [simp]: "length (comma_tail p xs) = 2 * length xs"
  by (induction xs) auto

section \<open>What each parsing function accepts\<close>

lemma current_token_Inr [simp]:
  "current_token tokens i = Inr t \<longleftrightarrow> i < length tokens \<and> t = tokens ! i"
  by (auto simp: current_token_def)

lemma match_type_iff:
  "match_type tokens i ty = Inr (b, j) \<longleftrightarrow>
   i < length tokens \<and> b = (tok_type (tokens ! i) = ty) \<and> j = (if b then Suc i else i)"
  by (auto simp: match_type_def current_token_def)

lemma expect_type_iff:
  "expect_type tokens i ty m = Inr j \<longleftrightarrow> match_at tokens i [Punct ty] \<and> j = Suc i"
  by (auto simp: expect_type_def match_type_def current_token_def)

lemma expect_keyword_iff:
  "expect_keyword tokens i k = Inr j \<longleftrightarrow> match_at tokens i [Keyword k] \<and> j = Suc i"
  by (auto simp: expect_keyword_def current_token_def)

lemma parse_identifier_iff:
  "parse_identifier tokens i = Inr (v, j) \<longleftrightarrow> match_at tokens i [Identifier v] \<and> j = Suc i"
  by (auto simp: parse_identifier_def current_token_def)

lemma parse_value_iff:
  "parse_value tokens i e = Inr (v, j) \<longleftrightarrow> match_at tokens i [Val v] \<and> j = Suc i"
  by (auto simp: parse_value_def current_token_def)

lemma reject_iff:
  "reject_unsupported_where_connector tokens i = Inr u \<longleftrightarrow>
   i < length tokens \<and> \<not> is_keyword ''AND'' (tokens ! i) \<and> \<not> is_keyword ''OR'' (tokens ! i)"
  by (auto simp: reject_unsupported_where_connector_def current_token_def is_keyword_def)

text \<open>
  The two list parsers are the same loop over different items. The locale states what the loop
  relies on: the item parser accepts exactly one token of its pattern.
\<close>

locale comma_separated =
  fixes item :: "token list \<Rightarrow> nat \<Rightarrow> parse_failure + (string \<times> nat)"
    and pat :: "string \<Rightarrow> pattern"
    and loop :: "token list \<Rightarrow> nat \<Rightarrow> string list \<Rightarrow> parse_failure + (string list \<times> nat)"
    and start :: "token list \<Rightarrow> nat \<Rightarrow> parse_failure + (string list \<times> nat)"
  assumes item_iff: "item tokens i = Inr (v, j) \<longleftrightarrow> match_at tokens i [pat v] \<and> j = Suc i"
    and loop_eq: "loop tokens i acc =
       sbind (match_type tokens i TOKEN_COMMA) (\<lambda>(more, j).
         if more then sbind (item tokens j) (\<lambda>(v, k). loop tokens k (acc @ [v])) else Inr (acc, j))"
    and start_eq: "start tokens i = sbind (item tokens i) (\<lambda>(v, j). loop tokens j [v])"
begin

lemma loop_complete:
  "match_at tokens i (comma_tail pat xs) \<Longrightarrow> j = i + 2 * length xs \<Longrightarrow> j < length tokens \<Longrightarrow>
   tok_type (tokens ! j) \<noteq> TOKEN_COMMA \<Longrightarrow> loop tokens i acc = Inr (acc @ xs, j)"
proof (induction xs arbitrary: i acc)
  case Nil
  then show ?case by (subst loop_eq) (simp add: match_type_def current_token_def)
next
  case (Cons x xs)
  have "item tokens (Suc i) = Inr (x, Suc (Suc i))"
    using Cons.prems by (simp add: item_iff)
  moreover have "loop tokens (Suc (Suc i)) (acc @ [x]) = Inr ((acc @ [x]) @ xs, j)"
    using Cons.prems by (intro Cons.IH) simp_all
  ultimately show ?case
    using Cons.prems by (subst loop_eq) (simp add: match_type_def current_token_def)
qed

lemma loop_sound:
  "loop tokens i acc = Inr (vs, j) \<Longrightarrow> \<exists>xs. vs = acc @ xs \<and> j = i + 2 * length xs \<and>
     match_at tokens i (comma_tail pat xs) \<and> j < length tokens \<and> tok_type (tokens ! j) \<noteq> TOKEN_COMMA"
proof (induction "length tokens - i" arbitrary: i acc rule: less_induct)
  case less
  from less.prems obtain b k where mt: "match_type tokens i TOKEN_COMMA = Inr (b, k)"
    by (subst (asm) loop_eq) (auto simp: sbind_Inr_iff)
  show ?case
  proof (cases b)
    case False
    with mt less.prems show ?thesis
      by (subst (asm) loop_eq) (auto simp: match_type_iff sbind_Inr_iff)
  next
    case True
    with mt less.prems obtain v where v: "item tokens k = Inr (v, Suc k)"
      and rec: "loop tokens (Suc k) (acc @ [v]) = Inr (vs, j)" and k: "k = Suc i" "i < length tokens"
      by (subst (asm) loop_eq) (auto simp: match_type_iff sbind_Inr_iff item_iff)
    from less.hyps [OF _ rec] k obtain xs where
      "vs = (acc @ [v]) @ xs" "j = Suc k + 2 * length xs" "match_at tokens (Suc k) (comma_tail pat xs)"
      "j < length tokens" "tok_type (tokens ! j) \<noteq> TOKEN_COMMA" by fastforce
    with v k mt True show ?thesis
      by (intro exI [of _ "v # xs"]) (auto simp: item_iff match_type_iff)
  qed
qed

lemma start_iff:
  "start tokens i = Inr (vs, j) \<longleftrightarrow> vs \<noteq> [] \<and> j = i + length (comma_list pat vs) \<and>
     match_at tokens i (comma_list pat vs) \<and> j < length tokens \<and> tok_type (tokens ! j) \<noteq> TOKEN_COMMA"
    (is "?l \<longleftrightarrow> ?r")
proof
  assume ?l
  then obtain v where v: "item tokens i = Inr (v, Suc i)" and
    rec: "loop tokens (Suc i) [v] = Inr (vs, j)" by (auto simp: start_eq sbind_Inr_iff item_iff)
  from loop_sound [OF rec] v show ?r by (auto simp: item_iff)
next
  assume r: ?r
  then obtain v xs where vs: "vs = v # xs" by (cases vs) auto
  with r have "item tokens i = Inr (v, Suc i)" "loop tokens (Suc i) [v] = Inr ([v] @ xs, j)"
    by (simp add: item_iff, intro loop_complete) auto
  with vs show ?l by (simp add: start_eq)
qed

lemma start_in_bounds:
  assumes item_oob: "\<And>i. item tokens i = Inl TokenOutOfBounds \<Longrightarrow> length tokens \<le> i"
    and closed: "\<And>i. i < length tokens \<Longrightarrow> tok_type (tokens ! i) = TOKEN_COMMA \<Longrightarrow> Suc i < length tokens"
    and items: "\<And>v i. match_at tokens i [pat v] \<Longrightarrow> Suc i < length tokens"
    and "i < length tokens"
  shows "start tokens i \<noteq> Inl TokenOutOfBounds"
proof -
  have loop: "k < length tokens \<Longrightarrow> loop tokens k acc \<noteq> Inl TokenOutOfBounds" for k acc
  proof (induction "length tokens - k" arbitrary: k acc rule: less_induct)
    case less
    then show ?case
      using closed [of k] item_oob [of "Suc k"] items [of "Suc k"]
      by (subst loop_eq) (force simp: match_type_def current_token_def sbind_Inl_iff item_iff
          split: if_splits)
  qed
  show ?thesis
    using item_oob [of i] items [of i] assms(4) loop by (force simp: start_eq sbind_Inl_iff item_iff)
qed

end

interpretation idents: comma_separated parse_identifier Identifier identifier_list_loop parse_identifier_list
proof
  fix tokens i v j acc
  show "parse_identifier tokens i = Inr (v, j) \<longleftrightarrow> match_at tokens i [Identifier v] \<and> j = Suc i"
    by (rule parse_identifier_iff)
  show "identifier_list_loop tokens i acc = sbind (match_type tokens i TOKEN_COMMA) (\<lambda>(more, j).
      if more then sbind (parse_identifier tokens j) (\<lambda>(v, k). identifier_list_loop tokens k (acc @ [v]))
      else Inr (acc, j))"
    by (subst identifier_list_loop.simps) (auto split: sum.splits)
  show "parse_identifier_list tokens i =
      sbind (parse_identifier tokens i) (\<lambda>(v, j). identifier_list_loop tokens j [v])"
    by (auto simp: parse_identifier_list_def split: sum.splits)
qed

interpretation vals: comma_separated "\<lambda>tokens i. parse_value tokens i ''SQL value''" Val
  value_list_loop parse_value_list
proof
  fix tokens i v j acc
  show "parse_value tokens i ''SQL value'' = Inr (v, j) \<longleftrightarrow> match_at tokens i [Val v] \<and> j = Suc i"
    by (rule parse_value_iff)
  show "value_list_loop tokens i acc = sbind (match_type tokens i TOKEN_COMMA) (\<lambda>(more, j).
      if more then sbind (parse_value tokens j ''SQL value'') (\<lambda>(v, k). value_list_loop tokens k (acc @ [v]))
      else Inr (acc, j))"
    by (subst value_list_loop.simps) (auto split: sum.splits)
  show "parse_value_list tokens i =
      sbind (parse_value tokens i ''SQL value'') (\<lambda>(v, j). value_list_loop tokens j [v])"
    by (auto simp: parse_value_list_def split: sum.splits)
qed

section \<open>Statements accepted\<close>

lemmas accept_iffs = sbind_Inr_iff match_type_iff expect_type_iff expect_keyword_iff
  parse_identifier_iff idents.start_iff vals.start_iff

lemma parse_insert_iff:
  "parse_insert tokens 0 = Inr (s, i) \<longleftrightarrow>
   proper_statement (Insert s) \<and> match_at tokens 0 (statement_pattern (Insert s)) \<and>
   i = length (statement_pattern (Insert s))"
  by (cases s) (auto simp: parse_insert_def accept_iffs)

definition stops_where :: "(string \<times> string) option \<Rightarrow> token \<Rightarrow> bool" where
  "stops_where w t = (case w of
       None \<Rightarrow> \<not> is_keyword ''WHERE'' t
     | Some _ \<Rightarrow> \<not> is_keyword ''AND'' t \<and> \<not> is_keyword ''OR'' t)"

lemma parse_where_iff:
  "parse_where tokens i = Inr (w, j) \<longleftrightarrow> match_at tokens i (where_pattern w) \<and>
   j = i + length (where_pattern w) \<and> j < length tokens \<and> stops_where w (tokens ! j)"
  by (cases w) (auto simp: parse_where_def parse_condition_value_def accept_iffs parse_value_iff
      reject_iff stops_where_def)

lemma comma_list_head:
  "match_at tokens i (comma_list Identifier xs) \<Longrightarrow> xs \<noteq> [] \<Longrightarrow> tok_type (tokens ! i) = TOKEN_IDENTIFIER"
  by (cases xs) auto

lemma parse_select_iff:
  "parse_select tokens 0 = Inr (s, i) \<longleftrightarrow>
   proper_statement (Select s) \<and> match_at tokens 0 (statement_pattern (Select s)) \<and>
   i = length (statement_pattern (Select s)) \<and> i < length tokens \<and> stops_where (sel_where s) (tokens ! i)"
  by (cases s) (auto simp: parse_select_def accept_iffs parse_where_iff is_keyword_def
      dest: comma_list_head)

lemma finish_statement_iff:
  "finish_statement tokens s i = Inr r \<longleftrightarrow>
   match_at tokens i [Punct TOKEN_SEMICOLON, Punct TOKEN_END] \<and> r = s"
  by (auto simp: finish_statement_def accept_iffs)

lemma insert_not_select: "is_keyword ''INSERT'' t \<Longrightarrow> \<not> is_keyword ''SELECT'' t"
  by (auto simp: is_keyword_def strings_equal_ignore_case_iff) (code_simp)

lemma semicolon_stops_where: "tok_type t = TOKEN_SEMICOLON \<Longrightarrow> stops_where w t"
  by (auto simp: stops_where_def is_keyword_def split: option.splits)

lemma parse_statement_Insert:
  assumes "is_keyword ''INSERT'' (tokens ! 0)" "tokens \<noteq> []"
  shows "parse_statement tokens = sbind (parse_insert tokens 0) (\<lambda>(s, i). finish_statement tokens (Insert s) i)"
  using assms by (simp add: parse_statement_def current_token_def)

lemma parse_statement_Select:
  assumes "is_keyword ''SELECT'' (tokens ! 0)" "tokens \<noteq> []"
  shows "parse_statement tokens = sbind (parse_select tokens 0) (\<lambda>(s, i). finish_statement tokens (Select s) i)"
  using assms insert_not_select [of "tokens ! 0"] by (auto simp: parse_statement_def current_token_def)

section \<open>Reads stay inside the token array\<close>

definition closed_tokens :: "token list \<Rightarrow> bool" where
  "closed_tokens tokens \<longleftrightarrow> tokens \<noteq> [] \<and> tok_type (last tokens) = TOKEN_END"

lemma closed_next:
  assumes "closed_tokens tokens" "i < length tokens" "tok_type (tokens ! i) \<noteq> TOKEN_END"
  shows "Suc i < length tokens"
proof (rule ccontr)
  assume "\<not> Suc i < length tokens"
  with assms(2) have "i = length tokens - 1" by simp
  with assms show False by (auto simp: closed_tokens_def last_conv_nth)
qed

text \<open>
  \<open>in_bounds tokens pos r\<close>: the step that returned \<open>r\<close> read no token outside the array, and if it
  succeeded then the next index, found in its value by \<open>pos\<close>, is inside as well.
\<close>

definition in_bounds :: "token list \<Rightarrow> ('a \<Rightarrow> nat) \<Rightarrow> parse_failure + 'a \<Rightarrow> bool" where
  "in_bounds tokens pos r \<longleftrightarrow>
     r \<noteq> Inl TokenOutOfBounds \<and> (\<forall>x. r = Inr x \<longrightarrow> pos x < length tokens)"

lemma in_bounds_bind:
  "in_bounds tokens id m \<Longrightarrow> (\<And>i. i < length tokens \<Longrightarrow> in_bounds tokens q (f i)) \<Longrightarrow>
   in_bounds tokens q (sbind m f)"
  by (cases m) (auto simp: in_bounds_def)

lemma in_bounds_bind2:
  "in_bounds tokens snd m \<Longrightarrow> (\<And>v i. i < length tokens \<Longrightarrow> in_bounds tokens q (f v i)) \<Longrightarrow>
   in_bounds tokens q (sbind m (\<lambda>(v, i). f v i))"
  by (cases m) (auto simp: in_bounds_def)

lemma in_bounds_Inr: "pos x < length tokens \<Longrightarrow> in_bounds tokens pos (Inr x)"
  by (simp add: in_bounds_def)

lemma set_expected_in_bounds: "i < length tokens \<Longrightarrow> set_expected_token_error tokens i m \<noteq> TokenOutOfBounds"
  by (simp add: set_expected_token_error_def current_token_def)

lemmas in_bounds_simps = in_bounds_def current_token_def set_expected_in_bounds is_keyword_def is_value_type_def

lemma expect_type_in_bounds:
  assumes "closed_tokens tokens" "i < length tokens" "ty \<noteq> TOKEN_END"
  shows "in_bounds tokens id (expect_type tokens i ty m)"
    and "in_bounds tokens snd (match_type tokens i ty)"
  using assms closed_next [OF assms(1,2)]
  by (auto simp: expect_type_def match_type_def in_bounds_simps split: if_splits)

lemma items_in_bounds:
  assumes "closed_tokens tokens" "i < length tokens"
  shows "in_bounds tokens id (expect_keyword tokens i k)"
    and "in_bounds tokens snd (parse_identifier tokens i)"
    and "in_bounds tokens snd (parse_value tokens i m)"
    and "in_bounds tokens (\<lambda>_. i) (reject_unsupported_where_connector tokens i)"
  using assms closed_next [OF assms(1,2)]
  by (auto simp: expect_keyword_def parse_identifier_def parse_value_def
      reject_unsupported_where_connector_def in_bounds_simps split: if_splits)

lemma lists_in_bounds:
  assumes "closed_tokens tokens" "i < length tokens"
  shows "in_bounds tokens snd (parse_identifier_list tokens i)"
    and "in_bounds tokens snd (parse_value_list tokens i)"
proof -
  have step: "Suc j < length tokens" if "j < length tokens" "tok_type (tokens ! j) \<noteq> TOKEN_END" for j
    using closed_next [OF assms(1) that] .
  have "parse_identifier_list tokens i \<noteq> Inl TokenOutOfBounds"
    by (rule idents.start_in_bounds)
      (auto simp: parse_identifier_def in_bounds_simps assms split: if_splits intro: step)
  then show "in_bounds tokens snd (parse_identifier_list tokens i)"
    by (auto simp: in_bounds_def idents.start_iff)
  have "parse_value_list tokens i \<noteq> Inl TokenOutOfBounds"
    by (rule vals.start_in_bounds)
      (auto simp: parse_value_def in_bounds_simps assms split: if_splits intro: step)
  then show "in_bounds tokens snd (parse_value_list tokens i)"
    by (auto simp: in_bounds_def vals.start_iff)
qed

lemmas in_bounds_rules = in_bounds_bind in_bounds_bind2 in_bounds_Inr expect_type_in_bounds
  items_in_bounds lists_in_bounds

lemma parse_insert_in_bounds:
  "closed_tokens tokens \<Longrightarrow> 0 < length tokens \<Longrightarrow> in_bounds tokens snd (parse_insert tokens 0)"
  unfolding parse_insert_def by (intro in_bounds_rules) simp_all

lemma parse_where_in_bounds:
  assumes "closed_tokens tokens" "i < length tokens"
  shows "in_bounds tokens snd (parse_where tokens i)"
proof -
  have "in_bounds tokens snd (sbind (reject_unsupported_where_connector tokens j) (\<lambda>_. Inr (w, j)))"
    if "j < length tokens" for j and w :: "(string \<times> string) option"
    using items_in_bounds(4) [OF assms(1) that] that
    by (cases "reject_unsupported_where_connector tokens j") (auto simp: in_bounds_def)
  moreover have "Suc i < length tokens" if "is_keyword ''WHERE'' (tokens ! i)"
    using closed_next [OF assms] that by (simp add: is_keyword_def)
  ultimately show ?thesis
    using assms unfolding parse_where_def parse_condition_value_def
    by (auto simp: current_token_def intro!: in_bounds_rules)
qed

lemma parse_select_in_bounds:
  "closed_tokens tokens \<Longrightarrow> 0 < length tokens \<Longrightarrow> in_bounds tokens snd (parse_select tokens 0)"
  unfolding parse_select_def
  by (intro in_bounds_rules parse_where_in_bounds) (auto intro!: in_bounds_rules)

lemma finish_statement_in_bounds:
  assumes "closed_tokens tokens" "i < length tokens"
  shows "finish_statement tokens s i \<noteq> Inl TokenOutOfBounds"
proof -
  have "expect_type tokens j TOKEN_END m \<noteq> Inl TokenOutOfBounds" if "j < length tokens" for j m
    using that by (auto simp: expect_type_def match_type_def in_bounds_simps split: if_splits)
  with expect_type_in_bounds(1) [OF assms, of TOKEN_SEMICOLON] show ?thesis
    by (auto simp: finish_statement_def in_bounds_def sbind_Inl_iff simp del: append.simps)
qed

lemma lex_sql_closed: "lex_sql input = Inr tokens \<Longrightarrow> closed_tokens tokens"
  using lex_loop_wf [of input 0 "[]" tokens] by (auto simp: lex_sql_def lexed_def closed_tokens_def)

section \<open>Printing statements\<close>

fun punct_text :: "token_type \<Rightarrow> string" where
  "punct_text TOKEN_STAR = ''*''"
| "punct_text TOKEN_EQUALS = ''=''"
| "punct_text TOKEN_COMMA = '',''"
| "punct_text TOKEN_LPAREN = ''(''"
| "punct_text TOKEN_RPAREN = '')''"
| "punct_text TOKEN_SEMICOLON = '';''"
| "punct_text _ = []"

fun print_pattern :: "pattern \<Rightarrow> token_type \<times> string" where
  "print_pattern (Keyword k) = (TOKEN_IDENTIFIER, k)"
| "print_pattern (Identifier x) = (TOKEN_IDENTIFIER, x)"
| "print_pattern (Val v) = (TOKEN_STRING, v)"
| "print_pattern (Punct ty) = (ty, punct_text ty)"

definition show_statement :: "statement \<Rightarrow> string" where
  "show_statement s = render_tokens (map print_pattern (statement_pattern s @ [Punct TOKEN_SEMICOLON]))"

text \<open>Statements whose names are identifiers of the lexer and whose values hold no terminator.\<close>

definition identifier_text :: "string \<Rightarrow> bool" where
  "identifier_text x \<longleftrightarrow> lexable (TOKEN_IDENTIFIER, x)"

definition value_text :: "string \<Rightarrow> bool" where
  "value_text x \<longleftrightarrow> NUL \<notin> set x"

fun printable :: "statement \<Rightarrow> bool" where
  "printable (Insert s) \<longleftrightarrow> identifier_text (ins_table s) \<and>
     list_all identifier_text (ins_columns s) \<and> list_all value_text (ins_values s)"
| "printable (Select s) \<longleftrightarrow> identifier_text (sel_table s) \<and>
     list_all identifier_text (sel_columns s) \<and>
     (case sel_where s of None \<Rightarrow> True | Some (c, v) \<Rightarrow> identifier_text c \<and> value_text v)"

lemma print_pattern_matches:
  "map token_key us = map print_pattern ps \<Longrightarrow> match_at (pre @ us @ post) (length pre) ps"
proof (induction ps arbitrary: pre us)
  case (Cons p ps)
  then obtain u us' where us: "us = u # us'" "token_key u = print_pattern p"
    "map token_key us' = map print_pattern ps" by (cases us) auto
  have "match_at ((pre @ [u]) @ us' @ post) (length (pre @ [u])) ps"
    using us(3) by (rule Cons.IH)
  with us(1,2) show ?case
    by (cases p) (auto simp: token_key_def is_keyword_def is_value_type_def strings_equal_ignore_case_iff)
qed simp

lemma lexable_keywords:
  "list_all (\<lambda>k. lexable (TOKEN_IDENTIFIER, k))
     [''INSERT'', ''INTO'', ''VALUES'', ''SELECT'', ''FROM'', ''WHERE'']"
  by code_simp

lemma lexable_puncts:
  "list_all (\<lambda>ty. lexable (ty, punct_text ty))
     [TOKEN_STAR, TOKEN_EQUALS, TOKEN_COMMA, TOKEN_LPAREN, TOKEN_RPAREN, TOKEN_SEMICOLON]"
  by code_simp

lemma lexable_value: "lexable (TOKEN_STRING, v) \<longleftrightarrow> value_text v"
  by (simp add: lexable_def value_text_def)

lemma lexable_comma_list:
  assumes "list_all (\<lambda>x. lexable (print_pattern (p x))) xs"
  shows "list_all (\<lambda>x. lexable (print_pattern x)) (comma_list p xs)"
proof -
  have "list_all (\<lambda>x. lexable (print_pattern x)) (comma_tail p ys)"
    if "list_all (\<lambda>x. lexable (print_pattern (p x))) ys" for ys
    using that lexable_puncts by (induction ys) auto
  then show ?thesis using assms by (cases xs) auto
qed

lemma printable_lexable:
  "printable s \<Longrightarrow> list_all lexable (map print_pattern (statement_pattern s @ [Punct TOKEN_SEMICOLON]))"
  using lexable_keywords lexable_puncts
  by (cases s) (auto simp: identifier_text_def [symmetric] lexable_value list.pred_map o_def
      split: option.splits intro!: lexable_comma_list)

lemma parse_statement_sound:
  assumes p: "parse_statement tokens = Inr s"
  shows "proper_statement s \<and> match_at tokens 0 (sentence s)"
proof -
  from p have ne: "tokens \<noteq> []" and
    kw: "is_keyword ''INSERT'' (tokens ! 0) \<or> is_keyword ''SELECT'' (tokens ! 0)"
    by (auto simp: parse_statement_def sbind_Inr_iff split: if_splits)
  from kw show "proper_statement s \<and> match_at tokens 0 (sentence s)"
  proof
    assume "is_keyword ''INSERT'' (tokens ! 0)"
    from p [unfolded parse_statement_Insert [OF this ne]] show ?thesis
      by (auto simp: sbind_Inr_iff parse_insert_iff finish_statement_iff sentence_def
          simp del: statement_pattern.simps)
  next
    assume "is_keyword ''SELECT'' (tokens ! 0)"
    from p [unfolded parse_statement_Select [OF this ne]] show ?thesis
      by (auto simp: sbind_Inr_iff parse_select_iff finish_statement_iff sentence_def
          simp del: statement_pattern.simps)
  qed
qed

lemma parse_statement_complete:
  assumes r: "proper_statement s" "match_at tokens 0 (sentence s)"
  shows "parse_statement tokens = Inr s"
proof (cases s)
  case (Insert x)
  with r have kw: "is_keyword ''INSERT'' (tokens ! 0)" "tokens \<noteq> []" by (auto simp: sentence_def)
  have "parse_insert tokens 0 = Inr (x, length (statement_pattern s))"
    using r Insert by (simp add: parse_insert_iff sentence_def)
  moreover have "finish_statement tokens s (length (statement_pattern s)) = Inr s"
    using r by (simp add: finish_statement_iff sentence_def)
  ultimately show ?thesis using kw Insert by (simp add: parse_statement_Insert)
next
  case (Select x)
  with r have kw: "is_keyword ''SELECT'' (tokens ! 0)" "tokens \<noteq> []" by (auto simp: sentence_def)
  have "parse_select tokens 0 = Inr (x, length (statement_pattern s))"
    using r Select by (simp add: parse_select_iff sentence_def semicolon_stops_where)
  moreover have "finish_statement tokens s (length (statement_pattern s)) = Inr s"
    using r by (simp add: finish_statement_iff sentence_def)
  ultimately show ?thesis using kw Select by (simp add: parse_statement_Select)
qed

lemma show_statement_parsed:
  assumes "proper_statement s" "printable s"
  shows "\<exists>tokens. lex_sql (show_statement s) = Inr tokens \<and> parse_statement tokens = Inr s"
proof -
  let ?ps = "statement_pattern s @ [Punct TOKEN_SEMICOLON]"
  obtain us where us: "lex_sql (show_statement s) = Inr us"
    "map token_key us = map print_pattern ?ps @ [(TOKEN_END, [])]"
    using lex_loop_render [OF printable_lexable [OF assms(2)], of "[]" "[]"]
    by (auto simp: lex_sql_def show_statement_def)
  then have "map token_key us = map print_pattern (?ps @ [Punct TOKEN_END])" by simp
  from print_pattern_matches [OF this, of "[]" "[]"] have "match_at us 0 (sentence s)"
    by (simp add: sentence_def)
  with us(1) show ?thesis
    using assms(1) parse_statement_complete by blast
qed

section \<open>The parser's theorems\<close>

text \<open>
  C37 (grammar): the parser accepts a token array with result \<open>s\<close> exactly when the array starts with
  a sentence of the grammar for \<open>s\<close>: \<open>INSERT INTO\<close> table, a parenthesised non-empty column list,
  \<open>VALUES\<close> and a parenthesised non-empty value list, or \<open>SELECT\<close> with a star or a non-empty column
  list, \<open>FROM\<close> table and an optional single \<open>WHERE\<close> equality, in both cases closed by a semicolon
  and the end token; keywords match in any case. In particular every array has at most one parse.
\<close>

theorem parse_statement_grammar:
  "parse_statement tokens = Inr s \<longleftrightarrow> proper_statement s \<and> match_at tokens 0 (sentence s)"
  using parse_statement_sound parse_statement_complete by blast

text \<open>
  C38 (memory safety of token reads): on every token array the lexer produces, the parser reads no
  token beyond the end of the array, whatever the input text; it always returns a statement or an
  error message.
\<close>

theorem parse_lexed_in_bounds:
  assumes "lex_sql input = Inr tokens"
  shows "parse_statement tokens \<noteq> Inl TokenOutOfBounds"
proof -
  have c: "closed_tokens tokens" using lex_sql_closed [OF assms] .
  then have ne: "0 < length tokens" by (simp add: closed_tokens_def)
  show ?thesis
    using parse_insert_in_bounds [OF c ne] parse_select_in_bounds [OF c ne] ne
      finish_statement_in_bounds [OF c]
    by (auto simp: parse_statement_def current_token_def in_bounds_def sbind_Inl_iff
        simp del: append.simps)
qed

theorem parse_lexed_in_bounds_witness:
  "lex_sql ''select'' = Inr [\<lparr>tok_type = TOKEN_IDENTIFIER, tok_text = ''select'', tok_position = 0\<rparr>,
     \<lparr>tok_type = TOKEN_END, tok_text = [], tok_position = 6\<rparr>] \<and>
   parse_statement [\<lparr>tok_type = TOKEN_IDENTIFIER, tok_text = ''select'', tok_position = 0\<rparr>,
     \<lparr>tok_type = TOKEN_END, tok_text = [], tok_position = 6\<rparr>] \<noteq> Inl TokenOutOfBounds"
proof -
  have lex: "lex_sql ''select'' = Inr [\<lparr>tok_type = TOKEN_IDENTIFIER, tok_text = ''select'', tok_position = 0\<rparr>,
     \<lparr>tok_type = TOKEN_END, tok_text = [], tok_position = 6\<rparr>]"
    by code_simp
  from parse_lexed_in_bounds [OF lex] lex show ?thesis by blast
qed

text \<open>
  C39 (round trip): printing any proper statement over lexable names and terminator-free values,
  its values as quoted literals, and running the lexer and the parser on the text gives back the
  same statement.
\<close>

theorem show_statement_parses:
  assumes "proper_statement s" "printable s"
  shows "\<exists>tokens. lex_sql (show_statement s) = Inr tokens \<and> parse_statement tokens = Inr s"
  using assms by (rule show_statement_parsed)

theorem show_statement_parses_witness:
  "proper_statement (Select \<lparr>sel_table = ''users'', sel_columns = [], sel_all = True,
      sel_where = Some (''id'', ''7'')\<rparr>) \<and>
   printable (Select \<lparr>sel_table = ''users'', sel_columns = [], sel_all = True,
      sel_where = Some (''id'', ''7'')\<rparr>) \<and>
   (\<exists>tokens. lex_sql (show_statement (Select \<lparr>sel_table = ''users'', sel_columns = [], sel_all = True,
      sel_where = Some (''id'', ''7'')\<rparr>)) = Inr tokens \<and>
     parse_statement tokens = Inr (Select \<lparr>sel_table = ''users'', sel_columns = [], sel_all = True,
      sel_where = Some (''id'', ''7'')\<rparr>))"
proof -
  let ?s = "Select \<lparr>sel_table = ''users'', sel_columns = [], sel_all = True, sel_where = Some (''id'', ''7'')\<rparr>"
  have "proper_statement ?s" "printable ?s" by code_simp+
  with show_statement_parses [OF this] show ?thesis by blast
qed

end
