(* ===== verification/Lock_Manager.thy ===== *)
theory Lock_Manager
  imports Parser
begin

text \<open>
  The lock manager of \<open>SERVER-CONCURRENCY/src/lock_manager.c\<close>: the classification of SQL text into
  lock modes, and the reader-writer lock with writer preference as a transition system. A thread
  runs the code between locking and unlocking the mutex, or between locking it and blocking in
  \<open>pthread_cond_wait\<close>, as one step; a blocked thread becomes woken by a signal, a broadcast or a
  spurious wake-up, and a woken thread re-checks its condition. The log lines are those of
  \<open>Server_Log\<close>, and the manager is initialised (\<open>ready\<close>), as after a successful \<open>concurrency_lock_manager_init\<close>.
\<close>

section \<open>Modes\<close>

datatype lock_mode = MODE_NONE | MODE_READ | MODE_WRITE

datatype lock_policy = READERS_PARALLEL | SERIAL_ALL

fun lock_mode_name :: "lock_mode \<Rightarrow> string" where
  "lock_mode_name MODE_NONE = ''none''"
| "lock_mode_name MODE_READ = ''read''"
| "lock_mode_name MODE_WRITE = ''write''"

fun lock_policy_name :: "lock_policy \<Rightarrow> string" where
  "lock_policy_name READERS_PARALLEL = ''readers_parallel''"
| "lock_policy_name SERIAL_ALL = ''serial_all''"

definition effective_lock_mode :: "lock_policy \<Rightarrow> lock_mode \<Rightarrow> lock_mode" where
  "effective_lock_mode policy mode =
     (if mode = MODE_NONE then MODE_NONE
      else if policy = SERIAL_ALL then MODE_WRITE
      else mode)"

text \<open>Blanks and comments before the first keyword. A comment that is not closed takes the rest.\<close>

fun after_block_comment :: "string \<Rightarrow> string" where
  "after_block_comment [] = []"
| "after_block_comment (c # cs) =
     (if c = CHR ''*'' \<and> cs \<noteq> [] \<and> hd cs = CHR ''/'' then tl cs else after_block_comment cs)"

lemma length_after_block_comment: "length (after_block_comment s) \<le> length s"
  by (induction s rule: after_block_comment.induct) auto

function skip_leading_sql_noise :: "string \<Rightarrow> string" where
  "skip_leading_sql_noise sql =
     (let s = dropWhile isspace sql in
      if take 2 s = ''--'' then skip_leading_sql_noise (dropWhile (\<lambda>c. c \<noteq> LF) (drop 2 s))
      else if take 2 s = ''/*'' then skip_leading_sql_noise (after_block_comment (drop 2 s))
      else if s \<noteq> sql then skip_leading_sql_noise s
      else s)"
  by pat_completeness auto
termination
proof (relation "measure length", goal_cases)
  case (2 sql s)
  have "length (dropWhile (\<lambda>c. c \<noteq> LF) (drop 2 s)) \<le> length s - 2" by (metis length_drop length_dropWhile_le)
  moreover have "2 \<le> length s" using 2(2) by (cases s; cases "tl s") auto
  moreover have "length s \<le> length sql" using 2(1) by (simp add: length_dropWhile_le)
  ultimately show ?case by simp
next
  case (3 sql s)
  have "length (after_block_comment (drop 2 s)) \<le> length s - 2"
    using length_after_block_comment [of "drop 2 s"] by simp
  moreover have "2 \<le> length s" using 3(3) by (cases s; cases "tl s") auto
  moreover have "length s \<le> length sql" using 3(1) by (simp add: length_dropWhile_le)
  ultimately show ?case by simp
next
  case (4 sql s)
  then have "sql = takeWhile isspace sql @ s" "s \<noteq> sql" by simp_all
  then have "length sql = length (takeWhile isspace sql) + length s" "takeWhile isspace sql \<noteq> []"
    by (metis length_append, metis append_Nil)
  then show ?case by (cases "takeWhile isspace sql") auto
qed simp

declare skip_leading_sql_noise.simps [simp del]

definition leading_keyword :: "string \<Rightarrow> string" where
  "leading_keyword sql = map toupper (takeWhile isalpha (take 15 sql))"

definition lock_mode_from_sql :: "string \<Rightarrow> lock_mode" where
  "lock_mode_from_sql sql =
     (let s = skip_leading_sql_noise (c_str sql) in
      if s = [] then MODE_WRITE
      else if leading_keyword s = ''SELECT'' then MODE_READ else MODE_WRITE)"

section \<open>The lock\<close>

record lock_manager =
  lm_policy :: lock_policy
  active_readers :: nat
  waiting_writers :: nat
  writer_active :: bool

definition lock_manager_init :: "lock_policy \<Rightarrow> lock_manager" where
  "lock_manager_init policy =
     \<lparr>lm_policy = policy, active_readers = 0, waiting_writers = 0, writer_active = False\<rparr>"

text \<open>The conditions of the two waiting loops, and the updates when they end.\<close>

definition reader_waits :: "lock_manager \<Rightarrow> bool" where
  "reader_waits m \<longleftrightarrow> writer_active m \<or> waiting_writers m > 0"

definition writer_waits :: "lock_manager \<Rightarrow> bool" where
  "writer_waits m \<longleftrightarrow> writer_active m \<or> active_readers m > 0"

definition announce_writer :: "lock_manager \<Rightarrow> lock_manager" where
  "announce_writer m = m\<lparr>waiting_writers := Suc (waiting_writers m)\<rparr>"

definition enter_read :: "lock_manager \<Rightarrow> lock_manager" where
  "enter_read m = m\<lparr>active_readers := Suc (active_readers m)\<rparr>"

definition enter_write :: "lock_manager \<Rightarrow> lock_manager" where
  "enter_write m = m\<lparr>waiting_writers := waiting_writers m - 1, writer_active := True\<rparr>"

datatype wakeup = Signal_Writer | Broadcast_Readers | No_Wakeup

definition release_read :: "lock_manager \<Rightarrow> lock_manager \<times> wakeup" where
  "release_read m =
     (let m' = (if active_readers m > 0 then m\<lparr>active_readers := active_readers m - 1\<rparr> else m) in
      (m', if active_readers m' = 0
           then (if waiting_writers m' > 0 then Signal_Writer else Broadcast_Readers)
           else No_Wakeup))"

definition release_write :: "lock_manager \<Rightarrow> lock_manager \<times> wakeup" where
  "release_write m =
     (m\<lparr>writer_active := False\<rparr>,
      if waiting_writers m > 0 then Signal_Writer else Broadcast_Readers)"

section \<open>Threads\<close>

datatype phase = Idle | ReadBlocked | ReadWoken | WriteBlocked | WriteWoken | Reading | Writing

record lock_state =
  ls_lock :: lock_manager
  ls_phase :: "nat \<Rightarrow> phase"

text \<open>
  The effect of a wake-up on the blocked threads: a signal wakes one blocked writer if there is one
  (\<open>w\<close> names it), a broadcast wakes all blocked readers.
\<close>

inductive woken :: "wakeup \<Rightarrow> (nat \<Rightarrow> phase) \<Rightarrow> (nat \<Rightarrow> phase) \<Rightarrow> bool" where
  no_wakeup: "woken No_Wakeup ph ph"
| signal_one: "ph w = WriteBlocked \<Longrightarrow> woken Signal_Writer ph (ph(w := WriteWoken))"
| signal_none: "\<forall>t. ph t \<noteq> WriteBlocked \<Longrightarrow> woken Signal_Writer ph ph"
| broadcast: "woken Broadcast_Readers ph (wake_all ReadBlocked ReadWoken ph)"

inductive_cases wokenE: "woken k ph ph'"

inductive lock_step :: "lock_state \<Rightarrow> lock_state \<Rightarrow> bool" where
  read_wait: "effective_lock_mode (lm_policy m) mode = MODE_READ \<Longrightarrow> ph t = Idle \<Longrightarrow> reader_waits m \<Longrightarrow>
    lock_step \<lparr>ls_lock = m, ls_phase = ph\<rparr> \<lparr>ls_lock = m, ls_phase = ph(t := ReadBlocked)\<rparr>"
| read_enter: "effective_lock_mode (lm_policy m) mode = MODE_READ \<Longrightarrow> ph t = Idle \<Longrightarrow> \<not> reader_waits m \<Longrightarrow>
    lock_step \<lparr>ls_lock = m, ls_phase = ph\<rparr> \<lparr>ls_lock = enter_read m, ls_phase = ph(t := Reading)\<rparr>"
| read_rewait: "ph t = ReadWoken \<Longrightarrow> reader_waits m \<Longrightarrow>
    lock_step \<lparr>ls_lock = m, ls_phase = ph\<rparr> \<lparr>ls_lock = m, ls_phase = ph(t := ReadBlocked)\<rparr>"
| read_resume: "ph t = ReadWoken \<Longrightarrow> \<not> reader_waits m \<Longrightarrow>
    lock_step \<lparr>ls_lock = m, ls_phase = ph\<rparr> \<lparr>ls_lock = enter_read m, ls_phase = ph(t := Reading)\<rparr>"
| write_wait: "effective_lock_mode (lm_policy m) mode = MODE_WRITE \<Longrightarrow> ph t = Idle \<Longrightarrow> writer_waits (announce_writer m) \<Longrightarrow>
    lock_step \<lparr>ls_lock = m, ls_phase = ph\<rparr> \<lparr>ls_lock = announce_writer m, ls_phase = ph(t := WriteBlocked)\<rparr>"
| write_enter: "effective_lock_mode (lm_policy m) mode = MODE_WRITE \<Longrightarrow> ph t = Idle \<Longrightarrow> \<not> writer_waits (announce_writer m) \<Longrightarrow>
    lock_step \<lparr>ls_lock = m, ls_phase = ph\<rparr> \<lparr>ls_lock = enter_write (announce_writer m), ls_phase = ph(t := Writing)\<rparr>"
| write_rewait: "ph t = WriteWoken \<Longrightarrow> writer_waits m \<Longrightarrow>
    lock_step \<lparr>ls_lock = m, ls_phase = ph\<rparr> \<lparr>ls_lock = m, ls_phase = ph(t := WriteBlocked)\<rparr>"
| write_resume: "ph t = WriteWoken \<Longrightarrow> \<not> writer_waits m \<Longrightarrow>
    lock_step \<lparr>ls_lock = m, ls_phase = ph\<rparr> \<lparr>ls_lock = enter_write m, ls_phase = ph(t := Writing)\<rparr>"
| spurious_reader: "ph t = ReadBlocked \<Longrightarrow>
    lock_step \<lparr>ls_lock = m, ls_phase = ph\<rparr> \<lparr>ls_lock = m, ls_phase = ph(t := ReadWoken)\<rparr>"
| spurious_writer: "ph t = WriteBlocked \<Longrightarrow>
    lock_step \<lparr>ls_lock = m, ls_phase = ph\<rparr> \<lparr>ls_lock = m, ls_phase = ph(t := WriteWoken)\<rparr>"
| read_release: "ph t = Reading \<Longrightarrow> release_read m = (m', k) \<Longrightarrow> woken k (ph(t := Idle)) ph' \<Longrightarrow>
    lock_step \<lparr>ls_lock = m, ls_phase = ph\<rparr> \<lparr>ls_lock = m', ls_phase = ph'\<rparr>"
| write_release: "ph t = Writing \<Longrightarrow> release_write m = (m', k) \<Longrightarrow> woken k (ph(t := Idle)) ph' \<Longrightarrow>
    lock_step \<lparr>ls_lock = m, ls_phase = ph\<rparr> \<lparr>ls_lock = m', ls_phase = ph'\<rparr>"

definition lock_init :: "lock_policy \<Rightarrow> lock_state \<Rightarrow> bool" where
  "lock_init policy s \<longleftrightarrow> s = \<lparr>ls_lock = lock_manager_init policy, ls_phase = (\<lambda>_. Idle)\<rparr>"

section \<open>The invariant\<close>

text \<open>
  The counters count the threads in the phases, a writer excludes everybody else, blocked readers
  have a reason to wait, and when the lock is free while writers are blocked, one of the writers
  has been woken.
\<close>

definition counts_ok :: "lock_manager \<Rightarrow> (phase \<Rightarrow> nat) \<Rightarrow> bool" where
  "counts_ok m c \<longleftrightarrow>
     c Reading = active_readers m \<and>
     c Writing = (if writer_active m then 1 else 0) \<and>
     waiting_writers m = c WriteBlocked + c WriteWoken \<and>
     (writer_active m \<longrightarrow> active_readers m = 0) \<and>
     (c ReadBlocked > 0 \<longrightarrow> reader_waits m) \<and>
     (c WriteBlocked > 0 \<longrightarrow> writer_waits m \<or> c WriteWoken > 0)"

definition lock_inv :: "lock_state \<Rightarrow> bool" where
  "lock_inv s \<longleftrightarrow> finite {t. ls_phase s t \<noteq> Idle} \<and> counts_ok (ls_lock s) (phase_count (ls_phase s))"

lemmas lock_updates = reader_waits_def writer_waits_def announce_writer_def enter_read_def enter_write_def
  release_read_def release_write_def

lemma counts_ok_cong:
  "(\<And>r. r \<noteq> Idle \<Longrightarrow> c r = d r) \<Longrightarrow> counts_ok m c \<longleftrightarrow> counts_ok m d"
  by (simp add: counts_ok_def)

text \<open>A step that moves one thread keeps the invariant when it does so for the counts.\<close>

lemma lock_inv_move:
  assumes "lock_inv \<lparr>ls_lock = m, ls_phase = ph\<rparr>" "ph t = p" "p \<noteq> q"
    and "\<And>c. counts_ok m c \<Longrightarrow> p \<noteq> Idle \<longrightarrow> c p > 0 \<Longrightarrow> counts_ok m' (moved p q c)"
  shows "lock_inv \<lparr>ls_lock = m', ls_phase = ph(t := q)\<rparr>"
proof -
  have fin: "finite {t. ph t \<noteq> Idle}" and ok: "counts_ok m (phase_count ph)"
    using assms(1) by (simp_all add: lock_inv_def)
  have "p \<noteq> Idle \<longrightarrow> phase_count ph p > 0" using count_pos [OF fin] assms(2) by blast
  then have "counts_ok m' (moved p q (phase_count ph))" by (rule assms(4) [OF ok])
  then have "counts_ok m' (phase_count (ph(t := q)))"
    using count_update [OF fin _ assms(2,3)] counts_ok_cong by metis
  then show ?thesis using finite_update [OF fin] by (simp add: lock_inv_def)
qed

lemmas counts_simps = counts_ok_def moved_def lock_updates

lemma counts_ok_readers:
  assumes "counts_ok m c"
  shows "reader_waits m \<Longrightarrow> counts_ok m (moved Idle ReadBlocked c)"
    and "reader_waits m \<Longrightarrow> counts_ok m (moved ReadWoken ReadBlocked c)"
    and "\<not> reader_waits m \<Longrightarrow> counts_ok (enter_read m) (moved Idle Reading c)"
    and "\<not> reader_waits m \<Longrightarrow> counts_ok (enter_read m) (moved ReadWoken Reading c)"
    and "counts_ok m (moved ReadBlocked ReadWoken c)"
  using assms by (auto simp: counts_simps)

lemma counts_ok_writers:
  assumes "counts_ok m c"
  shows "writer_waits (announce_writer m) \<Longrightarrow> counts_ok (announce_writer m) (moved Idle WriteBlocked c)"
    and "\<not> writer_waits (announce_writer m) \<Longrightarrow>
      counts_ok (enter_write (announce_writer m)) (moved Idle Writing c)"
    and "c WriteWoken > 0 \<Longrightarrow> writer_waits m \<Longrightarrow> counts_ok m (moved WriteWoken WriteBlocked c)"
    and "c WriteWoken > 0 \<Longrightarrow> \<not> writer_waits m \<Longrightarrow> counts_ok (enter_write m) (moved WriteWoken Writing c)"
    and "c WriteBlocked > 0 \<Longrightarrow> counts_ok m (moved WriteBlocked WriteWoken c)"
  using assms by (auto simp: counts_simps split: if_splits)

lemma lock_inv_acquire:
  assumes inv: "lock_inv \<lparr>ls_lock = m, ls_phase = ph\<rparr>"
  shows "ph t = Idle \<Longrightarrow> reader_waits m \<Longrightarrow> lock_inv \<lparr>ls_lock = m, ls_phase = ph(t := ReadBlocked)\<rparr>"
    and "ph t = ReadWoken \<Longrightarrow> reader_waits m \<Longrightarrow> lock_inv \<lparr>ls_lock = m, ls_phase = ph(t := ReadBlocked)\<rparr>"
    and "ph t = Idle \<Longrightarrow> \<not> reader_waits m \<Longrightarrow> lock_inv \<lparr>ls_lock = enter_read m, ls_phase = ph(t := Reading)\<rparr>"
    and "ph t = ReadWoken \<Longrightarrow> \<not> reader_waits m \<Longrightarrow>
      lock_inv \<lparr>ls_lock = enter_read m, ls_phase = ph(t := Reading)\<rparr>"
    and "ph t = ReadBlocked \<Longrightarrow> lock_inv \<lparr>ls_lock = m, ls_phase = ph(t := ReadWoken)\<rparr>"
    and "ph t = Idle \<Longrightarrow> writer_waits (announce_writer m) \<Longrightarrow>
      lock_inv \<lparr>ls_lock = announce_writer m, ls_phase = ph(t := WriteBlocked)\<rparr>"
    and "ph t = Idle \<Longrightarrow> \<not> writer_waits (announce_writer m) \<Longrightarrow>
      lock_inv \<lparr>ls_lock = enter_write (announce_writer m), ls_phase = ph(t := Writing)\<rparr>"
    and "ph t = WriteWoken \<Longrightarrow> writer_waits m \<Longrightarrow> lock_inv \<lparr>ls_lock = m, ls_phase = ph(t := WriteBlocked)\<rparr>"
    and "ph t = WriteWoken \<Longrightarrow> \<not> writer_waits m \<Longrightarrow>
      lock_inv \<lparr>ls_lock = enter_write m, ls_phase = ph(t := Writing)\<rparr>"
    and "ph t = WriteBlocked \<Longrightarrow> lock_inv \<lparr>ls_lock = m, ls_phase = ph(t := WriteWoken)\<rparr>"
  by - (rule lock_inv_move [OF inv], assumption, simp, simp add: counts_ok_readers counts_ok_writers)+

text \<open>
  A release in two stages: the counters and the phase of the releasing thread, after which only
  the clauses about blocked threads may fail, and the wake-up, which restores them.
\<close>

definition almost_ok :: "wakeup \<Rightarrow> lock_manager \<Rightarrow> (phase \<Rightarrow> nat) \<Rightarrow> bool" where
  "almost_ok k m c \<longleftrightarrow>
     c Reading = active_readers m \<and>
     c Writing = (if writer_active m then 1 else 0) \<and>
     waiting_writers m = c WriteBlocked + c WriteWoken \<and>
     (writer_active m \<longrightarrow> active_readers m = 0) \<and>
     (case k of
        No_Wakeup \<Rightarrow> counts_ok m c
      | Signal_Writer \<Rightarrow> waiting_writers m > 0
      | Broadcast_Readers \<Rightarrow> waiting_writers m = 0)"

lemma almost_ok_release:
  assumes "counts_ok m c"
  shows "c Reading > 0 \<Longrightarrow> release_read m = (m', k) \<Longrightarrow> almost_ok k m' (moved Reading Idle c)"
    and "c Writing > 0 \<Longrightarrow> release_write m = (m', k) \<Longrightarrow> almost_ok k m' (moved Writing Idle c)"
  using assms by (auto simp: almost_ok_def counts_simps Let_def split: if_splits)

lemma lock_inv_woken:
  assumes "woken k ph ph'" "finite {t. ph t \<noteq> Idle}" "almost_ok k m (phase_count ph)"
  shows "lock_inv \<lparr>ls_lock = m, ls_phase = ph'\<rparr>"
  using assms(1)
proof cases
  case no_wakeup
  then show ?thesis using assms by (simp add: lock_inv_def almost_ok_def)
next
  case (signal_one w)
  have "counts_ok m (moved WriteBlocked WriteWoken (phase_count ph))"
    using assms(3) count_pos [OF assms(2), of WriteBlocked] signal_one
    by (auto simp: almost_ok_def counts_simps)
  then have "counts_ok m (phase_count ph')"
    using count_update [OF assms(2) _ signal_one(3)] signal_one(2) counts_ok_cong [of "phase_count ph'"] by simp
  then show ?thesis using finite_update [OF assms(2)] signal_one by (simp add: lock_inv_def)
next
  case signal_none
  then have "phase_count ph WriteBlocked = 0" by (simp add: phase_count_def in_phase_def)
  then show ?thesis using assms signal_none
    by (auto simp: lock_inv_def almost_ok_def counts_ok_def reader_waits_def)
next
  case broadcast
  have "counts_ok m (phase_count ph')"
    using assms(3) count_wake_all [OF assms(2)] broadcast by (auto simp: almost_ok_def counts_simps)
  then show ?thesis using finite_wake_all [OF assms(2), of ReadBlocked ReadWoken] broadcast by (simp add: lock_inv_def)
qed

lemma lock_inv_release:
  assumes inv: "lock_inv \<lparr>ls_lock = m, ls_phase = ph\<rparr>" and k: "woken k (ph(t := Idle)) ph'"
    and t: "ph t = Reading \<and> release_read m = (m', k) \<or> ph t = Writing \<and> release_write m = (m', k)"
  shows "lock_inv \<lparr>ls_lock = m', ls_phase = ph'\<rparr>"
proof -
  have fin: "finite {t. ph t \<noteq> Idle}" and ok: "counts_ok m (phase_count ph)"
    using inv by (simp_all add: lock_inv_def)
  have "ph t \<noteq> Idle" "phase_count ph (ph t) > 0" using t count_pos [OF fin] by auto
  with t have "almost_ok k m' (moved (ph t) Idle (phase_count ph))"
    using almost_ok_release [OF ok] by metis
  moreover have "\<And>r. r \<noteq> Idle \<Longrightarrow> phase_count (ph(t := Idle)) r = moved (ph t) Idle (phase_count ph) r"
    using count_update [OF fin _ refl \<open>ph t \<noteq> Idle\<close>] .
  ultimately have "almost_ok k m' (phase_count (ph(t := Idle)))"
    using counts_ok_cong [of "phase_count (ph(t := Idle))" "moved (ph t) Idle (phase_count ph)"]
    by (cases k) (auto simp: almost_ok_def)
  then show ?thesis by (rule lock_inv_woken [OF k finite_update [OF fin]])
qed

lemma lock_step_inv: "lock_step s s' \<Longrightarrow> lock_inv s \<Longrightarrow> lock_inv s'"
  by (induction rule: lock_step.induct) (blast intro: lock_inv_acquire lock_inv_release)+

lemma lock_init_inv: "lock_init policy s \<Longrightarrow> lock_inv s"
  by (simp add: lock_init_def lock_inv_def counts_ok_def lock_manager_init_def phase_count_def in_phase_def)

interpretation rwlock: invariant_system "lock_init policy" lock_step lock_inv
  by unfold_locales (blast intro: lock_init_inv lock_step_inv)+

text \<open>The policy never changes, and under \<open>SERIAL_ALL\<close> no thread is on the reader's path.\<close>

definition policy_inv :: "lock_policy \<Rightarrow> lock_state \<Rightarrow> bool" where
  "policy_inv policy s \<longleftrightarrow> lm_policy (ls_lock s) = policy \<and>
     (policy = SERIAL_ALL \<longrightarrow> (\<forall>t. ls_phase s t \<notin> {Reading, ReadBlocked, ReadWoken}))"

lemma woken_phases: "woken k ph ph' \<Longrightarrow> \<forall>t. ph t \<notin> {Reading, ReadBlocked, ReadWoken} \<Longrightarrow>
   \<forall>t. ph' t \<notin> {Reading, ReadBlocked, ReadWoken}"
  by (induction rule: woken.induct) (auto simp: wake_all_def)

lemma release_policy:
  "release_read m = (m', k) \<Longrightarrow> lm_policy m' = lm_policy m"
  "release_write m = (m', k) \<Longrightarrow> lm_policy m' = lm_policy m"
  by (auto simp: release_read_def release_write_def Let_def split: if_splits)

lemma policy_inv_step: "lock_step s s' \<Longrightarrow> policy_inv policy s \<Longrightarrow> policy_inv policy s'"
proof (induction rule: lock_step.induct)
  case (read_release ph t m m' k ph')
  then show ?case using woken_phases [OF read_release(3)] release_policy by (fastforce simp: policy_inv_def)
next
  case (write_release ph t m m' k ph')
  then show ?case using woken_phases [OF write_release(3)] release_policy by (auto simp: policy_inv_def)
qed (auto simp: policy_inv_def effective_lock_mode_def enter_read_def enter_write_def announce_writer_def
    split: if_splits)

interpretation rwpolicy: invariant_system "lock_init policy" lock_step "policy_inv policy"
proof
  show "lock_init policy s \<Longrightarrow> policy_inv policy s" for s
    by (simp add: lock_init_def policy_inv_def lock_manager_init_def)
qed (rule policy_inv_step)

section \<open>Mutual exclusion, progress and writer preference\<close>

definition holds :: "lock_state \<Rightarrow> nat \<Rightarrow> bool" where
  "holds s t \<longleftrightarrow> ls_phase s t \<in> {Reading, Writing}"

definition waits :: "lock_state \<Rightarrow> nat \<Rightarrow> bool" where
  "waits s t \<longleftrightarrow> ls_phase s t \<in> {ReadBlocked, ReadWoken, WriteBlocked, WriteWoken}"

lemma lock_inv_finite: "lock_inv s \<Longrightarrow> finite {t. ls_phase s t \<noteq> Idle}"
  by (simp add: lock_inv_def)

lemma lock_inv_counts: "lock_inv s \<Longrightarrow> counts_ok (ls_lock s) (phase_count (ls_phase s))"
  by (simp add: lock_inv_def)

lemma lock_inv_pos: "lock_inv s \<Longrightarrow> ls_phase s t = p \<Longrightarrow> p \<noteq> Idle \<Longrightarrow> phase_count (ls_phase s) p > 0"
  using count_pos [OF lock_inv_finite, of s p] by blast

lemma lock_inv_thread: "lock_inv s \<Longrightarrow> phase_count (ls_phase s) p > 0 \<Longrightarrow> p \<noteq> Idle \<Longrightarrow> \<exists>t. ls_phase s t = p"
  using count_pos [OF lock_inv_finite, of s p] by blast

lemma single_writer:
  assumes "lock_inv s" "ls_phase s t = Writing" "ls_phase s u = Writing"
  shows "t = u"
proof -
  have "card (in_phase (ls_phase s) Writing) = 1"
    using lock_inv_counts [OF assms(1)] lock_inv_pos [OF assms(1,2)]
    by (auto simp: counts_ok_def phase_count_def split: if_splits)
  then obtain x where "in_phase (ls_phase s) Writing = {x}" by (auto simp: card_1_singleton_iff)
  moreover have "t \<in> in_phase (ls_phase s) Writing" "u \<in> in_phase (ls_phase s) Writing"
    using assms(2,3) by (simp_all add: in_phase_def)
  ultimately show ?thesis by simp
qed

lemma writer_excludes:
  assumes "lock_inv s" "ls_phase s t = Writing"
  shows "ls_phase s u \<noteq> Reading"
proof
  assume "ls_phase s u = Reading"
  then have "phase_count (ls_phase s) Reading > 0" using lock_inv_pos [OF assms(1)] by blast
  with lock_inv_counts [OF assms(1)] lock_inv_pos [OF assms]
  show False by (simp add: counts_ok_def split: if_splits)
qed

text \<open>
  A sample run: thread 1 acquires for writing, thread 2 has to wait for writing, thread 1 releases
  and wakes thread 2; and a run in which thread 1 reads while thread 2 waits for writing.
\<close>

definition sample_lock :: "lock_policy \<Rightarrow> nat \<Rightarrow> nat \<Rightarrow> bool \<Rightarrow> phase \<Rightarrow> phase \<Rightarrow> lock_state" where
  "sample_lock policy readers writers active p1 p2 =
     \<lparr>ls_lock = \<lparr>lm_policy = policy, active_readers = readers, waiting_writers = writers, writer_active = active\<rparr>,
      ls_phase = (\<lambda>_. Idle)(1 := p1, 2 := p2)\<rparr>"

lemma sample_writing: "reachable (lock_init policy) lock_step (sample_lock policy 0 0 True Writing Idle)"
proof -
  have "reachable (lock_init policy) lock_step \<lparr>ls_lock = lock_manager_init policy, ls_phase = (\<lambda>_. Idle)\<rparr>"
    by (rule reach_init) (simp add: lock_init_def)
  then have "reachable (lock_init policy) lock_step
      \<lparr>ls_lock = enter_write (announce_writer (lock_manager_init policy)), ls_phase = (\<lambda>_. Idle)(1 := Writing)\<rparr>"
    by (rule reach_step, intro write_enter [where mode = MODE_WRITE])
      (simp_all add: effective_lock_mode_def lock_updates lock_manager_init_def)
  then show ?thesis by (simp add: sample_lock_def lock_updates lock_manager_init_def fun_upd_idem)
qed

lemma sample_woken: "reachable (lock_init policy) lock_step (sample_lock policy 0 1 False Idle WriteWoken)"
proof -
  have "lock_step (sample_lock policy 0 0 True Writing Idle) (sample_lock policy 0 1 True Writing WriteBlocked)"
    using write_wait [where t = 2 and mode = MODE_WRITE and ph = "(\<lambda>_. Idle)(1 := Writing, 2 := Idle)" and
        m = "ls_lock (sample_lock policy 0 0 True Writing Idle)"]
    by (simp add: sample_lock_def effective_lock_mode_def lock_updates)
  moreover have "lock_step (sample_lock policy 0 1 True Writing WriteBlocked) (sample_lock policy 0 1 False Idle WriteWoken)"
    using write_release [where t = 1 and ph = "(\<lambda>_. Idle)(1 := Writing, 2 := WriteBlocked)" and
        ph' = "(\<lambda>_. Idle)(1 := Idle, 2 := WriteWoken)" and
        m = "ls_lock (sample_lock policy 0 1 True Writing WriteBlocked)"]
      signal_one [of "(\<lambda>_. Idle)(1 := Idle, 2 := WriteBlocked)" 2]
    by (simp add: sample_lock_def lock_updates fun_upd_twist)
  ultimately show ?thesis using reach_step sample_writing by metis
qed

lemma sample_reading:
  "reachable (lock_init READERS_PARALLEL) lock_step (sample_lock READERS_PARALLEL 1 1 False Reading WriteBlocked)"
proof -
  let ?p = READERS_PARALLEL
  have "reachable (lock_init ?p) lock_step (sample_lock ?p 0 0 False Idle Idle)"
    by (rule reach_init) (simp add: lock_init_def sample_lock_def lock_manager_init_def fun_upd_idem)
  moreover have "lock_step (sample_lock ?p 0 0 False Idle Idle) (sample_lock ?p 1 0 False Reading Idle)"
    using read_enter [where t = 1 and mode = MODE_READ and ph = "(\<lambda>_. Idle)(1 := Idle, 2 := Idle)" and
        m = "ls_lock (sample_lock ?p 0 0 False Idle Idle)"]
    by (simp add: sample_lock_def effective_lock_mode_def lock_updates fun_upd_idem)
  moreover have "lock_step (sample_lock ?p 1 0 False Reading Idle) (sample_lock ?p 1 1 False Reading WriteBlocked)"
    using write_wait [where t = 2 and mode = MODE_WRITE and ph = "(\<lambda>_. Idle)(1 := Reading, 2 := Idle)" and
        m = "ls_lock (sample_lock ?p 1 0 False Reading Idle)"]
    by (simp add: sample_lock_def effective_lock_mode_def lock_updates)
  ultimately show ?thesis using reach_step by metis
qed

text \<open>
  C27 (mutual exclusion): in every reachable state of the lock a thread that holds it for writing is
  the only holder, and under the policy \<open>SERIAL_ALL\<close> there is never more than one holder at all.
\<close>

theorem lock_mutual_exclusion:
  assumes "reachable (lock_init policy) lock_step s" "holds s t" "holds s u"
    and "ls_phase s t = Writing \<or> policy = SERIAL_ALL"
  shows "u = t"
proof -
  have inv: "lock_inv s" and pol: "policy_inv policy s"
    using rwlock.reachable_inv rwpolicy.reachable_inv assms(1) by blast+
  have t: "ls_phase s t = Writing" using assms(2,4) pol by (auto simp: policy_inv_def holds_def)
  then have "ls_phase s u = Writing" using assms(3) writer_excludes [OF inv t] by (auto simp: holds_def)
  with single_writer [OF inv] t show ?thesis by blast
qed

theorem lock_mutual_exclusion_witness:
  "{u. holds (sample_lock READERS_PARALLEL 0 0 True Writing Idle) u} = {1} \<and>
   {u. holds (sample_lock SERIAL_ALL 0 0 True Writing Idle) u} = {1}"
proof -
  have h: "holds (sample_lock p 0 0 True Writing Idle) 1"
    "ls_phase (sample_lock p 0 0 True Writing Idle) 1 = Writing" for p
    by (simp_all add: sample_lock_def holds_def)
  then show ?thesis using lock_mutual_exclusion [OF sample_writing h(1)] by blast
qed

text \<open>
  C30 (no lost wake-up): in every reachable state in which nobody holds the lock and some thread is
  waiting for it, some waiting thread has been woken and its next step acquires the lock. So a
  release never leaves the waiting threads asleep beside a free lock.
\<close>

theorem lock_progress:
  assumes "reachable (lock_init policy) lock_step s" "waits s w" "\<nexists>t. holds s t"
  shows "\<exists>t s'. waits s t \<and> ls_phase s t \<in> {ReadWoken, WriteWoken} \<and> lock_step s s' \<and> holds s' t"
proof -
  obtain m ph where s: "s = \<lparr>ls_lock = m, ls_phase = ph\<rparr>" by (cases s) auto
  have inv: "lock_inv s" using rwlock.reachable_inv assms(1) by blast
  have free: "active_readers m = 0" "\<not> writer_active m"
    using lock_inv_counts [OF inv] lock_inv_thread [OF inv, of Reading] lock_inv_thread [OF inv, of Writing]
      assms(3) s by (auto simp: counts_ok_def holds_def split: if_splits)
  show ?thesis
  proof (cases "waiting_writers m > 0")
    case True
    then have "phase_count ph WriteWoken > 0"
      using lock_inv_counts [OF inv] free s by (auto simp: counts_ok_def writer_waits_def)
    then obtain t where t: "ph t = WriteWoken" using lock_inv_thread [OF inv, of WriteWoken] s by auto
    with free write_resume [of ph t m] s show ?thesis
      by (intro exI [of _ t] exI conjI) (auto simp: waits_def holds_def writer_waits_def)
  next
    case False
    have "ph w = ReadWoken"
      using assms(2) lock_inv_counts [OF inv] lock_inv_pos [OF inv, of w] False free s
      by (auto simp: waits_def counts_ok_def reader_waits_def)
    with False free read_resume [of ph w m] s show ?thesis
      by (intro exI [of _ w] exI conjI) (auto simp: waits_def holds_def reader_waits_def)
  qed
qed

theorem lock_progress_witness:
  "\<exists>t s'. waits (sample_lock READERS_PARALLEL 0 1 False Idle WriteWoken) t \<and>
     ls_phase (sample_lock READERS_PARALLEL 0 1 False Idle WriteWoken) t \<in> {ReadWoken, WriteWoken} \<and>
     lock_step (sample_lock READERS_PARALLEL 0 1 False Idle WriteWoken) s' \<and> holds s' t"
  by (rule lock_progress [where w = 2, OF sample_woken]) (simp_all add: sample_lock_def waits_def holds_def)

text \<open>
  Writer preference: while a writer is waiting, no step of the lock lets a thread start
  reading; the readers that hold the lock are those that held it before the step.
\<close>

theorem lock_writer_preference:
  assumes "reachable (lock_init policy) lock_step s" "lock_step s s'"
    and "ls_phase s w \<in> {WriteBlocked, WriteWoken}" "ls_phase s' t = Reading"
  shows "ls_phase s t = Reading"
proof -
  have inv: "lock_inv s" using rwlock.reachable_inv assms(1) by blast
  have "waiting_writers (ls_lock s) > 0"
    using lock_inv_counts [OF inv] lock_inv_pos [OF inv, of w] assms(3) by (auto simp: counts_ok_def)
  then have "reader_waits (ls_lock s)" by (simp add: reader_waits_def)
  with assms(2,4) show ?thesis
    by (induction rule: lock_step.induct) (auto elim!: wokenE simp: wake_all_def split: if_splits)
qed

theorem lock_writer_preference_witness:
  "lock_step (sample_lock READERS_PARALLEL 1 1 False Reading WriteBlocked)
     (sample_lock READERS_PARALLEL 1 1 False Reading WriteWoken) \<and>
   ls_phase (sample_lock READERS_PARALLEL 1 1 False Reading WriteBlocked) 1 = Reading"
proof -
  have step: "lock_step (sample_lock READERS_PARALLEL 1 1 False Reading WriteBlocked)
     (sample_lock READERS_PARALLEL 1 1 False Reading WriteWoken)"
    using spurious_writer [of "(\<lambda>_. Idle)(1 := Reading, 2 := WriteBlocked)" 2]
    by (simp add: sample_lock_def)
  with lock_writer_preference [OF sample_reading step, of 2 1] show ?thesis
    by (simp add: sample_lock_def)
qed

section \<open>Lock modes of SQL text\<close>

lemma first_token_kept: "lex_loop input i (t # tokens) = Inr ts \<Longrightarrow> hd ts = t"
  by (drule lex_loop_wf) (auto simp: lexed_def)

lemma drop_char_at: "i < length s \<Longrightarrow> drop i s = char_at s i # drop (Suc i) s"
  by (simp add: char_at_def Cons_nth_drop_Suc)

lemma word_end_stops: "\<not> is_identifier_continue (char_at input (word_end input i))"
proof (induction input i rule: word_end.induct)
  case (1 input i)
  then show ?case by (cases "is_identifier_continue (char_at input i)") (simp_all add: word_end.simps [of input i])
qed

text \<open>
  If the first token is an identifier, the input starts with blanks, then the text of the token,
  then a character that cannot continue an identifier, or nothing.
\<close>

lemma lex_first_identifier:
  assumes "lex_loop input i [] = Inr ts" "tok_type (hd ts) = TOKEN_IDENTIFIER" "i \<le> length input"
  shows "\<exists>rest. dropWhile isspace (drop i input) = tok_text (hd ts) @ rest \<and>
     \<not> is_identifier_continue (char_at rest 0)"
  using assms
proof (induction "length input - i" arbitrary: i)
  case 0
  then have "ts = [\<lparr>tok_type = TOKEN_END, tok_text = [], tok_position = i\<rparr>]"
    by (auto simp: lex_loop.simps [of input i] char_at_def push_token_def)
  with 0 show ?case by simp
next
  case (Suc n)
  let ?c = "char_at input i"
  have i: "i < length input" using Suc by simp
  have cons: "drop i input = ?c # drop (Suc i) input" using drop_char_at [OF i] .
  consider (fin) "?c = NUL" | (space) "?c \<noteq> NUL" "isspace ?c"
    | (word) "?c \<noteq> NUL" "\<not> isspace ?c" "is_identifier_start ?c"
    | (other) "?c \<noteq> NUL" "\<not> isspace ?c" "\<not> is_identifier_start ?c"
    by blast
  then show ?case
  proof cases
    case fin
    with Suc show ?thesis by (auto simp: lex_loop.simps [of input i] push_token_def)
  next
    case space
    with Suc i have "lex_loop input (Suc i) [] = Inr ts" by (simp add: lex_loop.simps [of input i])
    with Suc space i show ?thesis by (simp add: cons)
  next
    case word
    let ?j = "word_end input i"
    have j: "i < ?j" "?j \<le> length input" using word_end_progress [OF word(3)] word_end_le [of i input] i by auto
    have w: "tok_text (hd ts) = take (?j - i) (drop i input)"
      using Suc(3) word by (auto simp: lex_loop.simps [of input i] lex_word_def push_token_def Let_def
          dest!: first_token_kept split: if_splits)
    have "drop i input = tok_text (hd ts) @ drop ?j input"
      using j w by (metis add.commute append_take_drop_id drop_drop le_add_diff_inverse2 less_imp_le)
    moreover have "\<not> is_identifier_continue (char_at (drop ?j input) 0)"
      using word_end_stops [of input i] j by (simp add: char_at_def split: if_splits)
    moreover have "dropWhile isspace (drop i input) = drop i input" using word by (simp add: cons)
    ultimately show ?thesis by metis
  next
    case other
    have "tok_type (hd ts) \<noteq> TOKEN_IDENTIFIER"
      using Suc(3) other by (auto simp: lex_loop.simps [of input i] lex_defs Let_def simple_token_type_def
          dest!: first_token_kept split: if_splits sum.splits prod.splits)
    with Suc show ?thesis by simp
  qed
qed

text \<open>A keyword in any case of letters is its upper-case spelling after \<open>toupper\<close>.\<close>

lemma tolower_upper: "isupper k \<Longrightarrow> tolower c = tolower k \<Longrightarrow> isalpha c \<and> toupper c = k"
  by (auto simp: byte_eq_iff [symmetric] byte_tolower byte_toupper isalpha_def isupper_def islower_def
      split: if_splits)

lemma keyword_toupper:
  "list_all isupper kw \<Longrightarrow> map tolower w = map tolower kw \<Longrightarrow> list_all isalpha w \<and> map toupper w = kw"
proof (induction kw arbitrary: w)
  case (Cons k kw)
  then show ?case using tolower_upper by (cases w) auto
qed simp

lemma leading_keyword_word:
  assumes "list_all isalpha w" "length w < 15" "\<not> is_identifier_continue (char_at rest 0)"
  shows "leading_keyword (w @ rest) = map toupper w"
proof -
  have "takeWhile isalpha (take n rest) = []" for n
    using assms(3) by (cases rest; cases n) (auto simp: char_at_def is_identifier_continue_def isalnum_def)
  then show ?thesis using assms(1,2) by (simp add: leading_keyword_def list_all_iff takeWhile_append)
qed

lemma alpha_not_noise: "isalpha c \<Longrightarrow> c \<noteq> CHR ''-'' \<and> c \<noteq> CHR ''/'' \<and> \<not> isspace c"
  by (auto simp: ctype_defs)

lemma skip_noise_alpha:
  assumes "dropWhile isspace sql = c # r" "isalpha c"
  shows "skip_leading_sql_noise sql = c # r"
proof -
  have stop: "skip_leading_sql_noise (c # r) = c # r"
    using alpha_not_noise [OF assms(2)] by (subst skip_leading_sql_noise.simps) (simp add: Let_def)
  show ?thesis
    using assms alpha_not_noise [OF assms(2)] stop
    by (subst skip_leading_sql_noise.simps) (auto simp: Let_def simp del: dropWhile.simps)
qed

lemma lock_mode_keyword:
  assumes "lex_sql sql = Inr tokens" "NUL \<notin> set sql" "is_keyword kw (tokens ! 0)" "tokens \<noteq> []"
    and "list_all isupper kw" "kw \<noteq> []" "length kw < 15"
  shows "lock_mode_from_sql sql = (if kw = ''SELECT'' then MODE_READ else MODE_WRITE)"
proof -
  let ?w = "tok_text (tokens ! 0)"
  have w: "map tolower ?w = map tolower kw" "tok_type (tokens ! 0) = TOKEN_IDENTIFIER"
    using assms(3) by (simp_all add: is_keyword_def strings_equal_ignore_case_iff)
  have up: "list_all isalpha ?w" "map toupper ?w = kw" using keyword_toupper [OF assms(5) w(1)] by simp_all
  obtain rest where rest: "dropWhile isspace sql = ?w @ rest" "\<not> is_identifier_continue (char_at rest 0)"
    using lex_first_identifier [of sql 0 tokens] assms(1,4) w(2) by (auto simp: lex_sql_def hd_conv_nth)
  obtain c r where c: "?w = c # r" using up(2) assms(6) by (cases ?w) auto
  have "skip_leading_sql_noise sql = ?w @ rest"
    using skip_noise_alpha [of sql c "r @ rest"] rest(1) up(1) c by simp
  moreover have "leading_keyword (?w @ rest) = kw"
    using leading_keyword_word [OF up(1) _ rest(2)] up(2) assms(7) by (metis length_map)
  ultimately show ?thesis using c assms(2) by (simp add: lock_mode_from_sql_def Let_def c_str_id)
qed

text \<open>
  C32 (lock modes match statements): whenever the lexer and the parser accept a C string as a
  statement, the mode the lock manager chooses from the text alone is the read mode exactly for
  SELECT; every INSERT takes the write mode.
\<close>

theorem lock_mode_matches_statement:
  assumes "lex_sql sql = Inr tokens" "parse_statement tokens = Inr s" "NUL \<notin> set sql"
  shows "lock_mode_from_sql sql = (case s of Insert _ \<Rightarrow> MODE_WRITE | Select _ \<Rightarrow> MODE_READ)"
proof -
  from assms(2) have ne: "tokens \<noteq> []"
    by (auto simp: parse_statement_def current_token_def sbind_Inr_iff split: if_splits)
  have up: "list_all isupper ''INSERT''" "list_all isupper ''SELECT''" by code_simp+
  from parse_statement_sound [OF assms(2)] have m: "match_at tokens 0 (sentence s)" by simp
  show ?thesis
  proof (cases s)
    case (Insert x)
    with m have "is_keyword ''INSERT'' (tokens ! 0)" by (auto simp: sentence_def)
    from lock_mode_keyword [OF assms(1,3) this ne up(1)] show ?thesis using Insert by simp
  next
    case (Select x)
    with m have "is_keyword ''SELECT'' (tokens ! 0)" by (auto simp: sentence_def)
    from lock_mode_keyword [OF assms(1,3) this ne up(2)] show ?thesis using Select by simp
  qed
qed

theorem lock_mode_matches_statement_witness:
  "lock_mode_from_sql '' Select * from t;'' = MODE_READ"
proof -
  let ?sql = "'' Select * from t;''"
  let ?s = "Select \<lparr>sel_table = ''t'', sel_columns = [], sel_all = True, sel_where = None\<rparr>"
  have "case lex_sql ?sql of Inl _ \<Rightarrow> False | Inr ts \<Rightarrow> parse_statement ts = Inr ?s" by code_simp
  then obtain tokens where lex: "lex_sql ?sql = Inr tokens" and parse: "parse_statement tokens = Inr ?s"
    by (auto split: sum.splits)
  show ?thesis using lock_mode_matches_statement [OF lex parse] by simp
qed

end
