(* ===== verification/Job_Queue.thy ===== *)
theory Job_Queue
  imports Lock_Manager "HOL-Library.Multiset"
begin

text \<open>
  The bounded blocking queue of \<open>SERVER-CONCURRENCY/src/job_queue.c\<close>. Its ring buffer is a record
  with the fields of the C structure; the functions are the code under the mutex, with \<open>Wait\<close> for
  a pass that blocks on a condition variable. The second half is the queue shared by any number of
  producers and consumers, with blocked and woken threads, as a transition system. Failing
  initialisation of mutexes and condition variables, and NULL queues, are not modelled. The
  callbacks of a job are represented by whether they are set; calls appear as events.
\<close>

section \<open>Jobs\<close>

datatype job_result = JOB_RESULT_OK | JOB_RESULT_FAILED | JOB_RESULT_CANCELLED | JOB_RESULT_REJECTED

record job =
  job_mode :: lock_mode
  job_assigned :: bool
  job_run :: bool
  job_notify :: bool
  job_cleanup :: bool
  job_context :: nat

definition zero_job :: job where
  "zero_job = \<lparr>job_mode = MODE_NONE, job_assigned = False, job_run = False, job_notify = False,
     job_cleanup = False, job_context = 0\<rparr>"

datatype queue_status = QUEUE_OK | QUEUE_FULL | QUEUE_EMPTY | QUEUE_CLOSED | QUEUE_INVALID

datatype job_event = Notify nat job_result int int | Cleanup nat

definition job_finish :: "job option \<Rightarrow> job_result \<Rightarrow> int \<Rightarrow> int \<Rightarrow> job_event list" where
  "job_finish job result worker_index run_status =
     (case job of
        None \<Rightarrow> []
      | Some j \<Rightarrow>
          (if job_notify j then [Notify (job_context j) result worker_index run_status] else []) @
          (if job_cleanup j then [Cleanup (job_context j)] else []))"

fun job_result_name :: "job_result \<Rightarrow> string" where
  "job_result_name JOB_RESULT_OK = ''ok''"
| "job_result_name JOB_RESULT_FAILED = ''failed''"
| "job_result_name JOB_RESULT_CANCELLED = ''cancelled''"
| "job_result_name JOB_RESULT_REJECTED = ''rejected''"

definition job_is_valid :: "job option \<Rightarrow> bool" where
  "job_is_valid job \<longleftrightarrow> (case job of None \<Rightarrow> False | Some j \<Rightarrow> job_run j)"

section \<open>The ring buffer\<close>

record job_queue =
  q_items :: "job list"
  q_capacity :: nat
  q_size :: nat
  q_head :: nat
  q_tail :: nat
  q_closed :: bool
  q_ready :: bool

definition job_queue_zero :: job_queue where
  "job_queue_zero = \<lparr>q_items = [], q_capacity = 0, q_size = 0, q_head = 0, q_tail = 0,
     q_closed = False, q_ready = False\<rparr>"

definition job_queue_init :: "nat \<Rightarrow> job_queue option" where
  "job_queue_init capacity =
     (if capacity = 0 then None
      else Some (job_queue_zero\<lparr>q_items := replicate capacity zero_job, q_capacity := capacity,
             q_ready := True\<rparr>))"

definition pop_front_locked :: "job_queue \<Rightarrow> job \<times> job_queue" where
  "pop_front_locked q =
     (q_items q ! q_head q,
      q\<lparr>q_head := (q_head q + 1) mod q_capacity q, q_size := q_size q - 1\<rparr>)"

definition store_job :: "job_queue \<Rightarrow> job \<Rightarrow> job_queue" where
  "store_job q job =
     q\<lparr>q_items := (q_items q)[q_tail q := job], q_tail := (q_tail q + 1) mod q_capacity q,
       q_size := q_size q + 1\<rparr>"

datatype 'r attempt = Wait | Done 'r

definition job_queue_close :: "job_queue \<Rightarrow> job_queue" where
  "job_queue_close q = (if \<not> q_ready q then q else q\<lparr>q_closed := True\<rparr>)"

definition job_queue_push :: "job_queue \<Rightarrow> job option \<Rightarrow> (queue_status \<times> job_queue) attempt" where
  "job_queue_push q job =
     (if \<not> q_ready q \<or> \<not> job_is_valid job then Done (QUEUE_INVALID, q)
      else if q_size q = q_capacity q \<and> \<not> q_closed q then Wait
      else if q_closed q then Done (QUEUE_CLOSED, q)
      else Done (QUEUE_OK, store_job q (the job)))"

definition job_queue_try_push :: "job_queue \<Rightarrow> job option \<Rightarrow> queue_status \<times> job_queue" where
  "job_queue_try_push q job =
     (if \<not> q_ready q \<or> \<not> job_is_valid job then (QUEUE_INVALID, q)
      else if q_closed q then (QUEUE_CLOSED, q)
      else if q_size q = q_capacity q then (QUEUE_FULL, q)
      else (QUEUE_OK, store_job q (the job)))"

definition job_queue_pop :: "job_queue \<Rightarrow> (queue_status \<times> job option \<times> job_queue) attempt" where
  "job_queue_pop q =
     (if \<not> q_ready q then Done (QUEUE_INVALID, None, q)
      else if q_size q = 0 \<and> \<not> q_closed q then Wait
      else if q_size q = 0 \<and> q_closed q then Done (QUEUE_CLOSED, None, q)
      else (let (job, q') = pop_front_locked q in Done (QUEUE_OK, Some job, q')))"

definition job_queue_size :: "job_queue \<Rightarrow> nat" where
  "job_queue_size q = (if \<not> q_ready q then 0 else q_size q)"

definition job_queue_is_closed :: "job_queue \<Rightarrow> bool" where
  "job_queue_is_closed q = (if \<not> q_ready q then True else q_closed q)"

function cancel_loop :: "job_queue \<Rightarrow> job_result \<Rightarrow> nat \<Rightarrow> job_event list \<Rightarrow> nat \<times> job_event list \<times> job_queue" where
  "cancel_loop q result cancelled events =
     (if q_size q > 0 then
        (let (job, q') = pop_front_locked q in
         cancel_loop q' result (Suc cancelled) (events @ job_finish (Some job) result (- 1) 0))
      else (cancelled, events, q))"
  by pat_completeness auto
termination
  by (relation "measure (\<lambda>(q, result, cancelled, events). q_size q)") (auto simp: pop_front_locked_def)

declare cancel_loop.simps [simp del]

definition job_queue_cancel_pending :: "job_queue \<Rightarrow> job_result \<Rightarrow> nat \<times> job_event list \<times> job_queue" where
  "job_queue_cancel_pending q result = (if \<not> q_ready q then (0, [], q) else cancel_loop q result 0 [])"

definition job_queue_destroy :: "job_queue \<Rightarrow> job_result \<Rightarrow> job_event list \<times> job_queue" where
  "job_queue_destroy q pending_result =
     (if \<not> q_ready q then ([], q)
      else (let (cancelled, events, q') = job_queue_cancel_pending (job_queue_close q) pending_result
            in (events, job_queue_zero)))"

section \<open>Refinement to a bounded list\<close>

definition ring_ok :: "job_queue \<Rightarrow> bool" where
  "ring_ok q \<longleftrightarrow> q_capacity q > 0 \<and> length (q_items q) = q_capacity q \<and> q_size q \<le> q_capacity q \<and>
     q_head q < q_capacity q \<and> q_tail q = (q_head q + q_size q) mod q_capacity q"

definition contents :: "job_queue \<Rightarrow> job list" where
  "contents q = map (\<lambda>i. q_items q ! ((q_head q + i) mod q_capacity q)) [0..<q_size q]"

lemma length_contents [simp]: "length (contents q) = q_size q"
  by (simp add: contents_def)

text \<open>
  The interface of a bounded first-in first-out queue, over which the histories of operations are
  analysed once.
\<close>

locale bounded_fifo =
  fixes inv :: "'q \<Rightarrow> bool"
    and items :: "'q \<Rightarrow> 'a list"
    and bound :: "'q \<Rightarrow> nat"
    and put :: "'q \<Rightarrow> 'a \<Rightarrow> 'q"
    and get :: "'q \<Rightarrow> 'a \<times> 'q"
  assumes put_ok: "inv q \<Longrightarrow> length (items q) < bound q \<Longrightarrow>
      inv (put q x) \<and> items (put q x) = items q @ [x] \<and> bound (put q x) = bound q"
    and get_ok: "inv q \<Longrightarrow> items q \<noteq> [] \<Longrightarrow> get q = (x, q') \<Longrightarrow>
      inv q' \<and> items q = x # items q' \<and> bound q' = bound q"
    and inv_bound: "inv q \<Longrightarrow> length (items q) \<le> bound q"
begin

lemma history_put:
  assumes "inv q" "past = taken @ items q" "length (items q) < bound q"
  shows "past @ [x] = taken @ items (put q x)"
  using assms put_ok by simp

lemma history_get:
  assumes "inv q" "past = taken @ items q" "items q \<noteq> []" "get q = (x, q')"
  shows "past = (taken @ [x]) @ items q'"
  using assms get_ok by simp

end

lemma ring_inj:
  assumes "(a::nat) < c" "b < c" "(h + a) mod c = (h + b) mod c"
  shows "a = b"
proof -
  have "x = y" if "x \<le> y" "y < c" "(h + x) mod c = (h + y) mod c" for x y
  proof -
    have "c dvd y - x" using that(1,3) mod_eq_dvd_iff_nat [of "h + x" "h + y" c] by simp
    with that show ?thesis by (auto dest: dvd_imp_le)
  qed
  then show ?thesis using assms by (metis nle_le)
qed

lemma store_job_contents:
  assumes "ring_ok q" "q_size q < q_capacity q"
  shows "ring_ok (store_job q x)" "contents (store_job q x) = contents q @ [x]"
proof -
  show "ring_ok (store_job q x)"
    using assms by (auto simp: ring_ok_def store_job_def mod_Suc_eq)
  have "q_tail q \<noteq> (q_head q + i) mod q_capacity q" if "i < q_size q" for i
    using ring_inj [of i "q_capacity q" "q_size q" "q_head q"] that assms by (auto simp: ring_ok_def)
  moreover have "q_tail q < length (q_items q)" using assms by (simp add: ring_ok_def)
  ultimately show "contents (store_job q x) = contents q @ [x]"
    using assms by (auto simp: contents_def store_job_def ring_ok_def)
qed

lemma pop_front_contents:
  assumes "ring_ok q" "q_size q > 0" "pop_front_locked q = (x, q')"
  shows "ring_ok q'" "contents q = x # contents q'"
proof -
  have q': "x = q_items q ! q_head q"
    "q' = q\<lparr>q_head := (q_head q + 1) mod q_capacity q, q_size := q_size q - 1\<rparr>"
    using assms(3) by (simp_all add: pop_front_locked_def)
  have "(Suc (q_head q) mod q_capacity q + (q_size q - 1)) mod q_capacity q =
      (q_head q + q_size q) mod q_capacity q"
    using assms(2) by (cases "q_size q") (simp_all add: mod_simps)
  then show "ring_ok q'" using assms(1) q' by (auto simp: ring_ok_def)
  have "[0..<q_size q] = 0 # map Suc [0..<q_size q - 1]"
    using assms(2) by (cases "q_size q") (simp_all add: map_Suc_upt upt_conv_Cons del: upt_Suc)
  then show "contents q = x # contents q'"
    using assms(1) q' by (simp add: contents_def ring_ok_def mod_simps)
qed

interpretation ring: bounded_fifo ring_ok contents q_capacity store_job pop_front_locked
proof
  fix q x assume "ring_ok q" "length (contents q) < q_capacity q"
  then show "ring_ok (store_job q x) \<and> contents (store_job q x) = contents q @ [x] \<and>
      q_capacity (store_job q x) = q_capacity q"
    using store_job_contents [of q x] by (simp add: store_job_def)
next
  fix q x q' assume "ring_ok q" "contents q \<noteq> []" "pop_front_locked q = (x, q')"
  moreover from this have "q_size q > 0" by (metis length_contents length_greater_0_conv)
  ultimately show "ring_ok q' \<and> contents q = x # contents q' \<and> q_capacity q' = q_capacity q"
    using pop_front_contents [of q x q'] by (auto simp: pop_front_locked_def)
next
  show "ring_ok q \<Longrightarrow> length (contents q) \<le> q_capacity q" for q by (simp add: ring_ok_def)
qed

lemma job_queue_init_ok:
  "job_queue_init capacity = Some q \<Longrightarrow>
   ring_ok q \<and> contents q = [] \<and> q_ready q \<and> \<not> q_closed q \<and> q_capacity q = capacity"
  by (auto simp: job_queue_init_def job_queue_zero_def ring_ok_def contents_def split: if_splits)

section \<open>Producers and consumers\<close>

datatype qphase = QIdle | PushBlocked | PushWoken | PopBlocked | PopWoken

record queue_state =
  qs_queue :: job_queue
  qs_phase :: "nat \<Rightarrow> qphase"
  qs_job :: "nat \<Rightarrow> job"
  qs_accepted :: "job list"
  qs_taken :: "job list"

text \<open>
  \<open>qs_job t\<close> is the argument of the push thread \<open>t\<close> is blocked in; \<open>qs_accepted\<close> and \<open>qs_taken\<close>
  record the jobs that were stored and removed so far. \<open>push_by\<close> and \<open>pop_by\<close> say that thread \<open>t\<close>
  runs the code under the mutex, entering the function or woken from its wait.
\<close>

definition push_by :: "queue_state \<Rightarrow> nat \<Rightarrow> job \<Rightarrow> bool" where
  "push_by s t j \<longleftrightarrow> qs_phase s t = QIdle \<or> (qs_phase s t = PushWoken \<and> j = qs_job s t)"

definition pop_by :: "queue_state \<Rightarrow> nat \<Rightarrow> bool" where
  "pop_by s t \<longleftrightarrow> qs_phase s t = QIdle \<or> qs_phase s t = PopWoken"

inductive queue_step :: "queue_state \<Rightarrow> queue_state \<Rightarrow> bool" where
  push_ok: "push_by s t j \<Longrightarrow> job_queue_push (qs_queue s) (Some j) = Done (QUEUE_OK, q') \<Longrightarrow>
    signalled PopBlocked PopWoken ((qs_phase s)(t := QIdle)) ph' \<Longrightarrow>
    queue_step s (s\<lparr>qs_queue := q', qs_phase := ph', qs_accepted := qs_accepted s @ [j]\<rparr>)"
| push_refused: "push_by s t j \<Longrightarrow> job_queue_push (qs_queue s) (Some j) = Done (st, q') \<Longrightarrow> st \<noteq> QUEUE_OK \<Longrightarrow>
    queue_step s (s\<lparr>qs_queue := q', qs_phase := (qs_phase s)(t := QIdle)\<rparr>)"
| push_wait: "push_by s t j \<Longrightarrow> job_queue_push (qs_queue s) (Some j) = Wait \<Longrightarrow>
    queue_step s (s\<lparr>qs_phase := (qs_phase s)(t := PushBlocked), qs_job := (qs_job s)(t := j)\<rparr>)"
| try_push_ok: "qs_phase s t = QIdle \<Longrightarrow> job_queue_try_push (qs_queue s) (Some j) = (QUEUE_OK, q') \<Longrightarrow>
    signalled PopBlocked PopWoken (qs_phase s) ph' \<Longrightarrow>
    queue_step s (s\<lparr>qs_queue := q', qs_phase := ph', qs_accepted := qs_accepted s @ [j]\<rparr>)"
| pop_ok: "pop_by s t \<Longrightarrow> job_queue_pop (qs_queue s) = Done (QUEUE_OK, Some j, q') \<Longrightarrow>
    signalled PushBlocked PushWoken ((qs_phase s)(t := QIdle)) ph' \<Longrightarrow>
    queue_step s (s\<lparr>qs_queue := q', qs_phase := ph', qs_taken := qs_taken s @ [j]\<rparr>)"
| pop_closed: "pop_by s t \<Longrightarrow> job_queue_pop (qs_queue s) = Done (QUEUE_CLOSED, None, q') \<Longrightarrow>
    queue_step s (s\<lparr>qs_queue := q', qs_phase := (qs_phase s)(t := QIdle)\<rparr>)"
| pop_wait: "pop_by s t \<Longrightarrow> job_queue_pop (qs_queue s) = Wait \<Longrightarrow>
    queue_step s (s\<lparr>qs_phase := (qs_phase s)(t := PopBlocked)\<rparr>)"
| close: "queue_step s (s\<lparr>qs_queue := job_queue_close (qs_queue s),
    qs_phase := wake_all PopBlocked PopWoken (wake_all PushBlocked PushWoken (qs_phase s))\<rparr>)"
| cancel_one: "q_size (qs_queue s) > 0 \<Longrightarrow> pop_front_locked (qs_queue s) = (j, q') \<Longrightarrow>
    signalled PushBlocked PushWoken (qs_phase s) ph' \<Longrightarrow>
    queue_step s (s\<lparr>qs_queue := q', qs_phase := ph', qs_taken := qs_taken s @ [j]\<rparr>)"
| spurious_push: "qs_phase s t = PushBlocked \<Longrightarrow>
    queue_step s (s\<lparr>qs_phase := (qs_phase s)(t := PushWoken)\<rparr>)"
| spurious_pop: "qs_phase s t = PopBlocked \<Longrightarrow>
    queue_step s (s\<lparr>qs_phase := (qs_phase s)(t := PopWoken)\<rparr>)"

definition queue_init :: "nat \<Rightarrow> queue_state \<Rightarrow> bool" where
  "queue_init capacity s \<longleftrightarrow> job_queue_init capacity = Some (qs_queue s) \<and>
     qs_phase s = (\<lambda>_. QIdle) \<and> qs_accepted s = [] \<and> qs_taken s = []"


section \<open>The invariant of the shared queue\<close>

text \<open>
  Counting threads: a closed queue has no blocked thread; while consumers are blocked, every stored
  job has a woken consumer of its own, and while producers are blocked, every free slot has a woken
  producer.
\<close>

definition qcounts_ok :: "job_queue \<Rightarrow> (qphase \<Rightarrow> nat) \<Rightarrow> bool" where
  "qcounts_ok q c \<longleftrightarrow>
     (if q_closed q then c PushBlocked = 0 \<and> c PopBlocked = 0
      else (c PopBlocked > 0 \<longrightarrow> q_size q \<le> c PopWoken) \<and>
           (c PushBlocked > 0 \<longrightarrow> q_capacity q - q_size q \<le> c PushWoken))"

definition queue_inv :: "queue_state \<Rightarrow> bool" where
  "queue_inv s \<longleftrightarrow> ring_ok (qs_queue s) \<and> q_ready (qs_queue s) \<and>
     qs_accepted s = qs_taken s @ contents (qs_queue s) \<and>
     (\<forall>t. qs_phase s t \<in> {PushBlocked, PushWoken} \<longrightarrow> job_is_valid (Some (qs_job s t))) \<and>
     finite {t. qs_phase s t \<noteq> QIdle} \<and> qcounts_ok (qs_queue s) (phase_count (qs_phase s))"

lemma push_Done_OK:
  "job_queue_push q (Some j) = Done (QUEUE_OK, q') \<longleftrightarrow>
   q_ready q \<and> job_is_valid (Some j) \<and> \<not> q_closed q \<and> q_size q \<noteq> q_capacity q \<and> q' = store_job q j"
  by (auto simp: job_queue_push_def split: if_splits)

lemma push_refused_same: "job_queue_push q job = Done (st, q') \<Longrightarrow> st \<noteq> QUEUE_OK \<Longrightarrow> q' = q"
  by (auto simp: job_queue_push_def split: if_splits)

lemma push_Wait:
  "job_queue_push q (Some j) = Wait \<longleftrightarrow>
   q_ready q \<and> job_is_valid (Some j) \<and> \<not> q_closed q \<and> q_size q = q_capacity q"
  by (auto simp: job_queue_push_def split: if_splits)

lemma try_push_OK:
  "job_queue_try_push q (Some j) = (QUEUE_OK, q') \<longleftrightarrow>
   q_ready q \<and> job_is_valid (Some j) \<and> \<not> q_closed q \<and> q_size q \<noteq> q_capacity q \<and> q' = store_job q j"
  by (auto simp: job_queue_try_push_def split: if_splits)

lemma pop_Done_OK:
  "job_queue_pop q = Done (QUEUE_OK, Some j, q') \<longleftrightarrow>
   q_ready q \<and> q_size q > 0 \<and> pop_front_locked q = (j, q')"
  by (auto simp: job_queue_pop_def split: if_splits prod.splits)

lemma pop_CLOSED:
  "job_queue_pop q = Done (QUEUE_CLOSED, None, q') \<longleftrightarrow> q_ready q \<and> q_size q = 0 \<and> q_closed q \<and> q' = q"
  by (auto simp: job_queue_pop_def split: if_splits prod.splits)

lemma pop_Wait: "job_queue_pop q = Wait \<longleftrightarrow> q_ready q \<and> q_size q = 0 \<and> \<not> q_closed q"
  by (auto simp: job_queue_pop_def split: if_splits prod.splits)

lemmas queue_replies = push_Done_OK push_Wait try_push_OK pop_Done_OK pop_CLOSED pop_Wait

lemma store_job_simps [simp]:
  "q_closed (store_job q j) = q_closed q" "q_ready (store_job q j) = q_ready q"
  "q_capacity (store_job q j) = q_capacity q" "q_size (store_job q j) = Suc (q_size q)"
  by (simp_all add: store_job_def)

lemma pop_front_simps:
  assumes "pop_front_locked q = (j, q')"
  shows "q_closed q' = q_closed q" "q_ready q' = q_ready q" "q_capacity q' = q_capacity q"
    "q_size q' = q_size q - 1"
  using assms by (auto simp: pop_front_locked_def)

lemma qcounts_ok_cong:
  "(\<And>r. r \<noteq> QIdle \<Longrightarrow> c r = d r) \<Longrightarrow> qcounts_ok q c \<longleftrightarrow> qcounts_ok q d"
  by (simp add: qcounts_ok_def)

text \<open>The effect of an operation of a thread in phase \<open>p\<close> on the counts, before its signal.\<close>

definition leave :: "qphase \<Rightarrow> (qphase \<Rightarrow> nat) \<Rightarrow> qphase \<Rightarrow> nat" where
  "leave p c r = (if r = p then c r - 1 else c r)"

lemma count_leave:
  "finite {t. ph t \<noteq> QIdle} \<Longrightarrow> r \<noteq> QIdle \<Longrightarrow> phase_count (ph(t := QIdle)) r = leave (ph t) (phase_count ph) r"
  using count_to_idle [of ph QIdle r t] by (simp add: leave_def)

lemma qcounts_signal:
  assumes "signalled p q ph ph'" "finite {t. ph t \<noteq> QIdle}"
    and "p = PopBlocked \<and> q = PopWoken \<or> p = PushBlocked \<and> q = PushWoken"
    and zero: "phase_count ph p = 0 \<Longrightarrow> qcounts_ok qu (phase_count ph)"
    and pos: "phase_count ph p > 0 \<Longrightarrow> qcounts_ok qu (moved p q (phase_count ph))"
  shows "finite {t. ph' t \<noteq> QIdle} \<and> qcounts_ok qu (phase_count ph')"
proof -
  have p: "p \<noteq> QIdle" "p \<noteq> q" using assms(3) by auto
  note sc = signalled_counts [OF assms(1,2) p]
  from sc(2) show ?thesis
  proof
    assume "phase_count ph p = 0 \<and> ph' = ph"
    then show ?thesis using zero assms(2) by simp
  next
    assume c: "phase_count ph p > 0 \<and> (\<forall>r. r \<noteq> QIdle \<longrightarrow> phase_count ph' r = moved p q (phase_count ph) r)"
    then have "qcounts_ok qu (phase_count ph') = qcounts_ok qu (moved p q (phase_count ph))"
      by (intro qcounts_ok_cong) simp
    with c pos sc(1) show ?thesis by simp
  qed
qed

lemma signalled_phases:
  "signalled p q ph ph' \<Longrightarrow> ph' t = ph t \<or> (ph t = p \<and> ph' t = q)"
  by (induction rule: signalled.induct) auto

text \<open>The counts after storing and after removing a job.\<close>

lemma qcounts_store:
  assumes c: "qcounts_ok q c" and q: "ring_ok q" "\<not> q_closed q" "q_size q \<noteq> q_capacity q"
    and p: "p = QIdle \<or> p = PushWoken \<and> c PushWoken > 0"
  shows "c PopBlocked = 0 \<Longrightarrow> qcounts_ok (store_job q j) (leave p c)"
    and "c PopBlocked > 0 \<Longrightarrow> qcounts_ok (store_job q j) (moved PopBlocked PopWoken (leave p c))"
  using assms by (auto simp: qcounts_ok_def leave_def moved_def)

lemma qcounts_remove:
  assumes c: "qcounts_ok q c" and q: "ring_ok q" "q_size q > 0" "pop_front_locked q = (j, q')"
    and p: "p = QIdle \<or> p = PopWoken \<and> c PopWoken > 0"
  shows "c PushBlocked = 0 \<Longrightarrow> qcounts_ok q' (leave p c)"
    and "c PushBlocked > 0 \<Longrightarrow> qcounts_ok q' (moved PushBlocked PushWoken (leave p c))"
  using assms pop_front_simps [OF q(3)] by (auto simp: qcounts_ok_def leave_def moved_def ring_ok_def split: if_splits)

lemma queue_inv_D:
  assumes "queue_inv s"
  shows "ring_ok (qs_queue s)" "q_ready (qs_queue s)" "qs_accepted s = qs_taken s @ contents (qs_queue s)"
    "qs_phase s t \<in> {PushBlocked, PushWoken} \<Longrightarrow> job_is_valid (Some (qs_job s t))"
    "finite {t. qs_phase s t \<noteq> QIdle}" "qcounts_ok (qs_queue s) (phase_count (qs_phase s))"
  using assms unfolding queue_inv_def by blast+

lemma queue_inv_count: "queue_inv s \<Longrightarrow> p \<noteq> QIdle \<Longrightarrow> phase_count (qs_phase s) p > 0 \<longleftrightarrow> (\<exists>t. qs_phase s t = p)"
  using count_pos [OF queue_inv_D(5)] by blast

lemma idle_update: "ph t = QIdle \<Longrightarrow> ph(t := QIdle) = ph"
  by (auto simp: fun_eq_iff)

text \<open>A job is stored by a thread that is entering a push or has been woken in it.\<close>

lemma queue_inv_store:
  assumes inv: "queue_inv s" and p: "qs_phase s t = QIdle \<or> qs_phase s t = PushWoken"
    and q: "\<not> q_closed (qs_queue s)" "q_size (qs_queue s) \<noteq> q_capacity (qs_queue s)"
    and sig: "signalled PopBlocked PopWoken ((qs_phase s)(t := QIdle)) ph'"
  shows "queue_inv (s\<lparr>qs_queue := store_job (qs_queue s) j, qs_phase := ph', qs_accepted := qs_accepted s @ [j]\<rparr>)"
proof -
  let ?q = "qs_queue s" and ?c = "phase_count (qs_phase s)" and ?p = "qs_phase s t"
  note D = queue_inv_D [OF inv]
  have less: "q_size ?q < q_capacity ?q" using q(2) D(1) by (simp add: ring_ok_def)
  have pos: "?p = QIdle \<or> ?p = PushWoken \<and> ?c PushWoken > 0" using p queue_inv_count [OF inv] by auto
  define ph where "ph = (qs_phase s)(t := QIdle)"
  have cnt: "\<And>r. r \<noteq> QIdle \<Longrightarrow> phase_count ph r = leave ?p ?c r"
    unfolding ph_def by (rule count_leave [OF D(5)])
  have eq: "qcounts_ok qu (phase_count ph) = qcounts_ok qu (leave ?p ?c)"
    "qcounts_ok qu (moved PopBlocked PopWoken (phase_count ph)) = qcounts_ok qu (moved PopBlocked PopWoken (leave ?p ?c))" for qu
    by (rule qcounts_ok_cong, simp add: cnt moved_def)+
  have blocked: "phase_count ph PopBlocked = ?c PopBlocked" using cnt [of PopBlocked] p by (auto simp: leave_def)
  have fin: "finite {t. ph t \<noteq> QIdle}" unfolding ph_def by (rule finite_update [OF D(5)])
  have "finite {t. ph' t \<noteq> QIdle} \<and> qcounts_ok (store_job ?q j) (phase_count ph')"
    using qcounts_store [OF D(6) D(1) q pos] by (intro qcounts_signal [OF sig [folded ph_def] fin]) (auto simp: eq blocked)
  moreover have "job_is_valid (Some (qs_job s u))" if "ph' u \<in> {PushBlocked, PushWoken}" for u
    using signalled_phases [OF sig, of u] that D(4) [of u] by (auto split: if_splits)
  ultimately show ?thesis
    using ring.put_ok [OF D(1), of j] ring.history_put [OF D(1) D(3), of j] less D(2)
    by (simp add: queue_inv_def)
qed

lemma queue_inv_remove:
  assumes inv: "queue_inv s" and p: "qs_phase s t = QIdle \<or> qs_phase s t = PopWoken"
    and q: "q_size (qs_queue s) > 0" "pop_front_locked (qs_queue s) = (j, q')"
    and sig: "signalled PushBlocked PushWoken ((qs_phase s)(t := QIdle)) ph'"
  shows "queue_inv (s\<lparr>qs_queue := q', qs_phase := ph', qs_taken := qs_taken s @ [j]\<rparr>)"
proof -
  let ?q = "qs_queue s" and ?c = "phase_count (qs_phase s)" and ?p = "qs_phase s t"
  note D = queue_inv_D [OF inv]
  have ne: "contents ?q \<noteq> []" using q(1) by (metis length_contents length_greater_0_conv)
  have pos: "?p = QIdle \<or> ?p = PopWoken \<and> ?c PopWoken > 0" using p queue_inv_count [OF inv] by auto
  define ph where "ph = (qs_phase s)(t := QIdle)"
  have cnt: "\<And>r. r \<noteq> QIdle \<Longrightarrow> phase_count ph r = leave ?p ?c r"
    unfolding ph_def by (rule count_leave [OF D(5)])
  have eq: "qcounts_ok qu (phase_count ph) = qcounts_ok qu (leave ?p ?c)"
    "qcounts_ok qu (moved PushBlocked PushWoken (phase_count ph)) = qcounts_ok qu (moved PushBlocked PushWoken (leave ?p ?c))" for qu
    by (rule qcounts_ok_cong, simp add: cnt moved_def)+
  have blocked: "phase_count ph PushBlocked = ?c PushBlocked" using cnt [of PushBlocked] p by (auto simp: leave_def)
  have fin: "finite {t. ph t \<noteq> QIdle}" unfolding ph_def by (rule finite_update [OF D(5)])
  have "finite {t. ph' t \<noteq> QIdle} \<and> qcounts_ok q' (phase_count ph')"
    using qcounts_remove [OF D(6) D(1) q pos] by (intro qcounts_signal [OF sig [folded ph_def] fin]) (auto simp: eq blocked)
  moreover have "job_is_valid (Some (qs_job s u))" if "ph' u \<in> {PushBlocked, PushWoken}" for u
    using signalled_phases [OF sig, of u] that D(4) [of u] by (auto split: if_splits)
  ultimately show ?thesis
    using ring.get_ok [OF D(1) ne q(2)] ring.history_get [OF D(1) D(3) ne q(2)] pop_front_simps [OF q(2)] D(2)
    by (simp add: queue_inv_def)
qed

text \<open>Moves of a thread that leave the buffer alone.\<close>

lemma queue_inv_move:
  assumes inv: "queue_inv s" and p: "qs_phase s t = p" "p \<noteq> q"
    and job: "q \<in> {PushBlocked, PushWoken} \<Longrightarrow> job_is_valid (Some (js t))" and js: "\<forall>u. u \<noteq> t \<longrightarrow> js u = qs_job s u"
    and c: "\<And>c. qcounts_ok (qs_queue s) c \<Longrightarrow> p \<noteq> QIdle \<longrightarrow> c p > 0 \<Longrightarrow> qcounts_ok (qs_queue s) (moved p q c)"
  shows "queue_inv (s\<lparr>qs_phase := (qs_phase s)(t := q), qs_job := js\<rparr>)"
proof -
  note D = queue_inv_D [OF inv]
  have "p \<noteq> QIdle \<longrightarrow> phase_count (qs_phase s) p > 0" using queue_inv_count [OF inv, of p] p(1) by blast
  then have "qcounts_ok (qs_queue s) (moved p q (phase_count (qs_phase s)))" by (rule c [OF D(6)])
  moreover have "qcounts_ok (qs_queue s) (phase_count ((qs_phase s)(t := q))) =
      qcounts_ok (qs_queue s) (moved p q (phase_count (qs_phase s)))"
    by (rule qcounts_ok_cong) (rule count_update [OF D(5) _ p])
  moreover have "\<forall>u. ((qs_phase s)(t := q)) u \<in> {PushBlocked, PushWoken} \<longrightarrow> job_is_valid (Some (js u))"
    using job js D(4) by auto
  ultimately show ?thesis using D(1,2,3) finite_update [OF D(5), of t q] by (simp add: queue_inv_def)
qed

lemma qcounts_moves:
  assumes "qcounts_ok q c"
  shows "q_size q = q_capacity q \<Longrightarrow> \<not> q_closed q \<Longrightarrow> qcounts_ok q (moved QIdle PushBlocked c)"
    and "q_size q = q_capacity q \<Longrightarrow> \<not> q_closed q \<Longrightarrow> qcounts_ok q (moved PushWoken PushBlocked c)"
    and "q_size q = 0 \<Longrightarrow> \<not> q_closed q \<Longrightarrow> qcounts_ok q (moved QIdle PopBlocked c)"
    and "q_size q = 0 \<Longrightarrow> \<not> q_closed q \<Longrightarrow> qcounts_ok q (moved PopWoken PopBlocked c)"
    and "qcounts_ok q (moved PushBlocked PushWoken c)" "qcounts_ok q (moved PopBlocked PopWoken c)"
    and "q_closed q \<Longrightarrow> qcounts_ok q (moved PushWoken QIdle c)"
    and "q_closed q \<Longrightarrow> qcounts_ok q (moved PopWoken QIdle c)"
  using assms by (auto simp: qcounts_ok_def moved_def split: if_splits)

lemma queue_inv_close:
  assumes inv: "queue_inv s"
  shows "queue_inv (s\<lparr>qs_queue := job_queue_close (qs_queue s),
    qs_phase := wake_all PopBlocked PopWoken (wake_all PushBlocked PushWoken (qs_phase s))\<rparr>)"
proof -
  note D = queue_inv_D [OF inv]
  let ?p1 = "wake_all PushBlocked PushWoken (qs_phase s)"
  let ?p2 = "wake_all PopBlocked PopWoken ?p1"
  have f1: "finite {t. ?p1 t \<noteq> QIdle}" by (rule finite_wake_all [OF D(5)]) simp
  have f2: "finite {t. ?p2 t \<noteq> QIdle}" by (rule finite_wake_all [OF f1]) simp
  have "phase_count ?p2 PopBlocked = 0" "phase_count ?p2 PushBlocked = phase_count ?p1 PushBlocked"
    using count_wake_all [OF f1, of PopBlocked PopWoken] by simp_all
  moreover have "phase_count ?p1 PushBlocked = 0" using count_wake_all [OF D(5), of PushBlocked PushWoken] by simp
  moreover have "\<forall>t. ?p2 t \<in> {PushBlocked, PushWoken} \<longrightarrow> job_is_valid (Some (qs_job s t))"
    using D(4) by (auto simp: wake_all_def split: if_splits)
  moreover have "job_queue_close (qs_queue s) = (qs_queue s)\<lparr>q_closed := True\<rparr>"
    using D(2) by (simp add: job_queue_close_def)
  ultimately show ?thesis using D(1,2,3) f2 by (simp add: queue_inv_def qcounts_ok_def ring_ok_def contents_def)
qed

lemma queue_step_inv: "queue_step s s' \<Longrightarrow> queue_inv s \<Longrightarrow> queue_inv s'"
proof (induction rule: queue_step.induct)
  case (push_ok s t j q' ph')
  then show ?case using queue_inv_store [of s t ph' j] by (auto simp: push_by_def queue_replies)
next
  case (push_refused s t j st q')
  note D = queue_inv_D [OF push_refused(4)]
  have q': "q' = qs_queue s" using push_refused_same push_refused(2,3) by blast
  show ?case
  proof (cases "qs_phase s t = QIdle")
    case True
    then show ?thesis using push_refused(4) q' by (simp add: idle_update)
  next
    case False
    then have p: "qs_phase s t = PushWoken" "j = qs_job s t" using push_refused(1) by (auto simp: push_by_def)
    then have "q_closed (qs_queue s)"
      using push_refused(2,3) D(2) D(4) [of t] by (auto simp: job_queue_push_def split: if_splits)
    then show ?thesis
      using queue_inv_move [OF push_refused(4) p(1), of QIdle "qs_job s"] qcounts_moves(7) q' by simp
  qed
next
  case (push_wait s t j)
  then show ?case
    using queue_inv_move [OF push_wait(3) refl, of t PushBlocked "(qs_job s)(t := j)"] qcounts_moves(1,2)
    by (auto simp: push_by_def queue_replies)
next
  case (try_push_ok s t j q' ph')
  then show ?case using queue_inv_store [of s t ph' j] by (simp add: queue_replies idle_update)
next
  case (pop_ok s t j q' ph')
  then show ?case using queue_inv_remove [of s t j q' ph'] by (auto simp: pop_by_def queue_replies)
next
  case (pop_closed s t q')
  show ?case
  proof (cases "qs_phase s t = QIdle")
    case True
    then show ?thesis using pop_closed by (simp add: idle_update queue_replies)
  next
    case False
    then have "qs_phase s t = PopWoken" using pop_closed(1) by (auto simp: pop_by_def)
    then show ?thesis
      using queue_inv_move [OF pop_closed(3), of t PopWoken QIdle "qs_job s"] qcounts_moves(8) pop_closed(2)
      by (simp add: queue_replies)
  qed
next
  case (pop_wait s t)
  then show ?case
    using queue_inv_move [OF pop_wait(3) refl, of t PopBlocked "qs_job s"] qcounts_moves(3,4)
    by (auto simp: pop_by_def queue_replies)
next
  case (close s)
  then show ?case by (rule queue_inv_close)
next
  case (cancel_one s j q' ph')
  have "finite {t. qs_phase s t \<noteq> QIdle}" using queue_inv_D(5) [OF cancel_one(4)] .
  then obtain t where "qs_phase s t = QIdle" using ex_new_if_finite [OF infinite_UNIV_nat] by blast
  then show ?case using queue_inv_remove [OF cancel_one(4), of t j q' ph'] cancel_one(1-3) by (simp add: idle_update)
next
  case (spurious_push s t)
  then show ?case
    using queue_inv_move [OF spurious_push(2,1), of PushWoken "qs_job s"] queue_inv_D(4) [OF spurious_push(2), of t]
      qcounts_moves(5) by simp
next
  case (spurious_pop s t)
  then show ?case
    using queue_inv_move [OF spurious_pop(2,1), of PopWoken "qs_job s"] qcounts_moves(6) by simp
qed

lemma queue_init_inv: "queue_init capacity s \<Longrightarrow> queue_inv s"
  using job_queue_init_ok [of capacity "qs_queue s"]
  by (auto simp: queue_init_def queue_inv_def qcounts_ok_def phase_count_def in_phase_def)

interpretation jobq: invariant_system "queue_init capacity" queue_step queue_inv
  by unfold_locales (blast intro: queue_init_inv queue_step_inv)+

lemma push_capacity: "job_queue_push q job = Done (st, q') \<Longrightarrow> q_capacity q' = q_capacity q"
  "job_queue_try_push q job = (st, q') \<Longrightarrow> q_capacity q' = q_capacity q"
  "job_queue_pop q = Done (st, j, q') \<Longrightarrow> q_capacity q' = q_capacity q"
  by (auto simp: job_queue_push_def job_queue_try_push_def job_queue_pop_def pop_front_locked_def split: if_splits)

interpretation jobq_capacity: invariant_system "queue_init capacity" queue_step "\<lambda>s. q_capacity (qs_queue s) = capacity"
proof
  show "queue_init capacity s \<Longrightarrow> q_capacity (qs_queue s) = capacity" for s
    using job_queue_init_ok by (auto simp: queue_init_def)
next
  fix s t assume "q_capacity (qs_queue s) = capacity" "queue_step s t"
  from this(2,1) show "q_capacity (qs_queue t) = capacity"
    by (induction rule: queue_step.induct)
      (auto simp: push_capacity job_queue_close_def pop_front_simps)
qed

section \<open>Order, progress and closing\<close>

lemma signal_exists: "\<exists>ph'. signalled p q ph ph'"
  by (cases "\<exists>w. ph w = p") (auto intro: signalled.intros)

lemma blocked_means_open:
  assumes "queue_inv s" "qs_phase s t = PopBlocked \<or> qs_phase s t = PushBlocked"
  shows "\<not> q_closed (qs_queue s)"
  using queue_inv_D(6) [OF assms(1)] queue_inv_count [OF assms(1), of PopBlocked]
    queue_inv_count [OF assms(1), of PushBlocked] assms(2)
  by (auto simp: qcounts_ok_def split: if_splits)

lemma woken_consumer:
  assumes inv: "queue_inv s" and t: "qs_phase s t = PopBlocked" and size: "q_size (qs_queue s) > 0"
  shows "\<exists>u s'. qs_phase s u = PopWoken \<and> queue_step s s' \<and>
     qs_phase s' u = QIdle \<and> qs_taken s' = qs_taken s @ [hd (contents (qs_queue s))]"
proof -
  note D = queue_inv_D [OF inv]
  have "phase_count (qs_phase s) PopBlocked > 0" using queue_inv_count [OF inv, of PopBlocked] t by blast
  then have "phase_count (qs_phase s) PopWoken > 0"
    using D(6) blocked_means_open [OF inv, of t] t size by (auto simp: qcounts_ok_def)
  then obtain u where u: "qs_phase s u = PopWoken" using queue_inv_count [OF inv, of PopWoken] by auto
  obtain j q' where q': "pop_front_locked (qs_queue s) = (j, q')" by fastforce
  have j: "j = hd (contents (qs_queue s))" using pop_front_contents(2) [OF D(1) size q'] by simp
  obtain ph' where ph': "signalled PushBlocked PushWoken ((qs_phase s)(u := QIdle)) ph'"
    using signal_exists [of PushBlocked PushWoken "(qs_phase s)(u := QIdle)"] by blast
  have "queue_step s (s\<lparr>qs_queue := q', qs_phase := ph', qs_taken := qs_taken s @ [j]\<rparr>)"
    using u q' D(2) size ph' by (intro pop_ok [of s u]) (simp_all add: pop_by_def queue_replies)
  moreover have "ph' u = QIdle" using signalled_phases [OF ph', of u] by simp
  ultimately show ?thesis using u j by (intro exI [of _ u] exI conjI) auto
qed

lemma woken_producer:
  assumes inv: "queue_inv s" and t: "qs_phase s t = PushBlocked"
    and size: "q_size (qs_queue s) < q_capacity (qs_queue s)"
  shows "\<exists>u s'. qs_phase s u = PushWoken \<and> queue_step s s' \<and>
     qs_phase s' u = QIdle \<and> qs_accepted s' = qs_accepted s @ [qs_job s u]"
proof -
  note D = queue_inv_D [OF inv]
  have open_queue: "\<not> q_closed (qs_queue s)" using blocked_means_open [OF inv] t by blast
  have "phase_count (qs_phase s) PushBlocked > 0" using queue_inv_count [OF inv, of PushBlocked] t by blast
  then have "phase_count (qs_phase s) PushWoken > 0" using D(6) open_queue size by (auto simp: qcounts_ok_def)
  then obtain u where u: "qs_phase s u = PushWoken" using queue_inv_count [OF inv, of PushWoken] by auto
  obtain ph' where ph': "signalled PopBlocked PopWoken ((qs_phase s)(u := QIdle)) ph'"
    using signal_exists [of PopBlocked PopWoken "(qs_phase s)(u := QIdle)"] by blast
  have "queue_step s (s\<lparr>qs_queue := store_job (qs_queue s) (qs_job s u), qs_phase := ph',
      qs_accepted := qs_accepted s @ [qs_job s u]\<rparr>)"
    using u D(2) D(4) [of u] size open_queue ph'
    by (intro push_ok [of s u]) (simp_all add: push_by_def queue_replies)
  moreover have "ph' u = QIdle" using signalled_phases [OF ph', of u] by simp
  ultimately show ?thesis using u by (intro exI [of _ u] exI conjI) auto
qed

text \<open>Cancelling goes through the buffer in order.\<close>

lemma cancel_loop_correct:
  "ring_ok q \<Longrightarrow> cancel_loop q result n events = (n', events', q') \<Longrightarrow>
   n' = n + length (contents q) \<and>
   events' = events @ concat (map (\<lambda>j. job_finish (Some j) result (- 1) 0) (contents q)) \<and>
   contents q' = []"
proof (induction q result n events rule: cancel_loop.induct)
  case (1 q result n events)
  show ?case
  proof (cases "q_size q > 0")
    case True
    obtain j r where r: "pop_front_locked q = (j, r)" by fastforce
    have c: "contents q = j # contents r" "ring_ok r" using pop_front_contents [OF "1.prems"(1) True r] by simp_all
    have "cancel_loop r result (Suc n) (events @ job_finish (Some j) result (- 1) 0) = (n', events', q')"
      using "1.prems"(2) True r by (simp add: cancel_loop.simps [of q])
    from "1.IH" [OF True r [symmetric] refl c(2) this] c(1) show ?thesis by simp
  next
    case False
    then have "contents q = []" by (metis length_contents length_greater_0_conv)
    with False "1.prems"(2) show ?thesis by (auto simp: cancel_loop.simps [of q])
  qed
qed

text \<open>A sample run: two consumers block on the empty queue, then one job is stored.\<close>

definition sample_job :: job where
  "sample_job = zero_job\<lparr>job_run := True, job_notify := True, job_cleanup := True, job_context := 7\<rparr>"

definition sample_queue :: queue_state where
  "sample_queue = \<lparr>qs_queue = the (job_queue_init 1), qs_phase = (\<lambda>_. QIdle), qs_job = (\<lambda>_. zero_job),
     qs_accepted = [], qs_taken = []\<rparr>"

definition sample_pop_woken :: queue_state where
  "sample_pop_woken = sample_queue\<lparr>qs_queue := store_job (the (job_queue_init 1)) sample_job,
     qs_phase := (\<lambda>_. QIdle)(1 := PopWoken, 2 := PopBlocked), qs_accepted := [sample_job]\<rparr>"

lemma sample_queue_reachable: "reachable (queue_init 1) queue_step sample_queue"
  by (rule reach_init) (simp add: queue_init_def sample_queue_def job_queue_init_def)

lemma sample_pop_woken_reachable: "reachable (queue_init 1) queue_step sample_pop_woken"
proof -
  let ?s = "sample_queue" and ?s1 = "sample_queue\<lparr>qs_phase := (\<lambda>_. QIdle)(1 := PopBlocked)\<rparr>"
    and ?s2 = "sample_queue\<lparr>qs_phase := (\<lambda>_. QIdle)(1 := PopBlocked, 2 := PopBlocked)\<rparr>"
  have w: "job_queue_pop (qs_queue sample_queue) = Wait" by code_simp
  have "queue_step ?s ?s1"
    using pop_wait [of ?s 1] w by (simp add: sample_queue_def pop_by_def)
  moreover have "queue_step ?s1 ?s2"
    using pop_wait [of ?s1 2] w by (simp add: sample_queue_def pop_by_def)
  moreover have "queue_step ?s2 sample_pop_woken"
  proof -
    have "job_queue_try_push (qs_queue ?s2) (Some sample_job) = (QUEUE_OK, store_job (the (job_queue_init 1)) sample_job)"
      by code_simp
    moreover have "signalled PopBlocked PopWoken (qs_phase ?s2) ((qs_phase ?s2)(1 := PopWoken))"
      by (rule signal_wakes) simp
    ultimately have "queue_step ?s2 (?s2\<lparr>qs_queue := store_job (the (job_queue_init 1)) sample_job,
        qs_phase := (qs_phase ?s2)(1 := PopWoken), qs_accepted := qs_accepted ?s2 @ [sample_job]\<rparr>)"
      by (intro try_push_ok [of ?s2 3]) simp_all
    then show ?thesis by (simp add: sample_pop_woken_def sample_queue_def fun_upd_twist)
  qed
  ultimately show ?thesis using reach_step sample_queue_reachable by metis
qed

text \<open>
  C28 (first in, first out): under every interleaving of producers, consumers, closing and
  cancellation, the jobs removed so far followed by the jobs in the ring buffer are exactly the
  jobs accepted so far, in the order of their acceptance; and the buffer never exceeds its
  capacity.
\<close>

theorem job_queue_fifo:
  assumes "reachable (queue_init capacity) queue_step s"
  shows "qs_accepted s = qs_taken s @ contents (qs_queue s) \<and> q_size (qs_queue s) \<le> capacity"
  using queue_inv_D(1,3) [OF jobq.reachable_inv [OF assms]] jobq_capacity.reachable_inv [OF assms]
  by (simp add: ring_ok_def)

theorem job_queue_fifo_witness:
  "qs_accepted sample_pop_woken = [sample_job] \<and> contents (qs_queue sample_pop_woken) = [sample_job]"
  using job_queue_fifo [OF sample_pop_woken_reachable] by (simp add: sample_pop_woken_def sample_queue_def)

text \<open>
  C31 (no lost wake-up): a thread is blocked in a pop only while the queue is open, and if there is a
  job in the queue then another consumer has been woken and its next step takes the oldest job; a
  thread is blocked in a push only while the queue is open, and if there is a free slot then a
  woken producer stores its job in its next step.
\<close>

theorem job_queue_progress:
  assumes "reachable (queue_init capacity) queue_step s"
  shows "(qs_phase s t = PopBlocked \<longrightarrow> \<not> q_closed (qs_queue s) \<and>
      (q_size (qs_queue s) > 0 \<longrightarrow> (\<exists>u s'. qs_phase s u = PopWoken \<and> queue_step s s' \<and>
         qs_phase s' u = QIdle \<and> qs_taken s' = qs_taken s @ [hd (contents (qs_queue s))]))) \<and>
    (qs_phase s t = PushBlocked \<longrightarrow> \<not> q_closed (qs_queue s) \<and>
      (q_size (qs_queue s) < capacity \<longrightarrow> (\<exists>u s'. qs_phase s u = PushWoken \<and> queue_step s s' \<and>
         qs_phase s' u = QIdle \<and> qs_accepted s' = qs_accepted s @ [qs_job s u])))"
proof -
  have inv: "queue_inv s" and cap: "q_capacity (qs_queue s) = capacity"
    using jobq.reachable_inv jobq_capacity.reachable_inv assms by blast+
  show ?thesis
    using blocked_means_open [OF inv] woken_consumer [OF inv] woken_producer [OF inv] cap by blast
qed

theorem job_queue_progress_witness:
  "\<exists>u s'. qs_phase sample_pop_woken u = PopWoken \<and> queue_step sample_pop_woken s' \<and>
     qs_phase s' u = QIdle \<and> qs_taken s' = [sample_job]"
proof -
  have "qs_phase sample_pop_woken 2 = PopBlocked" "q_size (qs_queue sample_pop_woken) > 0"
    "qs_taken sample_pop_woken = []" "hd (contents (qs_queue sample_pop_woken)) = sample_job"
    by code_simp+
  then show ?thesis using job_queue_progress [OF sample_pop_woken_reachable, of 2] by auto
qed

text \<open>
  Closing: once the queue is closed it stays closed, and no further job is accepted whatever
  the threads do.
\<close>

theorem job_queue_closed_final:
  assumes "queue_step\<^sup>*\<^sup>* s s'" "q_closed (qs_queue s)"
  shows "q_closed (qs_queue s') \<and> qs_accepted s' = qs_accepted s"
  using assms
proof (induction rule: rtranclp_induct)
  case (step u v)
  then have "q_closed (qs_queue u)" "qs_accepted u = qs_accepted s" by simp_all
  with step(2) show ?case
    by (induction rule: queue_step.induct)
      (auto simp: queue_replies job_queue_close_def pop_front_simps dest: push_refused_same)
qed simp

theorem job_queue_closed_final_witness:
  "queue_step\<^sup>*\<^sup>* (sample_queue\<lparr>qs_queue := job_queue_close (qs_queue sample_queue)\<rparr>)
      (sample_queue\<lparr>qs_queue := job_queue_close (qs_queue sample_queue), qs_phase := (\<lambda>_. QIdle)(3 := QIdle)\<rparr>) \<and>
   qs_accepted (sample_queue\<lparr>qs_queue := job_queue_close (qs_queue sample_queue),
      qs_phase := (\<lambda>_. QIdle)(3 := QIdle)\<rparr>) = []"
proof -
  let ?s = "sample_queue\<lparr>qs_queue := job_queue_close (qs_queue sample_queue)\<rparr>"
  have r: "job_queue_push (qs_queue ?s) (Some sample_job) = Done (QUEUE_CLOSED, qs_queue ?s)" by code_simp
  have "queue_step ?s (?s\<lparr>qs_queue := qs_queue ?s, qs_phase := (qs_phase ?s)(3 := QIdle)\<rparr>)"
    by (rule push_refused [OF _ r]) (simp_all add: push_by_def sample_queue_def)
  then have run: "queue_step\<^sup>*\<^sup>* ?s (?s\<lparr>qs_phase := (\<lambda>_. QIdle)(3 := QIdle)\<rparr>)"
    by (simp add: sample_queue_def)
  moreover have "q_closed (qs_queue ?s)" by code_simp
  ultimately show ?thesis using job_queue_closed_final [OF run] by (simp add: sample_queue_def)
qed

text \<open>
  Cancellation: cancelling the pending jobs finishes each job in the buffer exactly once, in
  queue order, with the given result, worker index -1 and status 0, returns their number and
  leaves the queue empty.
\<close>

theorem job_queue_cancel_pending_correct:
  assumes "ring_ok q" "q_ready q" "job_queue_cancel_pending q result = (n, events, q')"
  shows "n = length (contents q) \<and>
    events = concat (map (\<lambda>j. job_finish (Some j) result (- 1) 0) (contents q)) \<and> contents q' = []"
  using cancel_loop_correct [OF assms(1), of result 0 "[]"] assms(2,3)
  by (simp add: job_queue_cancel_pending_def)

theorem job_queue_cancel_pending_correct_witness:
  "fst (job_queue_cancel_pending (qs_queue sample_pop_woken) JOB_RESULT_CANCELLED) = 1 \<and>
   fst (snd (job_queue_cancel_pending (qs_queue sample_pop_woken) JOB_RESULT_CANCELLED)) =
     [Notify 7 JOB_RESULT_CANCELLED (- 1) 0, Cleanup 7]"
proof -
  let ?q = "qs_queue sample_pop_woken"
  have q: "ring_ok ?q" "q_ready ?q" "contents ?q = [sample_job]" by code_simp+
  obtain n events q' where c: "job_queue_cancel_pending ?q JOB_RESULT_CANCELLED = (n, events, q')"
    by (metis prod_cases3)
  show ?thesis
    using job_queue_cancel_pending_correct [OF q(1,2) c] c q(3) by (simp add: job_finish_def sample_job_def)
qed

end
