(* ===== verification/Thread_Pool.thy ===== *)
theory Thread_Pool
  imports Job_Queue
begin

text \<open>
  The thread pool of \<open>SERVER-CONCURRENCY/src/thread_pool.c\<close>: workers that take jobs from the bounded
  queue, run them under the lock manager and finish them, clients that submit jobs, and the
  shutdown procedure, as a transition system over the queue and the lock of the other two theories.
  The atomic steps are the critical sections and the calls of callbacks. A thread that waits for a
  condition variable simply does not step until its condition holds, which covers every order of
  wake-ups. Creating and destroying the pool, with its failures,
  is the subject of \<open>Lifecycle\<close>.
\<close>

section \<open>State\<close>

datatype shutdown_mode = SHUTDOWN_DRAIN | SHUTDOWN_CANCEL_PENDING

fun shutdown_mode_name :: "shutdown_mode \<Rightarrow> string" where
  "shutdown_mode_name SHUTDOWN_DRAIN = ''drain''"
| "shutdown_mode_name SHUTDOWN_CANCEL_PENDING = ''cancel_pending''"

text \<open>
  Where a worker is in \<open>worker_main\<close>: about to pop, holding a job it has been assigned, waiting as an
  announced writer, running the job, having run it with a status and released the lock, or gone.
\<close>

datatype worker =
    Popping
  | Assigned job
  | Write_Waiting job
  | Running job
  | Ran job int
  | Exited

text \<open>
  Where the thread that shuts the pool down is: not started, before closing the queue, cancelling
  pending jobs, joining the workers, or done.
\<close>

datatype shutdown_phase =
    Not_Started
  | Closing shutdown_mode
  | Cancelling
  | Joining shutdown_mode
  | Joined shutdown_mode

record finished_job =
  fin_job :: job
  fin_result :: job_result
  fin_worker :: int
  fin_status :: int

record pool =
  tp_queue :: job_queue
  tp_lock :: lock_manager
  tp_accepting :: bool
  tp_shutdown_started :: bool
  tp_shutdown :: shutdown_phase
  tp_workers :: "worker list"
  tp_submitting :: "nat \<Rightarrow> job option"
  tp_accepted :: "job list"
  tp_finished :: "finished_job list"

text \<open>
  \<open>tp_submitting t\<close> is the job of a client that has passed the check of \<open>accepting_jobs\<close> and has not
  yet pushed; \<open>tp_accepted\<close> lists the jobs the queue has accepted and \<open>tp_finished\<close> the calls of
  \<open>concurrency_job_finish\<close>.
\<close>

definition thread_pool_init :: "nat \<Rightarrow> nat \<Rightarrow> lock_policy \<Rightarrow> pool option" where
  "thread_pool_init worker_count queue_capacity policy =
     (if worker_count = 0 \<or> queue_capacity = 0 then None
      else Some \<lparr>tp_queue = the (job_queue_init queue_capacity), tp_lock = lock_manager_init policy,
             tp_accepting = True, tp_shutdown_started = False, tp_shutdown = Not_Started,
             tp_workers = replicate worker_count Popping, tp_submitting = (\<lambda>_. None),
             tp_accepted = [], tp_finished = []\<rparr>)"

definition job_outcome :: "int \<Rightarrow> job_result" where
  "job_outcome run_status = (if run_status = 0 then JOB_RESULT_OK else JOB_RESULT_FAILED)"

section \<open>Workers\<close>

definition set_worker :: "nat \<Rightarrow> worker \<Rightarrow> pool \<Rightarrow> pool" where
  "set_worker i w s = s\<lparr>tp_workers := (tp_workers s)[i := w]\<rparr>"

definition worker_at :: "pool \<Rightarrow> nat \<Rightarrow> worker \<Rightarrow> bool" where
  "worker_at s i w \<longleftrightarrow> i < length (tp_workers s) \<and> tp_workers s ! i = w"

definition effective :: "pool \<Rightarrow> job \<Rightarrow> lock_mode" where
  "effective s j = effective_lock_mode (lm_policy (tp_lock s)) (job_mode j)"

text \<open>The release of \<open>worker_main\<close>, by the mode the lock was acquired with.\<close>

definition unlock :: "lock_mode \<Rightarrow> lock_manager \<Rightarrow> lock_manager" where
  "unlock mode m =
     (case mode of
        MODE_NONE \<Rightarrow> m
      | MODE_READ \<Rightarrow> fst (release_read m)
      | MODE_WRITE \<Rightarrow> fst (release_write m))"

inductive worker_step :: "pool \<Rightarrow> pool \<Rightarrow> bool" where
  worker_pop: "worker_at s i Popping \<Longrightarrow> job_queue_pop (tp_queue s) = Done (QUEUE_OK, Some j, q') \<Longrightarrow>
    worker_step s (set_worker i (Assigned j) (s\<lparr>tp_queue := q'\<rparr>))"
| worker_exit: "worker_at s i Popping \<Longrightarrow> job_queue_pop (tp_queue s) = Done (QUEUE_CLOSED, None, q') \<Longrightarrow>
    worker_step s (set_worker i Exited (s\<lparr>tp_queue := q'\<rparr>))"
| lock_none: "worker_at s i (Assigned j) \<Longrightarrow> effective s j = MODE_NONE \<Longrightarrow>
    worker_step s (set_worker i (Running j) s)"
| lock_read: "worker_at s i (Assigned j) \<Longrightarrow> effective s j = MODE_READ \<Longrightarrow> \<not> reader_waits (tp_lock s) \<Longrightarrow>
    worker_step s (set_worker i (Running j) (s\<lparr>tp_lock := enter_read (tp_lock s)\<rparr>))"
| lock_write: "worker_at s i (Assigned j) \<Longrightarrow> effective s j = MODE_WRITE \<Longrightarrow>
    \<not> writer_waits (announce_writer (tp_lock s)) \<Longrightarrow>
    worker_step s (set_worker i (Running j) (s\<lparr>tp_lock := enter_write (announce_writer (tp_lock s))\<rparr>))"
| lock_write_wait: "worker_at s i (Assigned j) \<Longrightarrow> effective s j = MODE_WRITE \<Longrightarrow>
    writer_waits (announce_writer (tp_lock s)) \<Longrightarrow>
    worker_step s (set_worker i (Write_Waiting j) (s\<lparr>tp_lock := announce_writer (tp_lock s)\<rparr>))"
| lock_write_resume: "worker_at s i (Write_Waiting j) \<Longrightarrow> \<not> writer_waits (tp_lock s) \<Longrightarrow>
    worker_step s (set_worker i (Running j) (s\<lparr>tp_lock := enter_write (tp_lock s)\<rparr>))"
| run_and_unlock: "worker_at s i (Running j) \<Longrightarrow>
    worker_step s (set_worker i (Ran j status) (s\<lparr>tp_lock := unlock (effective s j) (tp_lock s)\<rparr>))"
| worker_finish: "worker_at s i (Ran j status) \<Longrightarrow>
    worker_step s (set_worker i Popping (s\<lparr>tp_finished := tp_finished s @
      [\<lparr>fin_job = j, fin_result = job_outcome status, fin_worker = int i, fin_status = status\<rparr>]\<rparr>))"

section \<open>Clients and shutdown\<close>

inductive client_step :: "pool \<Rightarrow> pool \<Rightarrow> bool" where
  submit_check: "tp_submitting s t = None \<Longrightarrow> tp_accepting s \<Longrightarrow>
    client_step s (s\<lparr>tp_submitting := (tp_submitting s)(t := Some j)\<rparr>)"
| submit_push: "tp_submitting s t = Some j \<Longrightarrow> job_queue_push (tp_queue s) (Some j) = Done (st, q') \<Longrightarrow>
    client_step s (s\<lparr>tp_queue := q', tp_submitting := (tp_submitting s)(t := None),
      tp_accepted := tp_accepted s @ (if st = QUEUE_OK then [j] else [])\<rparr>)"
| submit_try_push: "tp_submitting s t = Some j \<Longrightarrow> job_queue_try_push (tp_queue s) (Some j) = (st, q') \<Longrightarrow>
    client_step s (s\<lparr>tp_queue := q', tp_submitting := (tp_submitting s)(t := None),
      tp_accepted := tp_accepted s @ (if st = QUEUE_OK then [j] else [])\<rparr>)"
| shutdown_begin: "\<not> tp_shutdown_started s \<Longrightarrow>
    client_step s (s\<lparr>tp_shutdown_started := True, tp_accepting := False, tp_shutdown := Closing mode\<rparr>)"
| shutdown_close: "tp_shutdown s = Closing mode \<Longrightarrow>
    client_step s (s\<lparr>tp_queue := job_queue_close (tp_queue s),
      tp_shutdown := (if mode = SHUTDOWN_CANCEL_PENDING then Cancelling else Joining mode)\<rparr>)"
| shutdown_cancel: "tp_shutdown s = Cancelling \<Longrightarrow> q_size (tp_queue s) > 0 \<Longrightarrow>
    pop_front_locked (tp_queue s) = (j, q') \<Longrightarrow>
    client_step s (s\<lparr>tp_queue := q', tp_finished := tp_finished s @
      [\<lparr>fin_job = j, fin_result = JOB_RESULT_CANCELLED, fin_worker = - 1, fin_status = 0\<rparr>]\<rparr>)"
| shutdown_cancelled: "tp_shutdown s = Cancelling \<Longrightarrow> q_size (tp_queue s) = 0 \<Longrightarrow>
    client_step s (s\<lparr>tp_shutdown := Joining SHUTDOWN_CANCEL_PENDING\<rparr>)"
| shutdown_join: "tp_shutdown s = Joining mode \<Longrightarrow> \<forall>w \<in> set (tp_workers s). w = Exited \<Longrightarrow>
    client_step s (s\<lparr>tp_shutdown := Joined mode\<rparr>)"

definition pool_step :: "pool \<Rightarrow> pool \<Rightarrow> bool" where
  "pool_step s s' \<longleftrightarrow> worker_step s s' \<or> client_step s s'"

definition pool_init :: "nat \<Rightarrow> nat \<Rightarrow> lock_policy \<Rightarrow> pool \<Rightarrow> bool" where
  "pool_init worker_count queue_capacity policy s \<longleftrightarrow>
     thread_pool_init worker_count queue_capacity policy = Some s"

section \<open>Conservation of jobs\<close>

fun held_job :: "worker \<Rightarrow> job list" where
  "held_job (Assigned j) = [j]"
| "held_job (Write_Waiting j) = [j]"
| "held_job (Running j) = [j]"
| "held_job (Ran j status) = [j]"
| "held_job _ = []"

definition held_jobs :: "pool \<Rightarrow> job multiset" where
  "held_jobs s = mset (concat (map held_job (tp_workers s)))"

lemma mset_concat_update:
  "i < length ws \<Longrightarrow> ws ! i = w \<Longrightarrow>
   mset (concat (map f (ws[i := v]))) + mset (f w) = mset (concat (map f ws)) + mset (f v)"
proof (induction ws arbitrary: i)
  case (Cons x ws)
  then show ?case by (cases i) (auto simp: ac_simps)
qed simp

lemma held_jobs_update:
  "worker_at s i w \<Longrightarrow> held_jobs (set_worker i v s) + mset (held_job w) = held_jobs s + mset (held_job v)"
  using mset_concat_update [of i "tp_workers s" w held_job v] by (simp add: held_jobs_def worker_at_def set_worker_def)

text \<open>How a finished job may have ended: run by a worker, or cancelled by a shutdown that cancels.\<close>

definition ran_by_worker :: "nat \<Rightarrow> finished_job \<Rightarrow> bool" where
  "ran_by_worker n f \<longleftrightarrow> 0 \<le> fin_worker f \<and> fin_worker f < int n \<and> fin_result f = job_outcome (fin_status f)"

definition cancelled_job :: "finished_job \<Rightarrow> bool" where
  "cancelled_job f \<longleftrightarrow> fin_worker f = - 1 \<and> fin_result f = JOB_RESULT_CANCELLED \<and> fin_status f = 0"

fun cancels :: "shutdown_phase \<Rightarrow> bool" where
  "cancels Cancelling = True"
| "cancels (Joining mode) = (mode = SHUTDOWN_CANCEL_PENDING)"
| "cancels (Joined mode) = (mode = SHUTDOWN_CANCEL_PENDING)"
| "cancels _ = False"

fun closed_phase :: "shutdown_phase \<Rightarrow> bool" where
  "closed_phase Not_Started = False"
| "closed_phase (Closing mode) = False"
| "closed_phase _ = True"

definition conserved :: "pool \<Rightarrow> bool" where
  "conserved s \<longleftrightarrow>
     mset (tp_accepted s) = mset (map fin_job (tp_finished s)) + held_jobs s + mset (contents (tp_queue s))"

definition pool_inv :: "pool \<Rightarrow> bool" where
  "pool_inv s \<longleftrightarrow> ring_ok (tp_queue s) \<and> q_ready (tp_queue s) \<and> conserved s \<and>
     (tp_shutdown_started s \<longleftrightarrow> tp_shutdown s \<noteq> Not_Started) \<and> (tp_accepting s \<longleftrightarrow> \<not> tp_shutdown_started s) \<and>
     (q_closed (tp_queue s) \<longleftrightarrow> closed_phase (tp_shutdown s)) \<and>
     (Exited \<in> set (tp_workers s) \<longrightarrow> q_closed (tp_queue s) \<and> contents (tp_queue s) = []) \<and>
     (\<forall>mode. tp_shutdown s = Joined mode \<longrightarrow> (\<forall>w \<in> set (tp_workers s). w = Exited)) \<and>
     tp_workers s \<noteq> [] \<and>
     (\<forall>f \<in> set (tp_finished s). ran_by_worker (length (tp_workers s)) f \<or> cancelled_job f \<and> cancels (tp_shutdown s))"

lemma set_worker_simps [simp]:
  "tp_queue (set_worker i w s) = tp_queue s" "tp_lock (set_worker i w s) = tp_lock s"
  "tp_accepting (set_worker i w s) = tp_accepting s"
  "tp_shutdown_started (set_worker i w s) = tp_shutdown_started s"
  "tp_shutdown (set_worker i w s) = tp_shutdown s" "tp_accepted (set_worker i w s) = tp_accepted s"
  "tp_finished (set_worker i w s) = tp_finished s" "tp_submitting (set_worker i w s) = tp_submitting s"
  "tp_workers (set_worker i w s) = (tp_workers s)[i := w]"
  by (simp_all add: set_worker_def)

lemma pool_inv_D:
  assumes "pool_inv s"
  shows "ring_ok (tp_queue s)" "q_ready (tp_queue s)" "conserved s"
    "tp_shutdown_started s \<longleftrightarrow> tp_shutdown s \<noteq> Not_Started" "tp_accepting s \<longleftrightarrow> \<not> tp_shutdown_started s"
    "q_closed (tp_queue s) \<longleftrightarrow> closed_phase (tp_shutdown s)"
    "Exited \<in> set (tp_workers s) \<Longrightarrow> q_closed (tp_queue s) \<and> contents (tp_queue s) = []"
    "tp_shutdown s = Joined mode \<Longrightarrow> \<forall>w \<in> set (tp_workers s). w = Exited" "tp_workers s \<noteq> []"
    "\<forall>f \<in> set (tp_finished s). ran_by_worker (length (tp_workers s)) f \<or> cancelled_job f \<and> cancels (tp_shutdown s)"
  using assms unfolding pool_inv_def by blast+

lemma conserve_arith:
  fixes A :: "'a multiset"
  assumes "A = F + H + C" "H' + w = H + v" "w + C = f + v + C'"
  shows "A = F + f + H' + C'"
proof (rule multiset_eqI)
  fix x
  have "count A x = count F x + count H x + count C x" "count H' x + count w x = count H x + count v x"
    "count w x + count C x = count f x + count v x + count C' x"
    using assms by (metis count_union)+
  then show "count A x = count (F + f + H' + C') x" by simp
qed

text \<open>
  A step of worker \<open>i\<close> from \<open>w\<close> to \<open>v\<close> keeps the invariant if it keeps the jobs, does not touch the
  shutdown, and exits only from a closed and empty queue.
\<close>

lemma pool_inv_worker:
  assumes inv: "pool_inv s" and i: "worker_at s i w" "w \<noteq> Exited"
    and q: "ring_ok q'" "q_ready q'" "q_closed q' = q_closed (tp_queue s)"
      "contents (tp_queue s) = [] \<Longrightarrow> contents q' = []"
    and jobs: "mset (held_job w) + mset (contents (tp_queue s)) =
      mset (map fin_job fs) + mset (held_job v) + mset (contents q')"
    and fs: "\<forall>f \<in> set fs. ran_by_worker (length (tp_workers s)) f"
    and ex: "v = Exited \<Longrightarrow> q_closed q' \<and> contents q' = []"
  shows "pool_inv (set_worker i v (s\<lparr>tp_queue := q', tp_lock := m, tp_finished := tp_finished s @ fs\<rparr>))"
proof -
  let ?s' = "set_worker i v (s\<lparr>tp_queue := q', tp_lock := m, tp_finished := tp_finished s @ fs\<rparr>)"
  have up: "held_jobs ?s' + mset (held_job w) = held_jobs s + mset (held_job v)"
    using held_jobs_update [of "s\<lparr>tp_queue := q', tp_lock := m, tp_finished := tp_finished s @ fs\<rparr>" i w v] i(1)
    by (simp add: held_jobs_def worker_at_def)
  have c: "mset (tp_accepted s) = mset (map fin_job (tp_finished s)) + held_jobs s + mset (contents (tp_queue s))"
    using inv by (simp add: pool_inv_def conserved_def)
  have "conserved ?s'" using conserve_arith [OF c up jobs] by (simp add: conserved_def)
  moreover have "Exited \<in> set ((tp_workers s)[i := v]) \<Longrightarrow> v = Exited \<or> Exited \<in> set (tp_workers s)"
    using set_update_subset_insert [of "tp_workers s" i v] by blast
  moreover have "tp_shutdown s \<noteq> Joined mode" for mode
    using pool_inv_D(8) [OF inv, of mode] i by (auto simp: worker_at_def)
  ultimately show ?thesis
    using pool_inv_D(4-6) [OF inv] pool_inv_D(7) [OF inv] pool_inv_D(9,10) [OF inv] q fs ex
    unfolding pool_inv_def by (simp add: ball_Un) blast
qed

lemma contents_empty: "contents q = [] \<longleftrightarrow> q_size q = 0"
  by (metis length_contents length_0_conv)

lemma worker_step_inv: "worker_step s s' \<Longrightarrow> pool_inv s \<Longrightarrow> pool_inv s'"
proof (induction rule: worker_step.induct)
  case (worker_pop s i j q')
  note D = pool_inv_D [OF worker_pop(3)]
  have p: "q_size (tp_queue s) > 0" "pop_front_locked (tp_queue s) = (j, q')"
    using worker_pop(2) by (simp_all add: queue_replies)
  note c = pop_front_contents [OF D(1) p]
  show ?case
    using pool_inv_worker [OF worker_pop(3,1), of q' "[]" "Assigned j" "tp_lock s"] c pop_front_simps [OF p(2)] D(2)
    by simp
next
  case (worker_exit s i q')
  then show ?case
    using pool_inv_worker [OF worker_exit(3,1), of "tp_queue s" "[]" Exited "tp_lock s"] pool_inv_D [OF worker_exit(3)]
    by (simp add: queue_replies contents_empty)
next
  case (worker_finish s i j status)
  have "ran_by_worker (length (tp_workers s))
      \<lparr>fin_job = j, fin_result = job_outcome status, fin_worker = int i, fin_status = status\<rparr>"
    using worker_finish(1) by (simp add: ran_by_worker_def worker_at_def)
  then show ?case
    using pool_inv_worker [OF worker_finish(2,1), of "tp_queue s"
        "[\<lparr>fin_job = j, fin_result = job_outcome status, fin_worker = int i, fin_status = status\<rparr>]" Popping "tp_lock s"]
      pool_inv_D [OF worker_finish(2)] by simp
next
  case (lock_none s i j)
  then show ?case
    using pool_inv_worker [OF lock_none(3,1), of "tp_queue s" "[]" "Running j" "tp_lock s"] pool_inv_D [OF lock_none(3)]
    by simp
next
  case (lock_read s i j)
  then show ?case
    using pool_inv_worker [OF lock_read(4,1), of "tp_queue s" "[]" "Running j"] pool_inv_D [OF lock_read(4)] by simp
next
  case (lock_write s i j)
  then show ?case
    using pool_inv_worker [OF lock_write(4,1), of "tp_queue s" "[]" "Running j"] pool_inv_D [OF lock_write(4)] by simp
next
  case (lock_write_wait s i j)
  then show ?case
    using pool_inv_worker [OF lock_write_wait(4,1), of "tp_queue s" "[]" "Write_Waiting j"]
      pool_inv_D [OF lock_write_wait(4)] by simp
next
  case (lock_write_resume s i j)
  then show ?case
    using pool_inv_worker [OF lock_write_resume(3,1), of "tp_queue s" "[]" "Running j"]
      pool_inv_D [OF lock_write_resume(3)] by simp
next
  case (run_and_unlock s i j status)
  then show ?case
    using pool_inv_worker [OF run_and_unlock(2,1), of "tp_queue s" "[]" "Ran j status"]
      pool_inv_D [OF run_and_unlock(2)] by simp
qed

lemma pool_inv_accept:
  assumes inv: "pool_inv s" and q: "\<not> q_closed (tp_queue s)" "q_size (tp_queue s) \<noteq> q_capacity (tp_queue s)"
  shows "pool_inv (s\<lparr>tp_queue := store_job (tp_queue s) j, tp_submitting := sub, tp_accepted := tp_accepted s @ [j]\<rparr>)"
proof -
  note D = pool_inv_D [OF inv]
  have "q_size (tp_queue s) < q_capacity (tp_queue s)" using q(2) D(1) by (simp add: ring_ok_def)
  note c = store_job_contents [OF D(1) this, of j]
  have "Exited \<notin> set (tp_workers s)" using D(7) q(1) by blast
  then show ?thesis using D q(1) c by (simp add: pool_inv_def conserved_def held_jobs_def)
qed

lemma pool_inv_submitting: "pool_inv s \<Longrightarrow> pool_inv (s\<lparr>tp_submitting := sub\<rparr>)"
  by (auto simp: pool_inv_def conserved_def held_jobs_def)

lemma pool_inv_cancel:
  assumes inv: "pool_inv s" and c: "tp_shutdown s = Cancelling"
    and q: "q_size (tp_queue s) > 0" "pop_front_locked (tp_queue s) = (j, q')"
  shows "pool_inv (s\<lparr>tp_queue := q', tp_finished := tp_finished s @
      [\<lparr>fin_job = j, fin_result = JOB_RESULT_CANCELLED, fin_worker = - 1, fin_status = 0\<rparr>]\<rparr>)"
proof -
  note D = pool_inv_D [OF inv]
  note p = pop_front_contents [OF D(1) q] pop_front_simps [OF q(2)]
  have "cancelled_job \<lparr>fin_job = j, fin_result = JOB_RESULT_CANCELLED, fin_worker = - 1, fin_status = 0\<rparr>"
    by (simp add: cancelled_job_def)
  moreover have "Exited \<notin> set (tp_workers s)" using D(7) p(2) by auto
  ultimately show ?thesis using D c p by (auto simp: pool_inv_def conserved_def held_jobs_def)
qed

lemma client_step_inv: "client_step s s' \<Longrightarrow> pool_inv s \<Longrightarrow> pool_inv s'"
proof (induction rule: client_step.induct)
  case (submit_push s t j st q')
  show ?case
  proof (cases "st = QUEUE_OK")
    case True
    then show ?thesis
      using submit_push pool_inv_accept [OF submit_push(3), of j "(tp_submitting s)(t := None)"]
      by (simp add: queue_replies)
  next
    case False
    then have "q' = tp_queue s" using submit_push(2) push_refused_same by blast
    with False show ?thesis using pool_inv_submitting [OF submit_push(3)] by simp
  qed
next
  case (submit_try_push s t j st q')
  show ?case
  proof (cases "st = QUEUE_OK")
    case True
    then show ?thesis
      using submit_try_push pool_inv_accept [OF submit_try_push(3), of j "(tp_submitting s)(t := None)"]
      by (simp add: queue_replies)
  next
    case False
    then have "q' = tp_queue s" using submit_try_push(2) by (auto simp: job_queue_try_push_def split: if_splits)
    with False show ?thesis using pool_inv_submitting [OF submit_try_push(3)] by simp
  qed
next
  case (shutdown_cancel s j q')
  then show ?case by (intro pool_inv_cancel)
next
  case (shutdown_close s mode)
  have "contents (q\<lparr>q_closed := True\<rparr>) = contents q" "ring_ok (q\<lparr>q_closed := True\<rparr>) = ring_ok q" for q
    by (simp_all add: contents_def ring_ok_def)
  then show ?case using shutdown_close
    by (auto simp: pool_inv_def conserved_def held_jobs_def job_queue_close_def)
qed (auto simp: pool_inv_def conserved_def held_jobs_def)

lemma pool_init_inv: "pool_init n capacity policy s \<Longrightarrow> pool_inv s"
  using job_queue_init_ok [of capacity "tp_queue s"]
  by (auto simp: pool_init_def thread_pool_init_def pool_inv_def conserved_def held_jobs_def job_queue_init_def
      split: if_splits)

interpretation pool: invariant_system "pool_init n capacity policy" pool_step pool_inv
  by unfold_locales (auto simp: pool_step_def intro: pool_init_inv worker_step_inv client_step_inv)

section \<open>The lock as the workers use it\<close>

text \<open>
  The workers seen as threads of the lock manager: an assigned worker has not asked for the lock, a
  waiting writer is one that keeps re-checking its condition, and a running worker holds the lock
  in the effective mode of its job. Under this view every step of the pool is a sequence of steps
  of the lock, so the lock's theorems hold for the pool.
\<close>

definition holding_phase :: "lock_mode \<Rightarrow> phase" where
  "holding_phase mode = (case mode of MODE_NONE \<Rightarrow> Idle | MODE_READ \<Rightarrow> Reading | MODE_WRITE \<Rightarrow> Writing)"

fun lock_phase :: "lock_policy \<Rightarrow> worker \<Rightarrow> phase" where
  "lock_phase policy (Write_Waiting j) = WriteWoken"
| "lock_phase policy (Running j) = holding_phase (effective_lock_mode policy (job_mode j))"
| "lock_phase policy _ = Idle"

definition worker_phases :: "lock_policy \<Rightarrow> worker list \<Rightarrow> nat \<Rightarrow> phase" where
  "worker_phases policy ws i = (if i < length ws then lock_phase policy (ws ! i) else Idle)"

definition lock_view :: "pool \<Rightarrow> lock_state" where
  "lock_view s = \<lparr>ls_lock = tp_lock s, ls_phase = worker_phases (lm_policy (tp_lock s)) (tp_workers s)\<rparr>"

definition view_inv :: "lock_policy \<Rightarrow> pool \<Rightarrow> bool" where
  "view_inv policy s \<longleftrightarrow> lm_policy (tp_lock s) = policy \<and>
     reachable (lock_init policy) lock_step (lock_view s) \<and>
     (\<forall>j. Write_Waiting j \<in> set (tp_workers s) \<longrightarrow> effective s j = MODE_WRITE)"

lemma worker_phases_update:
  "i < length ws \<Longrightarrow> worker_phases policy (ws[i := w]) = (worker_phases policy ws)(i := lock_phase policy w)"
  by (auto simp: worker_phases_def fun_eq_iff nth_list_update)

lemma worker_phases_unblocked: "worker_phases policy ws t \<noteq> ReadBlocked" "worker_phases policy ws t \<noteq> WriteBlocked"
  by (cases "ws ! t"; auto simp: worker_phases_def holding_phase_def split: lock_mode.splits)+

lemma worker_phases_at: "worker_at s i w \<Longrightarrow> worker_phases policy (tp_workers s) i = lock_phase policy w"
  by (auto simp: worker_at_def worker_phases_def)

lemma woken_unblocked: "\<forall>t. ph t \<noteq> ReadBlocked \<and> ph t \<noteq> WriteBlocked \<Longrightarrow> woken k ph ph"
proof -
  assume a: "\<forall>t. ph t \<noteq> ReadBlocked \<and> ph t \<noteq> WriteBlocked"
  then have "wake_all ReadBlocked ReadWoken ph = ph" by (auto simp: wake_all_def fun_eq_iff)
  with a show ?thesis using no_wakeup signal_none broadcast [of ph] by (cases k) auto
qed

lemma lock_updates_policy [simp]:
  "lm_policy (enter_read m) = lm_policy m" "lm_policy (enter_write m) = lm_policy m"
  "lm_policy (announce_writer m) = lm_policy m" "lm_policy (unlock mode m) = lm_policy m"
  by (auto simp: lock_updates unlock_def Let_def split: lock_mode.splits)

text \<open>A worker changes its place and the lock: the view makes the corresponding steps.\<close>

lemma view_inv_worker:
  assumes inv: "view_inv policy s" and i: "worker_at s i w" and m: "lm_policy m = policy"
    and v: "\<And>j. v = Write_Waiting j \<Longrightarrow> effective_lock_mode policy (job_mode j) = MODE_WRITE"
    and run: "lock_step\<^sup>*\<^sup>* (lock_view s)
      \<lparr>ls_lock = m, ls_phase = (worker_phases policy (tp_workers s))(i := lock_phase policy v)\<rparr>"
  shows "view_inv policy (set_worker i v (s\<lparr>tp_lock := m\<rparr>))"
proof -
  have step_closed: "reachable (lock_init policy) lock_step b"
    if "lock_step\<^sup>*\<^sup>* a b" "reachable (lock_init policy) lock_step a" for a b
    using that by (induction rule: rtranclp_induct) (auto intro: reach_step)
  have "lock_view (set_worker i v (s\<lparr>tp_lock := m\<rparr>)) =
      \<lparr>ls_lock = m, ls_phase = (worker_phases policy (tp_workers s))(i := lock_phase policy v)\<rparr>"
    using i m worker_phases_update [of i "tp_workers s" policy v] by (simp add: lock_view_def worker_at_def)
  then have "reachable (lock_init policy) lock_step (lock_view (set_worker i v (s\<lparr>tp_lock := m\<rparr>)))"
    using step_closed [OF run] inv by (simp add: view_inv_def)
  moreover have "Write_Waiting j \<in> set ((tp_workers s)[i := v]) \<Longrightarrow> effective_lock_mode policy (job_mode j) = MODE_WRITE" for j
    using set_update_subset_insert [of "tp_workers s" i v] v inv by (auto simp: view_inv_def effective_def)
  ultimately show ?thesis using m by (simp add: view_inv_def effective_def)
qed

lemma view_inv_same:
  "tp_lock s' = tp_lock s \<Longrightarrow> tp_workers s' = tp_workers s \<Longrightarrow> view_inv policy s' = view_inv policy s"
  by (simp add: view_inv_def lock_view_def effective_def)

lemma lock_view_state: "view_inv policy s \<Longrightarrow>
  lock_view s = \<lparr>ls_lock = tp_lock s, ls_phase = worker_phases policy (tp_workers s)\<rparr>"
  by (simp add: lock_view_def view_inv_def)

text \<open>Steps of workers that neither hold nor want the lock leave the view as it is.\<close>

lemma view_inv_idle:
  assumes "view_inv policy s" "worker_at s i w" "lock_phase policy w = Idle" "lock_phase policy v = Idle"
  shows "view_inv policy (set_worker i v s)"
proof -
  have "(worker_phases policy (tp_workers s))(i := Idle) = worker_phases policy (tp_workers s)"
    using worker_phases_at [OF assms(2), of policy] assms(3) by (auto simp: fun_eq_iff)
  moreover have "lm_policy (tp_lock s) = policy" using assms(1) by (simp add: view_inv_def)
  ultimately have "view_inv policy (set_worker i v (s\<lparr>tp_lock := tp_lock s\<rparr>))"
    using assms by (intro view_inv_worker) (auto simp: lock_view_state)
  then show ?thesis by simp
qed

lemma view_inv_unlock:
  assumes inv: "view_inv policy s" and i: "worker_at s i (Running j)"
  shows "view_inv policy (set_worker i (Ran j status) (s\<lparr>tp_lock := unlock (effective s j) (tp_lock s)\<rparr>))"
proof -
  let ?ph = "worker_phases policy (tp_workers s)" and ?m = "tp_lock s"
  have pol: "lm_policy ?m = policy" using inv by (simp add: view_inv_def)
  then have e: "effective s j = effective_lock_mode policy (job_mode j)" by (simp add: effective_def)
  have at: "?ph i = holding_phase (effective s j)" using worker_phases_at [OF i, of policy] e by simp
  have wk: "woken k (?ph(i := Idle)) (?ph(i := Idle))" for k
    by (rule woken_unblocked) (simp add: worker_phases_unblocked)
  have "lock_step\<^sup>*\<^sup>* \<lparr>ls_lock = ?m, ls_phase = ?ph\<rparr> \<lparr>ls_lock = unlock (effective s j) ?m, ls_phase = ?ph(i := Idle)\<rparr>"
  proof (cases "effective s j")
    case MODE_NONE
    then have "?ph(i := Idle) = ?ph" using at by (auto simp: holding_phase_def fun_eq_iff)
    then show ?thesis using MODE_NONE by (simp add: unlock_def)
  next
    case MODE_READ
    obtain m' k where "release_read ?m = (m', k)" by fastforce
    then show ?thesis using MODE_READ at read_release [of ?ph i ?m m' k, OF _ _ wk]
      by (simp add: unlock_def holding_phase_def)
  next
    case MODE_WRITE
    obtain m' k where "release_write ?m = (m', k)" by fastforce
    then show ?thesis using MODE_WRITE at write_release [of ?ph i ?m m' k, OF _ _ wk]
      by (simp add: unlock_def holding_phase_def)
  qed
  then show ?thesis using inv i pol by (intro view_inv_worker) (auto simp: lock_view_state)
qed

lemma worker_step_view: "worker_step s s' \<Longrightarrow> view_inv policy s \<Longrightarrow> view_inv policy s'"
proof (induction rule: worker_step.induct)
  case (worker_pop s i j q')
  have "view_inv policy (set_worker i (Assigned j) s)"
    using view_inv_idle [OF worker_pop(3,1)] by simp
  then show ?case using view_inv_same [of "set_worker i (Assigned j) (s\<lparr>tp_queue := q'\<rparr>)" "set_worker i (Assigned j) s"]
    by simp
next
  case (worker_exit s i q')
  have "view_inv policy (set_worker i Exited s)"
    using view_inv_idle [OF worker_exit(3,1)] by simp
  then show ?case using view_inv_same [of "set_worker i Exited (s\<lparr>tp_queue := q'\<rparr>)" "set_worker i Exited s"]
    by simp
next
  case (lock_none s i j)
  then have "lock_phase policy (Running j) = Idle" by (simp add: effective_def view_inv_def holding_phase_def)
  then show ?case using view_inv_idle [OF lock_none(3,1)] by simp
next
  case (lock_read s i j)
  note inv = lock_read(4)
  have pol: "lm_policy (tp_lock s) = policy" using inv by (simp add: view_inv_def)
  have "lock_step (lock_view s) \<lparr>ls_lock = enter_read (tp_lock s),
      ls_phase = (worker_phases policy (tp_workers s))(i := Reading)\<rparr>"
    unfolding lock_view_state [OF inv] using lock_read(1-3) pol worker_phases_at [OF lock_read(1), of policy]
    by (intro read_enter [where mode = "job_mode j"]) (simp_all add: effective_def)
  then show ?case using lock_read pol
    by (intro view_inv_worker [OF inv lock_read(1)]) (auto simp: effective_def holding_phase_def)
next
  case (lock_write s i j)
  note inv = lock_write(4)
  have pol: "lm_policy (tp_lock s) = policy" using inv by (simp add: view_inv_def)
  have "lock_step (lock_view s) \<lparr>ls_lock = enter_write (announce_writer (tp_lock s)),
      ls_phase = (worker_phases policy (tp_workers s))(i := Writing)\<rparr>"
    unfolding lock_view_state [OF inv] using lock_write(1-3) pol worker_phases_at [OF lock_write(1), of policy]
    by (intro write_enter [where mode = "job_mode j"]) (simp_all add: effective_def)
  then show ?case using lock_write pol
    by (intro view_inv_worker [OF inv lock_write(1)]) (auto simp: effective_def holding_phase_def)
next
  case (lock_write_wait s i j)
  note inv = lock_write_wait(4)
  let ?ph = "worker_phases policy (tp_workers s)" and ?m = "announce_writer (tp_lock s)"
  have pol: "lm_policy (tp_lock s) = policy" using inv by (simp add: view_inv_def)
  have "lock_step (lock_view s) \<lparr>ls_lock = ?m, ls_phase = ?ph(i := WriteBlocked)\<rparr>"
    unfolding lock_view_state [OF inv] using lock_write_wait(1-3) pol worker_phases_at [OF lock_write_wait(1), of policy]
    by (intro write_wait [where mode = "job_mode j"]) (simp_all add: effective_def)
  moreover have "lock_step \<lparr>ls_lock = ?m, ls_phase = ?ph(i := WriteBlocked)\<rparr> \<lparr>ls_lock = ?m, ls_phase = ?ph(i := WriteWoken)\<rparr>"
    using spurious_writer [of "?ph(i := WriteBlocked)" i ?m] by simp
  ultimately have "lock_step\<^sup>*\<^sup>* (lock_view s) \<lparr>ls_lock = ?m, ls_phase = ?ph(i := WriteWoken)\<rparr>" by simp
  then show ?case using lock_write_wait pol
    by (intro view_inv_worker [OF inv lock_write_wait(1)]) (auto simp: effective_def)
next
  case (lock_write_resume s i j)
  note inv = lock_write_resume(3)
  have pol: "lm_policy (tp_lock s) = policy" using inv by (simp add: view_inv_def)
  have e: "effective_lock_mode policy (job_mode j) = MODE_WRITE"
    using inv lock_write_resume(1) nth_mem [of i "tp_workers s"] pol by (auto simp: view_inv_def worker_at_def effective_def)
  have "lock_step (lock_view s) \<lparr>ls_lock = enter_write (tp_lock s),
      ls_phase = (worker_phases policy (tp_workers s))(i := Writing)\<rparr>"
    unfolding lock_view_state [OF inv] using lock_write_resume(1,2) worker_phases_at [OF lock_write_resume(1), of policy]
    by (intro write_resume) simp_all
  then show ?case using lock_write_resume pol e
    by (intro view_inv_worker [OF inv lock_write_resume(1)]) (auto simp: holding_phase_def)
next
  case (run_and_unlock s i j status)
  then show ?case by (intro view_inv_unlock)
next
  case (worker_finish s i j status)
  let ?f = "\<lparr>fin_job = j, fin_result = job_outcome status, fin_worker = int i, fin_status = status\<rparr>"
  have "view_inv policy (set_worker i Popping s)" using view_inv_idle [OF worker_finish(2,1)] by simp
  then show ?case
    using view_inv_same [of "set_worker i Popping (s\<lparr>tp_finished := tp_finished s @ [?f]\<rparr>)" "set_worker i Popping s"]
    by simp
qed

lemma client_step_view: "client_step s s' \<Longrightarrow> view_inv policy s \<Longrightarrow> view_inv policy s'"
  by (induction rule: client_step.induct) (erule iffD2 [OF view_inv_same, rotated 2]; simp)+

lemma pool_init_view:
  assumes "pool_init n capacity policy s"
  shows "view_inv policy s"
proof -
  have s: "tp_lock s = lock_manager_init policy" "tp_workers s = replicate n Popping"
    using assms by (auto simp: pool_init_def thread_pool_init_def split: if_splits)
  then have "lock_view s = \<lparr>ls_lock = lock_manager_init policy, ls_phase = (\<lambda>_. Idle)\<rparr>"
    by (auto simp: lock_view_def worker_phases_def fun_eq_iff)
  then have "reachable (lock_init policy) lock_step (lock_view s)" by (intro reach_init) (simp add: lock_init_def)
  with s show ?thesis by (simp add: view_inv_def lock_manager_init_def)
qed

interpretation pool_view: invariant_system "pool_init n capacity policy" pool_step "view_inv policy"
  by unfold_locales (auto simp: pool_step_def intro: pool_init_view worker_step_view client_step_view)

section \<open>Progress of the workers\<close>

text \<open>The steps of workers that remain to be done: those of held jobs, of queued jobs and of exiting.\<close>

fun worker_work :: "worker \<Rightarrow> nat" where
  "worker_work (Assigned j) = 5"
| "worker_work (Write_Waiting j) = 4"
| "worker_work (Running j) = 3"
| "worker_work (Ran j status) = 2"
| "worker_work Popping = 1"
| "worker_work Exited = 0"

definition pool_work :: "pool \<Rightarrow> nat" where
  "pool_work s = 6 * q_size (tp_queue s) + sum_list (map worker_work (tp_workers s))"

lemma sum_list_update:
  fixes f :: "'a \<Rightarrow> nat"
  shows "i < length ws \<Longrightarrow> ws ! i = w \<Longrightarrow> sum_list (map f (ws[i := v])) + f w = sum_list (map f ws) + f v"
proof (induction ws arbitrary: i)
  case (Cons x ws)
  then show ?case by (cases i) force+
qed simp

lemma work_less:
  assumes "worker_at s i w" "tp_workers t = tp_workers s"
    "6 * q_size (tp_queue t) + worker_work v < 6 * q_size (tp_queue s) + worker_work w"
  shows "pool_work (set_worker i v t) < pool_work s"
  using sum_list_update [of i "tp_workers s" w worker_work v] assms by (simp add: pool_work_def worker_at_def)

lemma worker_step_work: "worker_step s s' \<Longrightarrow> pool_work s' < pool_work s"
proof (induction rule: worker_step.induct)
  case (worker_pop s i j q')
  have "q_size (tp_queue s) > 0" "q_size q' = q_size (tp_queue s) - 1"
    using worker_pop(2) pop_front_simps by (auto simp: queue_replies)
  then show ?case by (intro work_less [OF worker_pop(1)]) simp_all
qed (erule work_less; simp add: queue_replies)+

lemma worker_steps_work: "(worker_step ^^ n) s s' \<Longrightarrow> n + pool_work s' \<le> pool_work s"
proof (induction n arbitrary: s')
  case (Suc n)
  then obtain t where "(worker_step ^^ n) s t" "worker_step t s'" by auto
  with Suc.IH [of t] worker_step_work [of t s'] show ?case by simp
qed simp

lemma worker_step_shutdown: "worker_step s s' \<Longrightarrow> tp_shutdown s' = tp_shutdown s"
  by (induction rule: worker_step.induct) simp_all

lemma worker_exists: "w \<in> set (tp_workers s) \<Longrightarrow> \<exists>i. worker_at s i w"
  by (auto simp: worker_at_def in_set_conv_nth)

text \<open>When no worker runs a job, nobody holds the lock.\<close>

lemma idle_lock:
  assumes "view_inv policy s" "\<And>j. Running j \<notin> set (tp_workers s)"
  shows "active_readers (tp_lock s) = 0" "\<not> writer_active (tp_lock s)"
    and "(\<And>j. Write_Waiting j \<notin> set (tp_workers s)) \<Longrightarrow> waiting_writers (tp_lock s) = 0"
proof -
  let ?v = "lock_view s"
  have v: "lock_inv ?v" using assms(1) rwlock.reachable_inv by (auto simp: view_inv_def)
  have free: "ls_phase ?v t \<noteq> Reading" "ls_phase ?v t \<noteq> Writing" for t
    using assms(2) nth_mem [of t "tp_workers s"] lock_view_state [OF assms(1)]
    by (cases "tp_workers s ! t"; auto simp: worker_phases_def)+
  have c: "counts_ok (tp_lock s) (phase_count (ls_phase ?v))"
    using lock_inv_counts [OF v] lock_view_state [OF assms(1)] by simp
  show "active_readers (tp_lock s) = 0" "\<not> writer_active (tp_lock s)"
    using c lock_inv_thread [OF v, of Reading] lock_inv_thread [OF v, of Writing] free
    by (auto simp: counts_ok_def split: if_splits)
  assume "\<And>j. Write_Waiting j \<notin> set (tp_workers s)"
  then have "ls_phase ?v t \<noteq> WriteWoken" "ls_phase ?v t \<noteq> WriteBlocked" for t
    using assms(2) nth_mem [of t "tp_workers s"] lock_view_state [OF assms(1)] worker_phases_unblocked
    by (cases "tp_workers s ! t"; auto simp: worker_phases_def)+
  then show "waiting_writers (tp_lock s) = 0"
    using c lock_inv_thread [OF v, of WriteWoken] lock_inv_thread [OF v, of WriteBlocked]
    by (auto simp: counts_ok_def)
qed

lemma lock_available:
  assumes v: "view_inv policy s" and no_run: "\<And>j. Running j \<notin> set (tp_workers s)"
    and w: "Assigned j \<in> set (tp_workers s) \<or> Write_Waiting j \<in> set (tp_workers s)"
  shows "\<exists>s'. worker_step s s'"
proof (cases "\<exists>k. Write_Waiting k \<in> set (tp_workers s)")
  case True
  then obtain k i where "worker_at s i (Write_Waiting k)" using worker_exists by blast
  moreover have "\<not> writer_waits (tp_lock s)" using idle_lock [OF v no_run] by (simp add: writer_waits_def)
  ultimately show ?thesis using lock_write_resume by blast
next
  case False
  then obtain i where i: "worker_at s i (Assigned j)" using w worker_exists by blast
  have "\<not> writer_waits (announce_writer (tp_lock s))" "\<not> reader_waits (tp_lock s)"
    using idle_lock [OF v no_run] False by (simp_all add: lock_updates)
  with i show ?thesis
    by (cases "effective s j") (blast intro: lock_none lock_read lock_write)+
qed

lemma worker_progress:
  assumes inv: "pool_inv s" and v: "view_inv policy s" and c: "q_closed (tp_queue s)"
    and w: "w \<in> set (tp_workers s)" "w \<noteq> Exited"
  shows "\<exists>s'. worker_step s s'"
proof (cases "\<exists>j. Running j \<in> set (tp_workers s)")
  case True
  then show ?thesis using worker_exists run_and_unlock by blast
next
  case False
  obtain i where i: "worker_at s i w" using worker_exists [OF w(1)] by blast
  show ?thesis
  proof (cases w)
    case Popping
    show ?thesis
    proof (cases "q_size (tp_queue s) = 0")
      case True
      then have "job_queue_pop (tp_queue s) = Done (QUEUE_CLOSED, None, tp_queue s)"
        using pool_inv_D(2) [OF inv] c by (simp add: queue_replies)
      then show ?thesis using i Popping worker_exit by blast
    next
      case False
      obtain j q' where "pop_front_locked (tp_queue s) = (j, q')" by fastforce
      then have "job_queue_pop (tp_queue s) = Done (QUEUE_OK, Some j, q')"
        using False pool_inv_D(2) [OF inv] by (simp add: queue_replies)
      then show ?thesis using i Popping worker_pop by blast
    qed
  next
    case (Ran j status)
    then show ?thesis using i worker_finish by blast
  qed (use False w lock_available [OF v] in blast)+
qed

lemma workers_drain:
  assumes "pool_inv s" "view_inv policy s" "tp_shutdown s = Joining mode"
  shows "\<exists>s'. worker_step\<^sup>*\<^sup>* s s' \<and> tp_shutdown s' = Joining mode \<and> (\<forall>w \<in> set (tp_workers s'). w = Exited)"
  using assms
proof (induction "pool_work s" arbitrary: s rule: less_induct)
  case less
  show ?case
  proof (cases "\<forall>w \<in> set (tp_workers s). w = Exited")
    case True
    then show ?thesis using less.prems(3) by blast
  next
    case False
    then obtain w where "w \<in> set (tp_workers s)" "w \<noteq> Exited" by blast
    moreover have "q_closed (tp_queue s)" using pool_inv_D(6) [OF less.prems(1)] less.prems(3) by simp
    ultimately obtain t where t: "worker_step s t" using worker_progress less.prems(1,2) by blast
    have "tp_shutdown t = Joining mode" using worker_step_shutdown [OF t] less.prems(3) by simp
    from less.hyps [OF worker_step_work [OF t] worker_step_inv [OF t less.prems(1)] worker_step_view [OF t less.prems(2)] this]
    show ?thesis using t by (meson converse_rtranclp_into_rtranclp)
  qed
qed

lemma worker_step_accepted: "worker_step s s' \<Longrightarrow> tp_accepted s' = tp_accepted s"
  by (induction rule: worker_step.induct) simp_all

lemma worker_steps_accepted: "worker_step\<^sup>*\<^sup>* s s' \<Longrightarrow> tp_accepted s' = tp_accepted s"
  by (induction rule: rtranclp_induct) (simp_all add: worker_step_accepted)

lemma pool_reachable_steps:
  "reachable (pool_init n capacity policy) pool_step s \<Longrightarrow> pool_step\<^sup>*\<^sup>* s s' \<Longrightarrow>
   reachable (pool_init n capacity policy) pool_step s'"
  by (rotate_tac 1, induction rule: rtranclp_induct) (auto intro: reach_step)

lemma worker_steps_pool: "worker_step\<^sup>*\<^sup>* s s' \<Longrightarrow> pool_step\<^sup>*\<^sup>* s s'"
  by (erule rtranclp_mono [THEN predicate2D, rotated]) (auto simp: pool_step_def)

section \<open>A sample pool\<close>

text \<open>
  Two workers and a queue of one slot. A client submits a job that writes; in \<open>sample_running\<close> worker 0
  runs it, in \<open>sample_joining\<close> the pool is being shut down in drain mode with the job still queued.
\<close>

definition write_job :: job where
  "write_job = sample_job\<lparr>job_mode := MODE_WRITE\<rparr>"

definition sample_pool :: pool where
  "sample_pool = the (thread_pool_init 2 1 SERIAL_ALL)"

definition sample_submitted :: pool where
  "sample_submitted = sample_pool\<lparr>tp_queue := store_job (tp_queue sample_pool) write_job, tp_accepted := [write_job]\<rparr>"

definition sample_assigned :: pool where
  "sample_assigned = set_worker 0 (Assigned write_job)
     (sample_submitted\<lparr>tp_queue := snd (pop_front_locked (tp_queue sample_submitted))\<rparr>)"

definition sample_running :: pool where
  "sample_running = set_worker 0 (Running write_job)
     (sample_assigned\<lparr>tp_lock := enter_write (announce_writer (tp_lock sample_assigned))\<rparr>)"

definition sample_joining :: pool where
  "sample_joining = sample_submitted\<lparr>tp_shutdown_started := True, tp_accepting := False,
     tp_queue := job_queue_close (tp_queue sample_submitted), tp_shutdown := Joining SHUTDOWN_DRAIN\<rparr>"

lemma sample_submitted_reachable: "reachable (pool_init 2 1 SERIAL_ALL) pool_step sample_submitted"
proof -
  let ?s = "sample_pool\<lparr>tp_submitting := (tp_submitting sample_pool)(0 := Some write_job)\<rparr>"
  have "reachable (pool_init 2 1 SERIAL_ALL) pool_step sample_pool"
    by (rule reach_init) (simp add: pool_init_def sample_pool_def thread_pool_init_def)
  moreover have "client_step sample_pool ?s"
    by (rule submit_check) (simp_all add: sample_pool_def thread_pool_init_def)
  moreover have "job_queue_push (tp_queue ?s) (Some write_job) = Done (QUEUE_OK, store_job (tp_queue sample_pool) write_job)"
    by code_simp
  then have "client_step ?s (?s\<lparr>tp_queue := store_job (tp_queue sample_pool) write_job,
      tp_submitting := (tp_submitting ?s)(0 := None), tp_accepted := tp_accepted ?s @ [write_job]\<rparr>)"
    using submit_push [of ?s 0 write_job] by simp
  then have "client_step ?s sample_submitted"
    by (simp add: sample_submitted_def sample_pool_def thread_pool_init_def fun_upd_idem)
  ultimately show ?thesis by (metis reach_step pool_step_def)
qed

lemma sample_running_reachable: "reachable (pool_init 2 1 SERIAL_ALL) pool_step sample_running"
proof -
  have "worker_at sample_submitted 0 Popping" "worker_at sample_assigned 0 (Assigned write_job)"
    "effective sample_assigned write_job = MODE_WRITE" "\<not> writer_waits (announce_writer (tp_lock sample_assigned))"
    "job_queue_pop (tp_queue sample_submitted) =
      Done (QUEUE_OK, Some write_job, snd (pop_front_locked (tp_queue sample_submitted)))" by code_simp+
  then have "worker_step sample_submitted sample_assigned" "worker_step sample_assigned sample_running"
    unfolding sample_running_def using worker_pop [of sample_submitted 0] lock_write [of sample_assigned 0]
    by (simp_all add: sample_assigned_def)
  then show ?thesis using sample_submitted_reachable by (metis reach_step pool_step_def)
qed

lemma sample_joining_reachable: "reachable (pool_init 2 1 SERIAL_ALL) pool_step sample_joining"
proof -
  let ?s = "sample_submitted\<lparr>tp_shutdown_started := True, tp_accepting := False, tp_shutdown := Closing SHUTDOWN_DRAIN\<rparr>"
  have "\<not> tp_shutdown_started sample_submitted" by code_simp
  then have "client_step sample_submitted ?s" by (rule shutdown_begin)
  moreover have "client_step ?s sample_joining"
    using shutdown_close [of ?s SHUTDOWN_DRAIN] by (simp add: sample_joining_def)
  ultimately show ?thesis using sample_submitted_reachable by (metis reach_step pool_step_def)
qed

section \<open>Properties of the pool\<close>

text \<open>
  Conservation of jobs: at every moment each job the pool has accepted is in exactly one place:
  it is waiting in the queue, held by one worker, or finished; none is lost or handled twice.
\<close>

theorem pool_conserves_jobs:
  assumes "reachable (pool_init n capacity policy) pool_step s"
  shows "mset (tp_accepted s) =
    mset (map fin_job (tp_finished s)) + held_jobs s + mset (contents (tp_queue s))"
  using pool_inv_D(3) [OF pool.reachable_inv [OF assms]] by (simp only: conserved_def)

theorem pool_conserves_jobs_witness:
  "mset (tp_accepted sample_running) = {#write_job#} \<and> held_jobs sample_running = {#write_job#}"
proof -
  have "tp_accepted sample_running = [write_job]" "tp_finished sample_running = []"
    "contents (tp_queue sample_running) = []" by code_simp+
  with pool_conserves_jobs [OF sample_running_reachable] show ?thesis by simp
qed

text \<open>
  C26 (exclusive execution): while a worker runs a job whose effective lock mode is the write mode, no
  other worker runs a job that uses the lock at all; under \<open>SERIAL_ALL\<close> this applies to every job
  with a lock mode.
\<close>

theorem pool_run_exclusion:
  assumes "reachable (pool_init n capacity policy) pool_step s"
    and "worker_at s i (Running a)" "worker_at s k (Running b)" "i \<noteq> k"
    and "effective_lock_mode policy (job_mode a) = MODE_WRITE"
  shows "effective_lock_mode policy (job_mode b) = MODE_NONE"
proof -
  have v: "view_inv policy s" by (rule pool_view.reachable_inv [OF assms(1)])
  then have inv: "lock_inv (lock_view s)" using rwlock.reachable_inv by (auto simp: view_inv_def)
  have a: "ls_phase (lock_view s) i = Writing"
    and b: "ls_phase (lock_view s) k = holding_phase (effective_lock_mode policy (job_mode b))"
    using worker_phases_at [OF assms(2), of policy] worker_phases_at [OF assms(3), of policy] assms(5)
    by (simp_all add: lock_view_state [OF v] holding_phase_def)
  show ?thesis
    using writer_excludes [OF inv a, of k] single_writer [OF inv a, of k] assms(4) b
    by (cases "effective_lock_mode policy (job_mode b)") (auto simp: holding_phase_def)
qed

theorem pool_run_exclusion_witness:
  "worker_at sample_running 0 (Running write_job) \<and> (\<nexists>b. worker_at sample_running 1 (Running b) \<and> job_mode b = MODE_READ)"
proof -
  have w: "worker_at sample_running 0 (Running write_job)" "effective_lock_mode SERIAL_ALL (job_mode write_job) = MODE_WRITE"
    by code_simp+
  with pool_run_exclusion [OF sample_running_reachable w(1) _ _ w(2), of 1] show ?thesis
    by (force simp: effective_lock_mode_def)
qed

text \<open>
  C25 (complete shutdown): when a shutdown has joined the workers, every accepted job has been
  finished exactly once; in drain mode each was run by a worker and reported with the outcome of
  its run, in cancel mode those that were not run were reported as cancelled.
\<close>

theorem pool_shutdown_complete:
  assumes "reachable (pool_init n capacity policy) pool_step s" "tp_shutdown s = Joined mode"
  shows "mset (tp_accepted s) = mset (map fin_job (tp_finished s)) \<and>
    list_all (\<lambda>f. ran_by_worker (length (tp_workers s)) f \<or>
      mode = SHUTDOWN_CANCEL_PENDING \<and> cancelled_job f) (tp_finished s)"
proof -
  note D = pool_inv_D [OF pool.reachable_inv [OF assms(1)]]
  have ex: "\<forall>w \<in> set (tp_workers s). w = Exited" using D(8) [OF assms(2)] .
  then have "held_jobs s = {#}" by (auto simp: held_jobs_def concat_eq_Nil_conv)
  moreover have "contents (tp_queue s) = []" using D(7) ex D(9) by (metis last_in_set)
  ultimately show ?thesis using D(3) D(10) assms(2) by (auto simp: conserved_def list_all_iff)
qed

theorem pool_shutdown_complete_witness:
  "\<exists>s. reachable (pool_init 2 1 SERIAL_ALL) pool_step s \<and> tp_shutdown s = Joined SHUTDOWN_DRAIN \<and>
     mset (map fin_job (tp_finished s)) = {#write_job#}"
proof -
  have inv: "pool_inv sample_joining" "view_inv SERIAL_ALL sample_joining" "tp_shutdown sample_joining = Joining SHUTDOWN_DRAIN"
    using pool.reachable_inv [OF sample_joining_reachable] pool_view.reachable_inv [OF sample_joining_reachable]
    by (simp_all add: sample_joining_def)
  obtain s where s: "worker_step\<^sup>*\<^sup>* sample_joining s" "tp_shutdown s = Joining SHUTDOWN_DRAIN"
    "\<forall>w \<in> set (tp_workers s). w = Exited" using workers_drain [OF inv] by blast
  let ?s = "s\<lparr>tp_shutdown := Joined SHUTDOWN_DRAIN\<rparr>"
  have r: "reachable (pool_init 2 1 SERIAL_ALL) pool_step ?s"
    using pool_reachable_steps [OF sample_joining_reachable worker_steps_pool [OF s(1)]] shutdown_join [OF s(2,3)]
    by (metis reach_step pool_step_def)
  have "tp_accepted sample_joining = [write_job]" by code_simp
  then have "tp_accepted ?s = [write_job]" using worker_steps_accepted [OF s(1)] by simp
  with pool_shutdown_complete [OF r] r show ?thesis by (intro exI [of _ ?s]) simp
qed



end
