(* ===== verification/Files.thy ===== *)
theory Files
  imports Util
begin

text \<open>
  The part of the file system and of stdio the storage layer uses. A file system maps paths to
  regular files, directories and files the process may not read; opening, line-wise reading with
  \<open>fgets\<close> into a buffer of fixed size, and directory listing are functions of it. Failures of
  \<open>fseek\<close>, \<open>ftell\<close> and of writes to an open file are not modelled. Reading through a directory
  opened for reading yields no data, as on Linux. \<open>format_system_error\<close> is the one of
  \<open>common/util.c\<close>.
\<close>

section \<open>Files and errors\<close>

datatype errno = ENOENT | EACCES | EISDIR | ENOTDIR | ENAMETOOLONG

fun strerror :: "errno \<Rightarrow> string" where
  "strerror ENOENT = ''No such file or directory''"
| "strerror EACCES = ''Permission denied''"
| "strerror EISDIR = ''Is a directory''"
| "strerror ENOTDIR = ''Not a directory''"
| "strerror ENAMETOOLONG = ''File name too long''"

datatype fnode = Regular string | Directory "string list" | Forbidden

type_synonym filesystem = "string \<Rightarrow> fnode option"

definition format_system_error :: "nat \<Rightarrow> string \<Rightarrow> string \<Rightarrow> errno \<Rightarrow> string" where
  "format_system_error sz action path e =
     snprintf sz (if path = [] then action @ '': '' @ strerror e
       else action @ '' '' @ [SQUOTE] @ path @ [SQUOTE] @ '': '' @ strerror e)"

text \<open>\<open>fopen\<close> with mode \<open>rb\<close> and \<open>r+b\<close>: the content of the opened stream, or the error number.\<close>

definition fopen_rb :: "filesystem \<Rightarrow> string \<Rightarrow> errno + string" where
  "fopen_rb fs path = (case fs path of
       None \<Rightarrow> Inl ENOENT
     | Some Forbidden \<Rightarrow> Inl EACCES
     | Some (Directory es) \<Rightarrow> Inr []
     | Some (Regular s) \<Rightarrow> Inr s)"

definition fopen_update :: "filesystem \<Rightarrow> string \<Rightarrow> errno + string" where
  "fopen_update fs path = (case fs path of
       None \<Rightarrow> Inl ENOENT
     | Some Forbidden \<Rightarrow> Inl EACCES
     | Some (Directory es) \<Rightarrow> Inl EISDIR
     | Some (Regular s) \<Rightarrow> Inr s)"

definition opendir :: "filesystem \<Rightarrow> string \<Rightarrow> errno + string list" where
  "opendir fs path = (case fs path of
       None \<Rightarrow> Inl ENOENT
     | Some (Directory es) \<Rightarrow> Inr es
     | Some _ \<Rightarrow> Inl ENOTDIR)"

definition is_regular_file :: "filesystem \<Rightarrow> string \<Rightarrow> bool" where
  "is_regular_file fs path = (case fs path of
       Some (Regular s) \<Rightarrow> True | Some Forbidden \<Rightarrow> True | _ \<Rightarrow> False)"

lemma fopen_rb_Regular [simp]: "fs path = Some (Regular s) \<Longrightarrow> fopen_rb fs path = Inr s"
  by (simp add: fopen_rb_def)

lemma fopen_update_Inr: "fopen_update fs path = Inr s \<longleftrightarrow> fs path = Some (Regular s)"
  by (simp add: fopen_update_def split: option.splits fnode.splits)

section \<open>Lines\<close>

text \<open>
  \<open>fgets\<close> reads up to a newline, but at most one character less than the buffer holds. It returns
  the characters read and leaves the rest of the stream.
\<close>

definition LINE_SIZE :: nat where
  "LINE_SIZE = 4096"

fun take_line :: "nat \<Rightarrow> string \<Rightarrow> string \<times> string" where
  "take_line 0 s = ([], s)"
| "take_line (Suc n) [] = ([], [])"
| "take_line (Suc n) (c # cs) =
     (if c = LF then ([LF], cs) else (case take_line n cs of (l, r) \<Rightarrow> (c # l, r)))"

definition fgets :: "nat \<Rightarrow> string \<Rightarrow> (string \<times> string) option" where
  "fgets sz s = (if s = [] then None else Some (take_line (sz - 1) s))"

lemma take_line_append: "take_line n s = (l, r) \<Longrightarrow> s = l @ r"
  by (induction n s arbitrary: l r rule: take_line.induct) (auto split: if_splits prod.splits)

lemma take_line_nonempty: "take_line (Suc n) (c # cs) = (l, r) \<Longrightarrow> l \<noteq> []"
  by (auto split: if_splits prod.splits)

lemma length_take_line: "take_line n s = (l, r) \<Longrightarrow> length l \<le> n"
  by (induction n s arbitrary: l r rule: take_line.induct) (auto split: if_splits prod.splits)

lemma fgets_progress:
  "fgets LINE_SIZE s = Some (l, r) \<Longrightarrow> s = l @ r \<and> l \<noteq> [] \<and> length r < length s \<and> length l < LINE_SIZE"
proof -
  assume f: "fgets LINE_SIZE s = Some (l, r)"
  then obtain c cs where s: "s = c # cs" by (cases s) (auto simp: fgets_def)
  obtain n where n: "LINE_SIZE - 1 = Suc n" "LINE_SIZE = Suc (Suc n)" by (simp add: LINE_SIZE_def)
  from f have t: "take_line (Suc n) s = (l, r)" by (simp add: fgets_def n split: if_splits)
  with take_line_append [OF t] length_take_line [OF t] take_line_nonempty [of n c cs l r] s n(2)
  show ?thesis by auto
qed

lemma fgets_None [simp]: "fgets n s = None \<longleftrightarrow> s = []"
  by (simp add: fgets_def)

lemma fgets_Nil [simp]: "fgets n [] = None"
  by simp

lemma take_line_stops:
  "take_line n s = (l, r) \<Longrightarrow> s \<noteq> [] \<Longrightarrow> last s = LF \<Longrightarrow> 0 < n \<Longrightarrow>
   take_line n (s @ t) = (l, r @ t) \<and> (r = [] \<or> last r = LF)"
proof (induction n s arbitrary: l r rule: take_line.induct)
  case (3 n c cs)
  show ?case
  proof (cases "c = LF \<or> n = 0")
    case True
    with 3 show ?thesis by (cases n) (auto split: if_splits)
  next
    case False
    with 3 show ?thesis by (cases "cs = []") (auto split: prod.splits)
  qed
qed auto

lemma take_line_short:
  "LF \<notin> set s \<Longrightarrow> length s \<le> n \<Longrightarrow> take_line n s = (s, [])"
  by (induction n s rule: take_line.induct) auto

lemma take_line_newline:
  "LF \<notin> set s \<Longrightarrow> length s < n \<Longrightarrow> take_line n (s @ LF # t) = (s @ [LF], t)"
proof (induction s arbitrary: n)
  case Nil
  then show ?case by (cases n) auto
next
  case (Cons c s)
  then show ?case by (cases n) auto
qed

lemma take_line_rest: "take_line n s = (l, r) \<Longrightarrow> r \<noteq> [] \<Longrightarrow> take_line n (s @ t) = (l, r @ t)"
  by (induction n s arbitrary: l r rule: take_line.induct) (auto split: if_splits prod.splits)

lemma take_line_all:
  "take_line n s = (l, []) \<Longrightarrow> LF \<notin> set s \<and> length s \<le> n \<or> s \<noteq> [] \<and> last s = LF"
  by (induction n s arbitrary: l rule: take_line.induct) (auto split: if_splits prod.splits)

end
