(* ===== verification/Storage.thy ===== *)
theory Storage
  imports Files
begin

text \<open>
  The CSV storage of \<open>storage/storage.c\<close>: parsing and escaping of CSV lines, appending a row to a
  table file, reading the row at a byte offset and scanning all rows with a visitor. Lines are
  read with \<open>fgets\<close> into a buffer of \<open>LINE_SIZE\<close> bytes; the text of a line ends at a zero byte, as
  for every C string. The growing buffer of the CSV parser is represented by its content, where
  the empty content stands for the NULL pointer the code starts every field with.
\<close>

section \<open>CSV lines\<close>

definition csv_field :: "bool \<Rightarrow> string \<Rightarrow> string" where
  "csv_field just_closed_quote buffer = (if just_closed_quote then buffer else trim_whitespace buffer)"

fun csv_loop :: "string \<Rightarrow> bool \<Rightarrow> bool \<Rightarrow> string \<Rightarrow> string list \<Rightarrow> string list outcome" where
  "csv_loop [] in_quotes closed buffer flds =
     (if in_quotes then Inl ''unterminated quoted CSV field''
      else Inr (flds @ [csv_field closed buffer]))"
| "csv_loop (c # cs) in_quotes closed buffer flds =
     (if in_quotes then
        if c = DQUOTE then
          (if cs \<noteq> [] \<and> hd cs = DQUOTE
           then csv_loop (tl cs) True closed (buffer @ [DQUOTE]) flds
           else csv_loop cs False True buffer flds)
        else csv_loop cs True closed (buffer @ [c]) flds
      else if c = CHR '','' then csv_loop cs False False [] (flds @ [csv_field closed buffer])
      else if c = DQUOTE \<and> buffer = [] then csv_loop cs True closed buffer flds
      else if closed \<and> c \<noteq> SPC \<and> c \<noteq> TAB then Inl ''unexpected character after quoted CSV field''
      else if c \<noteq> CR \<and> c \<noteq> LF then csv_loop cs False closed (buffer @ [c]) flds
      else csv_loop cs False closed buffer flds)"

definition csv_parse_line :: "string \<Rightarrow> string list outcome" where
  "csv_parse_line line = csv_loop (c_str line) False False [] []"

definition csv_special :: "char \<Rightarrow> bool" where
  "csv_special c \<longleftrightarrow> c = DQUOTE \<or> c = CHR '','' \<or> c = LF \<or> c = CR"

definition double_dquotes :: "string \<Rightarrow> string" where
  "double_dquotes v = concat (map (\<lambda>c. if c = DQUOTE then [DQUOTE, DQUOTE] else [c]) v)"

definition csv_escape_field :: "string \<Rightarrow> string" where
  "csv_escape_field v =
     (if v = [] then [DQUOTE, DQUOTE]
      else if \<not> list_ex csv_special v then v
      else [DQUOTE] @ double_dquotes v @ [DQUOTE])"

section \<open>Table files\<close>

record storage_result =
  sr_ok :: bool
  sr_affected_rows :: nat
  sr_row_offset :: int
  sr_message :: string

definition table_path :: "string \<Rightarrow> string \<Rightarrow> string" where
  "table_path data_dir table = build_path data_dir table ''.csv''"

definition open_error :: "string \<Rightarrow> string \<Rightarrow> errno \<Rightarrow> string" where
  "open_error data_dir table e =
     format_system_error 256 ''failed to open table file'' (table_path data_dir table) e"

text \<open>The fields of a row as the writing loop emits them: a comma before every field but the first.\<close>

fun csv_fields_text :: "nat \<Rightarrow> string list \<Rightarrow> string" where
  "csv_fields_text index [] = []"
| "csv_fields_text index (v # vs) =
     (if index > 0 then [CHR '',''] else []) @ csv_escape_field v @ csv_fields_text (Suc index) vs"

definition csv_row :: "string list \<Rightarrow> string" where
  "csv_row values = csv_fields_text 0 values"

definition append_row_csv ::
    "filesystem \<Rightarrow> string \<Rightarrow> string \<Rightarrow> string list \<Rightarrow> storage_result \<times> filesystem" where
  "append_row_csv fs data_dir table row_values =
     (case fopen_update fs (table_path data_dir table) of
        Inl e \<Rightarrow> (\<lparr>sr_ok = False, sr_affected_rows = 0, sr_row_offset = - 1,
                   sr_message = open_error data_dir table e\<rparr>, fs)
      | Inr content \<Rightarrow>
          let content' = (if length content > 0 \<and> last content \<noteq> LF then content @ [LF] else content);
              row_offset = length content' in
          (\<lparr>sr_ok = True, sr_affected_rows = 1, sr_row_offset = int row_offset, sr_message = ''INSERT 1''\<rparr>,
           fs(table_path data_dir table \<mapsto> Regular (content' @ csv_row row_values))))"

text \<open>A line as the readers see it: the C string in the buffer, without its line ending.\<close>

definition line_text :: "string \<Rightarrow> string" where
  "line_text line = strip_line_endings (c_str line)"

definition read_row_at_offset_csv ::
    "filesystem \<Rightarrow> string \<Rightarrow> string \<Rightarrow> int \<Rightarrow> string list outcome" where
  "read_row_at_offset_csv fs data_dir table row_offset =
     (case fopen_rb fs (table_path data_dir table) of
        Inl e \<Rightarrow> Inl (open_error data_dir table e)
      | Inr content \<Rightarrow>
          if row_offset < 0 then Inl ''failed to seek row offset''
          else (case fgets LINE_SIZE (drop (nat row_offset) content) of
              None \<Rightarrow> Inl ''failed to read row at offset''
            | Some (line, _) \<Rightarrow>
                if line_text line = [] then Inl ''row at offset is empty''
                else csv_parse_line (line_text line)))"

type_synonym 'c visitor = "string list \<Rightarrow> int \<Rightarrow> 'c \<Rightarrow> fault + 'c"

function scan_loop :: "'c visitor \<Rightarrow> string \<Rightarrow> nat \<Rightarrow> 'c \<Rightarrow> fault + 'c" where
  "scan_loop visitor rest row_offset ctx =
     (case fgets LINE_SIZE rest of
        None \<Rightarrow> Inr ctx
      | Some (line, rest') \<Rightarrow>
          if line_text line = [] then scan_loop visitor rest' (row_offset + length line) ctx
          else (case csv_parse_line (line_text line) of
              Inl e \<Rightarrow> Inl (Message e)
            | Inr flds \<Rightarrow>
                (case visitor flds (int row_offset) ctx of
                   Inl f \<Rightarrow> Inl f
                 | Inr ctx' \<Rightarrow> scan_loop visitor rest' (row_offset + length line) ctx')))"
  by pat_completeness auto
termination
  by (relation "measure (\<lambda>(visitor, rest, row_offset, ctx). length rest)") (auto dest: fgets_progress)

declare scan_loop.simps [simp del]

definition scan_rows_csv ::
    "filesystem \<Rightarrow> string \<Rightarrow> string \<Rightarrow> 'c visitor \<Rightarrow> 'c \<Rightarrow> fault + 'c" where
  "scan_rows_csv fs data_dir table visitor ctx =
     (case fopen_rb fs (table_path data_dir table) of
        Inl e \<Rightarrow> Inl (Message (open_error data_dir table e))
      | Inr content \<Rightarrow>
          (case fgets LINE_SIZE content of
             None \<Rightarrow> Inl (Message ''table data file is empty'')
           | Some (line, rest) \<Rightarrow> scan_loop visitor rest (length line) ctx))"

section \<open>Escaping and parsing\<close>

text \<open>What parsing makes of a stored value: a value stored without quotes loses its outer blanks.\<close>

definition csv_stored :: "string \<Rightarrow> string" where
  "csv_stored v = (if v \<noteq> [] \<and> \<not> list_ex csv_special v then trim_whitespace v else v)"

lemma csv_loop_plain:
  "\<not> list_ex csv_special v \<Longrightarrow> csv_loop (v @ rest) False False buf flds = csv_loop rest False False (buf @ v) flds"
  by (induction v arbitrary: buf) (auto simp: csv_special_def)

lemma double_dquotes_simps [simp]:
  "double_dquotes [] = []"
  "double_dquotes (c # v) = (if c = DQUOTE then [DQUOTE, DQUOTE] else [c]) @ double_dquotes v"
  by (simp_all add: double_dquotes_def)

lemma csv_loop_quoted:
  "csv_loop (double_dquotes v @ rest) True closed buf flds = csv_loop rest True closed (buf @ v) flds"
  by (induction v arbitrary: buf) auto

lemma csv_loop_close:
  "rest = [] \<or> hd rest \<noteq> DQUOTE \<Longrightarrow>
   csv_loop (DQUOTE # rest) True closed buf flds = csv_loop rest False True buf flds"
  by auto

lemma csv_loop_escaped:
  assumes "rest = [] \<or> hd rest = CHR '',''"
  shows "csv_loop (csv_escape_field v @ rest) False False [] flds =
    (case rest of [] \<Rightarrow> Inr (flds @ [csv_stored v])
     | c # cs \<Rightarrow> csv_loop cs False False [] (flds @ [csv_stored v]))"
proof (cases "v \<noteq> [] \<and> \<not> list_ex csv_special v")
  case True
  then show ?thesis
    using assms csv_loop_plain [of v "[]" "[]" flds]
    by (cases rest) (auto simp: csv_escape_field_def csv_loop_plain csv_stored_def csv_field_def)
next
  case False
  then have "csv_escape_field v = DQUOTE # double_dquotes v @ [DQUOTE]"
    by (auto simp: csv_escape_field_def)
  moreover have "csv_stored v = v" using False by (auto simp: csv_stored_def)
  moreover have "rest = [] \<or> hd rest \<noteq> DQUOTE" using assms by (cases rest) auto
  ultimately show ?thesis
    using assms csv_loop_close [of rest True v flds] csv_loop_quoted [of v "DQUOTE # rest" False "[]" flds]
    by (cases rest) (auto simp: csv_field_def simp del: csv_loop.simps(2) simp add: csv_loop.simps(2) [of DQUOTE] csv_loop.simps(2) [of "CHR '',''"])
qed

lemma csv_loop_tail:
  "csv_loop (csv_escape_field v @ csv_fields_text (Suc i) vs) False False [] flds =
   Inr (flds @ map csv_stored (v # vs))"
proof (induction vs arbitrary: v i flds)
  case Nil
  then show ?case using csv_loop_escaped [of "[]" v flds] by simp
next
  case (Cons w vs)
  then show ?case
    using csv_loop_escaped [of "csv_fields_text (Suc i) (w # vs)" v flds] by simp
qed

lemma csv_loop_row: "vs \<noteq> [] \<Longrightarrow> csv_loop (csv_row vs) False False [] [] = Inr (map csv_stored vs)"
  using csv_loop_tail [of "hd vs" 0 "tl vs" "[]"] by (cases vs) (auto simp: csv_row_def)

section \<open>The text of a row\<close>

lemma set_double_dquotes [simp]: "set (double_dquotes v) = set v"
  by (induction v) auto

lemma set_csv_escape: "set (csv_escape_field v) \<subseteq> insert DQUOTE (set v)"
  by (auto simp: csv_escape_field_def)

lemma csv_escape_last: "csv_escape_field v \<noteq> [] \<and> last (csv_escape_field v) \<noteq> LF \<and> last (csv_escape_field v) \<noteq> CR"
  by (auto simp: csv_escape_field_def csv_special_def list_ex_iff)

lemma csv_fields_text_last:
  "vs \<noteq> [] \<Longrightarrow> csv_fields_text i vs \<noteq> [] \<and> last (csv_fields_text i vs) \<noteq> LF \<and> last (csv_fields_text i vs) \<noteq> CR"
proof (induction vs arbitrary: i)
  case (Cons v vs)
  show ?case
  proof (cases "vs = []")
    case True
    then show ?thesis using csv_escape_last [of v] by (auto simp: last_append)
  next
    case False
    with Cons.IH [OF False, of "Suc i"] show ?thesis by (simp add: last_append)
  qed
qed simp

lemma set_csv_fields_text: "set (csv_fields_text i vs) \<subseteq> {DQUOTE, CHR '',''} \<union> (\<Union>v \<in> set vs. set v)"
proof (induction vs arbitrary: i)
  case (Cons v vs)
  from Cons [of "Suc i"] set_csv_escape [of v] show ?case by auto
qed simp

text \<open>The rows whose text is one line of the file.\<close>

definition one_line_row :: "string list \<Rightarrow> bool" where
  "one_line_row vs \<longleftrightarrow> vs \<noteq> [] \<and> (\<forall>v \<in> set vs. NUL \<notin> set v \<and> LF \<notin> set v) \<and>
     length (csv_row vs) < LINE_SIZE"

lemma csv_row_chars:
  assumes "\<forall>v \<in> set vs. c \<notin> set v" "c \<noteq> DQUOTE" "c \<noteq> CHR '',''"
  shows "c \<notin> set (csv_row vs)"
  using assms set_csv_fields_text [of 0 vs] by (auto simp: csv_row_def)

lemma line_text_row:
  assumes "vs \<noteq> []" "\<forall>v \<in> set vs. NUL \<notin> set v"
  shows "line_text (csv_row vs) = csv_row vs" "csv_row vs \<noteq> []"
  using csv_row_chars [OF assms(2)] csv_fields_text_last [OF assms(1), of 0]
  by (auto simp: line_text_def c_str_id csv_row_def intro!: strip_line_endings_id)

section \<open>The rows of a file\<close>

text \<open>The lines of a file with their offsets, and those of them that hold data.\<close>

function chunks :: "string \<Rightarrow> nat \<Rightarrow> (nat \<times> string) list" where
  "chunks s offset = (case fgets LINE_SIZE s of
       None \<Rightarrow> []
     | Some (line, rest) \<Rightarrow> (offset, line) # chunks rest (offset + length line))"
  by pat_completeness auto
termination
  by (relation "measure (\<lambda>(s, offset). length s)") (auto dest: fgets_progress)

declare chunks.simps [simp del]

definition text_lines :: "(nat \<times> string) list \<Rightarrow> (nat \<times> string) list" where
  "text_lines xs = filter (\<lambda>(_, t). t \<noteq> []) (map (\<lambda>(offset, l). (offset, line_text l)) xs)"

definition data_lines :: "string \<Rightarrow> (nat \<times> string) list" where
  "data_lines s = (case fgets LINE_SIZE s of
       None \<Rightarrow> []
     | Some (header, rest) \<Rightarrow> text_lines (chunks rest (length header)))"

fun parse_lines :: "(nat \<times> string) list \<Rightarrow> (nat \<times> string list) list outcome" where
  "parse_lines [] = Inr []"
| "parse_lines ((offset, t) # xs) =
     sbind (csv_parse_line t) (\<lambda>f. sbind (parse_lines xs) (\<lambda>rows. Inr ((offset, f) # rows)))"

definition csv_rows :: "string \<Rightarrow> (nat \<times> string list) list outcome" where
  "csv_rows s = parse_lines (data_lines s)"

fun visit_rows :: "'c visitor \<Rightarrow> (nat \<times> string list) list \<Rightarrow> 'c \<Rightarrow> fault + 'c" where
  "visit_rows visitor [] ctx = Inr ctx"
| "visit_rows visitor ((offset, f) # rows) ctx =
     sbind (visitor f (int offset) ctx) (visit_rows visitor rows)"

lemma text_lines_append [simp]: "text_lines (xs @ ys) = text_lines xs @ text_lines ys"
  by (simp add: text_lines_def)

lemma text_lines_simps [simp]:
  "text_lines [] = []"
  "text_lines ((n, l) # xs) = (if line_text l = [] then [] else [(n, line_text l)]) @ text_lines xs"
  by (simp_all add: text_lines_def)

lemma chunks_Nil [simp]: "chunks [] n = []"
  by (subst chunks.simps) simp

lemma chunks_Some: "fgets LINE_SIZE s = Some (l, r) \<Longrightarrow> chunks s n = (n, l) # chunks r (n + length l)"
  by (subst chunks.simps) simp

lemma parse_lines_append:
  "parse_lines (xs @ ys) = sbind (parse_lines xs) (\<lambda>a. sbind (parse_lines ys) (\<lambda>b. Inr (a @ b)))"
proof (induction xs rule: parse_lines.induct)
  case 1
  show ?case by (cases "parse_lines ys") auto
next
  case (2 n t xs)
  show ?case
  proof (cases "csv_parse_line t")
    case (Inr f)
    with "2.IH" [of f] show ?thesis by (cases "parse_lines xs"; cases "parse_lines ys") auto
  qed simp
qed

lemma fgets_shared:
  assumes "fgets LINE_SIZE s = Some (l, r)" "last s = LF"
  shows "fgets LINE_SIZE (s @ t) = Some (l, r @ t)" "r = [] \<or> last r = LF"
proof -
  have s: "s \<noteq> []" and tl: "take_line (LINE_SIZE - 1) s = (l, r)"
    using assms(1) by (auto simp: fgets_def split: if_splits)
  have "0 < LINE_SIZE - 1" by (simp add: LINE_SIZE_def)
  from take_line_stops [OF tl s assms(2) this, of t]
  show "fgets LINE_SIZE (s @ t) = Some (l, r @ t)" "r = [] \<or> last r = LF"
    using s by (simp_all add: fgets_def)
qed

lemma chunks_append:
  "s = [] \<or> last s = LF \<Longrightarrow> chunks (s @ t) n = chunks s n @ chunks t (n + length s)"
proof (induction s n rule: chunks.induct)
  case (1 s n)
  show ?case
  proof (cases "fgets LINE_SIZE s")
    case None
    then show ?thesis by simp
  next
    case (Some lr)
    obtain l r where lr: "lr = (l, r)" by (cases lr)
    note f = Some [unfolded lr]
    have last: "last s = LF" using "1.prems" f by (auto simp: fgets_def)
    have "chunks (s @ t) n = (n, l) # chunks (r @ t) (n + length l)"
      using fgets_shared(1) [OF f last] by (simp add: chunks_Some)
    moreover have "length s = length l + length r" using fgets_progress [OF f] by simp
    ultimately show ?thesis
      using "1.IH" [OF f refl] fgets_shared(2) [OF f last] chunks_Some [OF f, of n] by (simp add: add.assoc)
  qed
qed

text \<open>A final newline does not change the data lines, nor does it move them.\<close>

lemma line_text_LF: "line_text (l @ [LF]) = line_text l"
proof (cases "NUL \<in> set l")
  case True
  then have "c_str (l @ [LF]) = c_str l" by (simp add: c_str_def takeWhile_append1)
  then show ?thesis by (simp add: line_text_def)
next
  case False
  then show ?thesis by (simp add: line_text_def c_str_id strip_line_endings_append_LF)
qed

lemma line_text_newline [simp]: "line_text [LF] = []"
  using line_text_LF [of "[]"] by (simp add: line_text_def c_str_def strip_line_endings_def)

lemma fgets_LF [simp]: "fgets LINE_SIZE [LF] = Some ([LF], [])"
  by (simp add: fgets_def LINE_SIZE_def numeral_eq_Suc)

lemma chunks_LF [simp]: "chunks [LF] n = [(n, [LF])]"
  by (simp add: chunks_Some)

lemma fgets_rest:
  "fgets LINE_SIZE s = Some (l, r) \<Longrightarrow> r \<noteq> [] \<Longrightarrow> fgets LINE_SIZE (s @ t) = Some (l, r @ t)"
  by (auto simp: fgets_def take_line_rest split: if_splits)

lemma fgets_all_LF:
  assumes "fgets LINE_SIZE s = Some (s, [])" "last s \<noteq> LF"
  shows "fgets LINE_SIZE (s @ [LF]) = Some (s @ [LF], []) \<or> fgets LINE_SIZE (s @ [LF]) = Some (s, [LF])"
proof -
  have s: "s \<noteq> []" and tl: "take_line (LINE_SIZE - 1) s = (s, [])"
    using assms(1) by (auto simp: fgets_def split: if_splits)
  from take_line_all [OF tl] assms(2) have nl: "LF \<notin> set s" "length s \<le> LINE_SIZE - 1" by auto
  show ?thesis
  proof (cases "length s < LINE_SIZE - 1")
    case True
    then show ?thesis using take_line_newline [OF nl(1) True, of "[]"] by (simp add: fgets_def)
  next
    case False
    with nl(2) have "length s = LINE_SIZE - 1" by simp
    moreover have "take_line (length u) (u @ t) = (u, t)" if "LF \<notin> set u" for u t
      using that by (induction u) auto
    ultimately show ?thesis using nl(1) s by (metis append_is_Nil_conv fgets_def)
  qed
qed

lemma fgets_all_last:
  assumes "fgets LINE_SIZE s = Some (s, [])" "last s = LF"
  shows "fgets LINE_SIZE (s @ t) = Some (s, t)"
  using fgets_shared(1) [OF assms] by simp

lemma text_lines_LF: "text_lines (chunks (s @ [LF]) n) = text_lines (chunks s n)"
proof (induction s n rule: chunks.induct)
  case (1 s n)
  show ?case
  proof (cases "fgets LINE_SIZE s")
    case (Some lr)
    obtain l r where lr: "lr = (l, r)" by (cases lr)
    note f = Some [unfolded lr]
    show ?thesis
    proof (cases "r = []")
      case True
      with f fgets_progress [OF f] have f': "fgets LINE_SIZE s = Some (s, [])" by simp
      show ?thesis
        using fgets_all_LF [OF f'] fgets_all_last [OF f', of "[LF]"]
        by (cases "last s = LF") (auto simp: chunks_Some [OF f'] chunks_Some line_text_LF)
    next
      case False
      then show ?thesis
        using "1.IH" [OF f refl] fgets_rest [OF f, of "[LF]"] by (simp add: chunks_Some [OF f] chunks_Some)
    qed
  qed simp
qed

lemma data_lines_LF: "s \<noteq> [] \<Longrightarrow> data_lines (s @ [LF]) = data_lines s"
proof -
  assume "s \<noteq> []"
  then obtain l r where f: "fgets LINE_SIZE s = Some (l, r)" by (cases "fgets LINE_SIZE s") auto
  show ?thesis
  proof (cases "r = []")
    case True
    with f fgets_progress [OF f] have f': "fgets LINE_SIZE s = Some (s, [])" by simp
    show ?thesis
      using fgets_all_LF [OF f'] fgets_all_last [OF f', of "[LF]"]
      by (cases "last s = LF") (auto simp: data_lines_def f')
  next
    case False
    then show ?thesis
      using fgets_rest [OF f False, of "[LF]"] by (simp add: data_lines_def f text_lines_LF)
  qed
qed

text \<open>The content of the file up to the new row: the old content closed by a newline.\<close>

definition closed_content :: "string \<Rightarrow> string" where
  "closed_content s = (if length s > 0 \<and> last s \<noteq> LF then s @ [LF] else s)"

lemma closed_content_last: "s \<noteq> [] \<Longrightarrow> closed_content s \<noteq> [] \<and> last (closed_content s) = LF"
  by (auto simp: closed_content_def)

lemma data_lines_append:
  assumes "s \<noteq> []"
  shows "data_lines (closed_content s @ t) = data_lines s @ text_lines (chunks t (length (closed_content s)))"
proof -
  let ?s = "closed_content s"
  have s: "?s \<noteq> []" "last ?s = LF" using closed_content_last [OF assms] by auto
  then obtain l r where f: "fgets LINE_SIZE ?s = Some (l, r)" by (cases "fgets LINE_SIZE ?s") auto
  have len: "length ?s = length l + length r" using fgets_progress [OF f] by simp
  have "data_lines (?s @ t) = data_lines ?s @ text_lines (chunks t (length ?s))"
    using chunks_append [OF fgets_shared(2) [OF f s(2)], of t "length l"] fgets_shared(1) [OF f s(2), of t]
    by (simp add: data_lines_def f len)
  moreover have "data_lines ?s = data_lines s"
    using data_lines_LF [OF assms] by (simp add: closed_content_def)
  ultimately show ?thesis by simp
qed

text \<open>The first line keeps its text when rows are appended.\<close>

definition first_line :: "string \<Rightarrow> string option" where
  "first_line s = map_option (\<lambda>(l, r). line_text l) (fgets LINE_SIZE s)"

lemma first_line_LF: "s \<noteq> [] \<Longrightarrow> first_line (s @ [LF]) = first_line s"
proof -
  assume "s \<noteq> []"
  then obtain l r where f: "fgets LINE_SIZE s = Some (l, r)" by (cases "fgets LINE_SIZE s") auto
  show ?thesis
  proof (cases "r = []")
    case True
    with f fgets_progress [OF f] have f': "fgets LINE_SIZE s = Some (s, [])" by simp
    show ?thesis
      using fgets_all_LF [OF f'] fgets_all_last [OF f', of "[LF]"]
      by (cases "last s = LF") (auto simp: first_line_def f' line_text_LF)
  next
    case False
    then show ?thesis using fgets_rest [OF f False, of "[LF]"] by (simp add: first_line_def f)
  qed
qed

lemma first_line_append: "s \<noteq> [] \<Longrightarrow> first_line (closed_content s @ t) = first_line s"
proof -
  assume s: "s \<noteq> []"
  obtain l r where f: "fgets LINE_SIZE (closed_content s) = Some (l, r)"
    using closed_content_last [OF s] by (cases "fgets LINE_SIZE (closed_content s)") auto
  have "first_line (closed_content s @ t) = first_line (closed_content s)"
    using fgets_shared(1) [OF f, of t] closed_content_last [OF s] by (simp add: first_line_def f)
  then show ?thesis using first_line_LF [OF s] by (simp add: closed_content_def)
qed

lemma fgets_short: "s \<noteq> [] \<Longrightarrow> LF \<notin> set s \<Longrightarrow> length s < LINE_SIZE \<Longrightarrow> fgets LINE_SIZE s = Some (s, [])"
  by (simp add: fgets_def take_line_short)

lemma one_line_row_lines:
  assumes "one_line_row vs"
  shows "text_lines (chunks (csv_row vs) n) = [(n, csv_row vs)]"
    and "csv_parse_line (csv_row vs) = Inr (map csv_stored vs)"
proof -
  have vs: "vs \<noteq> []" "\<forall>v \<in> set vs. NUL \<notin> set v" "\<forall>v \<in> set vs. LF \<notin> set v" "length (csv_row vs) < LINE_SIZE"
    using assms by (auto simp: one_line_row_def)
  have "LF \<notin> set (csv_row vs)" using csv_row_chars [OF vs(3)] by simp
  then show "text_lines (chunks (csv_row vs) n) = [(n, csv_row vs)]"
    using line_text_row [OF vs(1,2)] vs(4) by (simp add: chunks_Some [OF fgets_short])
  show "csv_parse_line (csv_row vs) = Inr (map csv_stored vs)"
    using csv_loop_row [OF vs(1)] csv_row_chars [OF vs(2)] by (simp add: csv_parse_line_def c_str_id)
qed

lemma csv_rows_append:
  assumes "s \<noteq> []" "one_line_row vs" "csv_rows s = Inr rows"
  shows "csv_rows (closed_content s @ csv_row vs) =
    Inr (rows @ [(length (closed_content s), map csv_stored vs)])"
  using assms one_line_row_lines [OF assms(2)]
  by (simp add: csv_rows_def data_lines_append parse_lines_append)

section \<open>Scanning and random access\<close>

lemma chunks_at_offset:
  "(offset, l) \<in> set (chunks s n) \<Longrightarrow> n \<le> offset \<and> (\<exists>r. fgets LINE_SIZE (drop (offset - n) s) = Some (l, r))"
proof (induction s n rule: chunks.induct)
  case (1 s n)
  then obtain l' r' where f: "fgets LINE_SIZE s = Some (l', r')"
    by (cases "fgets LINE_SIZE s") auto
  then consider "(offset, l) = (n, l')" | "(offset, l) \<in> set (chunks r' (n + length l'))"
    using "1.prems" by (auto simp: chunks_Some [OF f])
  then show ?case
  proof cases
    case 1
    with f show ?thesis by simp
  next
    case 2
    with "1.IH" [OF f refl] obtain r where "n + length l' \<le> offset"
      "fgets LINE_SIZE (drop (offset - (n + length l')) r') = Some (l, r)" by auto
    moreover have "s = l' @ r'" using fgets_progress [OF f] by simp
    ultimately show ?thesis by (auto simp: diff_diff_left)
  qed
qed

lemma data_line_at_offset:
  assumes "(offset, t) \<in> set (data_lines s)"
  shows "t \<noteq> [] \<and> (\<exists>l r. fgets LINE_SIZE (drop offset s) = Some (l, r) \<and> line_text l = t)"
proof -
  obtain h rest where f: "fgets LINE_SIZE s = Some (h, rest)"
    using assms by (cases "fgets LINE_SIZE s") (auto simp: data_lines_def)
  with assms obtain l where l: "(offset, l) \<in> set (chunks rest (length h))" "t = line_text l" "t \<noteq> []"
    by (auto simp: data_lines_def text_lines_def)
  have "s = h @ rest" using fgets_progress [OF f] by simp
  with chunks_at_offset [OF l(1)] l(2,3) show ?thesis by auto
qed

lemma parse_lines_member:
  "parse_lines xs = Inr rows \<Longrightarrow> (offset, f) \<in> set rows \<Longrightarrow>
   \<exists>t. (offset, t) \<in> set xs \<and> csv_parse_line t = Inr f"
  by (induction xs arbitrary: rows) (fastforce simp: sbind_Inr_iff)+

lemma scan_loop_visits:
  assumes "parse_lines (text_lines (chunks s n)) = Inr rows"
  shows "scan_loop visitor s n ctx = visit_rows visitor rows ctx"
  using assms
proof (induction s n arbitrary: rows ctx rule: chunks.induct)
  case (1 s n)
  show ?case
  proof (cases "fgets LINE_SIZE s")
    case None
    with "1.prems" show ?thesis by (subst scan_loop.simps) auto
  next
    case (Some lr)
    obtain l r where lr: "lr = (l, r)" by (cases lr)
    note f = Some [unfolded lr]
    from "1.prems" "1.IH" [OF f refl] show ?thesis
      by (subst scan_loop.simps)
        (auto simp: f chunks_Some [OF f] sbind_Inr_iff split: if_splits sum.splits)
  qed
qed

lemma scan_rows_visits:
  assumes "fs (table_path data_dir table) = Some (Regular s)" "s \<noteq> []" "csv_rows s = Inr rows"
  shows "scan_rows_csv fs data_dir table visitor ctx = visit_rows visitor rows ctx"
proof -
  obtain h rest where f: "fgets LINE_SIZE s = Some (h, rest)" using assms(2) by (cases "fgets LINE_SIZE s") auto
  with assms(3) have "parse_lines (text_lines (chunks rest (length h))) = Inr rows"
    by (simp add: csv_rows_def data_lines_def)
  with assms(1) f show ?thesis by (simp add: scan_rows_csv_def scan_loop_visits)
qed

lemma scan_loop_parses:
  "scan_loop visitor s n ctx = Inr ctx' \<Longrightarrow> \<exists>rows. parse_lines (text_lines (chunks s n)) = Inr rows"
proof (induction s n arbitrary: ctx rule: chunks.induct)
  case (1 s n)
  show ?case
  proof (cases "fgets LINE_SIZE s")
    case (Some lr)
    obtain l r where lr: "lr = (l, r)" by (cases lr)
    note f = Some [unfolded lr]
    from "1.prems" obtain ctx2 where "scan_loop visitor r (n + length l) ctx2 = Inr ctx'"
      "line_text l = [] \<or> (\<exists>flds. csv_parse_line (line_text l) = Inr flds)"
      by (subst (asm) scan_loop.simps) (auto simp: f split: if_splits sum.splits)
    with "1.IH" [OF f refl] show ?thesis by (fastforce simp: chunks_Some [OF f])
  qed auto
qed

lemma scan_rows_parses:
  assumes "scan_rows_csv fs data_dir table visitor ctx = Inr ctx'"
  shows "\<exists>s rows. fs (table_path data_dir table) = Some (Regular s) \<and> s \<noteq> [] \<and> csv_rows s = Inr rows"
proof -
  obtain s l r where s: "fopen_rb fs (table_path data_dir table) = Inr s" "fgets LINE_SIZE s = Some (l, r)"
    and scan: "scan_loop visitor r (length l) ctx = Inr ctx'"
    using assms by (auto simp: scan_rows_csv_def split: sum.splits option.splits)
  from s(2) have "s \<noteq> []" by auto
  with s(1) have "fs (table_path data_dir table) = Some (Regular s)"
    by (auto simp: fopen_rb_def split: option.splits fnode.splits)
  with \<open>s \<noteq> []\<close> scan_loop_parses [OF scan] s(2) show ?thesis by (auto simp: csv_rows_def data_lines_def)
qed

lemma read_row_of_scan:
  assumes "fs (table_path data_dir table) = Some (Regular s)" "csv_rows s = Inr rows" "(offset, f) \<in> set rows"
  shows "read_row_at_offset_csv fs data_dir table (int offset) = Inr f"
proof -
  obtain t where t: "(offset, t) \<in> set (data_lines s)" "csv_parse_line t = Inr f"
    using parse_lines_member [OF assms(2) [unfolded csv_rows_def] assms(3)] by blast
  with data_line_at_offset [OF t(1)] assms(1) show ?thesis
    by (auto simp: read_row_at_offset_csv_def)
qed

section \<open>Values with a newline\<close>

lemma csv_fields_text_append:
  "csv_fields_text i (us @ vs) = csv_fields_text i us @ csv_fields_text (i + length us) vs"
  by (induction us arbitrary: i) auto

lemma csv_loop_prefix:
  "csv_loop (csv_escape_field v @ csv_fields_text (Suc i) vs @ CHR '','' # rest) False False [] flds =
   csv_loop rest False False [] (flds @ map csv_stored (v # vs))"
proof (induction vs arbitrary: v i flds)
  case Nil
  then show ?case using csv_loop_escaped [of "CHR '','' # rest" v flds] by simp
next
  case (Cons w vs)
  then show ?case
    using csv_loop_escaped [of "csv_fields_text (Suc i) (w # vs) @ CHR '','' # rest" v flds] by simp
qed

lemma strip_line_endings_keep:
  "c \<noteq> LF \<Longrightarrow> c \<noteq> CR \<Longrightarrow> strip_line_endings (xs @ c # ys) = xs @ c # strip_line_endings ys"
  by (simp add: strip_line_endings_def dropWhile_append)

lemma strip_line_endings_snoc:
  "strip_line_endings (xs @ [c]) = (if c = LF \<or> c = CR then strip_line_endings xs else xs @ [c])"
  by (simp add: strip_line_endings_def)

lemma strip_double_dquotes: "strip_line_endings (double_dquotes p) = double_dquotes (strip_line_endings p)"
proof (induction p rule: rev_induct)
  case (snoc c p)
  have "double_dquotes (p @ [c]) = double_dquotes p @ (if c = DQUOTE then [DQUOTE, DQUOTE] else [c])"
    by (simp add: double_dquotes_def)
  then show ?case
    using snoc strip_line_endings_snoc [of "double_dquotes p @ [DQUOTE]" DQUOTE]
    by (auto simp: strip_line_endings_snoc double_dquotes_def)
qed (simp add: strip_line_endings_def)

text \<open>The fields before the value, with the separator that follows them.\<close>

definition row_prefix :: "string list \<Rightarrow> string" where
  "row_prefix us = csv_fields_text 0 us @ (if us = [] then [] else [CHR '',''])"

lemma csv_row_prefix:
  "csv_row (us @ v # ws) = row_prefix us @ csv_escape_field v @ csv_fields_text (Suc (length us)) ws"
  by (simp add: csv_row_def csv_fields_text_append row_prefix_def)

lemma csv_loop_row_prefix:
  "csv_loop (row_prefix us @ rest) False False [] [] = csv_loop rest False False [] (map csv_stored us)"
  using csv_loop_prefix [of "hd us" 0 "tl us" rest "[]"] by (cases us) (auto simp: row_prefix_def)

lemma open_quote_unterminated:
  assumes "NUL \<notin> set (row_prefix us)" "NUL \<notin> set p"
  shows "csv_parse_line (line_text (row_prefix us @ DQUOTE # double_dquotes p @ [LF])) =
    Inl ''unterminated quoted CSV field''"
    and "line_text (row_prefix us @ DQUOTE # double_dquotes p @ [LF]) \<noteq> []"
proof -
  have "line_text (row_prefix us @ DQUOTE # double_dquotes p @ [LF]) =
      line_text (row_prefix us @ DQUOTE # double_dquotes p)"
    using line_text_LF [of "row_prefix us @ DQUOTE # double_dquotes p"] by simp
  also have "\<dots> = row_prefix us @ DQUOTE # double_dquotes (strip_line_endings p)"
    using assms by (simp add: line_text_def c_str_id strip_line_endings_keep strip_double_dquotes)
  finally have eq: "line_text (row_prefix us @ DQUOTE # double_dquotes p @ [LF]) =
      row_prefix us @ DQUOTE # double_dquotes (strip_line_endings p)" .
  have "NUL \<notin> set (row_prefix us @ DQUOTE # double_dquotes (strip_line_endings p))"
    using assms set_strip_line_endings [of p] by auto
  then show "csv_parse_line (line_text (row_prefix us @ DQUOTE # double_dquotes p @ [LF])) =
      Inl ''unterminated quoted CSV field''"
    using csv_loop_row_prefix [of us "DQUOTE # double_dquotes (strip_line_endings p)"]
      csv_loop_quoted [of "strip_line_endings p" "[]" False "[]" "map csv_stored us"]
    by (simp add: csv_parse_line_def eq c_str_id)
  show "line_text (row_prefix us @ DQUOTE # double_dquotes p @ [LF]) \<noteq> []" by (simp add: eq)
qed

lemma newline_row_rows:
  assumes s: "s \<noteq> []" and vs: "\<forall>v \<in> set vs. NUL \<notin> set v" "length (csv_row vs) < LINE_SIZE"
    and nl: "\<exists>v \<in> set vs. LF \<in> set v" and rows: "csv_rows s = Inr rows"
  shows "csv_rows (closed_content s @ csv_row vs) = Inl ''unterminated quoted CSV field''"
proof -
  obtain us v ws where split: "vs = us @ v # ws" "LF \<in> set v" "\<forall>u \<in> set us. LF \<notin> set u"
    using split_list_first_prop [OF nl] by blast
  then obtain p q where v: "v = p @ LF # q" "LF \<notin> set p" by (meson split_list_first)
  let ?l = "row_prefix us @ DQUOTE # double_dquotes p"
  have esc: "csv_escape_field v = DQUOTE # double_dquotes v @ [DQUOTE]"
    using v(1) by (auto simp: csv_escape_field_def csv_special_def)
  have dd: "double_dquotes v = double_dquotes p @ LF # double_dquotes q"
    by (simp add: v(1) double_dquotes_def)
  obtain R where row: "csv_row vs = ?l @ LF # R"
    by (simp add: split(1) csv_row_prefix esc dd)
  have "LF \<notin> set (row_prefix us)" "NUL \<notin> set (row_prefix us)"
    using set_csv_fields_text [of 0 us] split vs(1) by (auto simp: row_prefix_def)
  then have l: "LF \<notin> set ?l" "NUL \<notin> set (row_prefix us)" "NUL \<notin> set p" "length ?l < LINE_SIZE - 1"
    using v vs split(1) row by auto
  have "fgets LINE_SIZE (csv_row vs) = Some (?l @ [LF], R)"
    using take_line_newline [OF l(1) l(4), of R] by (simp add: row fgets_def)
  then show ?thesis
    using rows open_quote_unterminated [OF l(2,3)]
    by (simp add: csv_rows_def data_lines_append [OF s] parse_lines_append chunks_Some)
qed

lemma append_row_csv_Regular:
  assumes "fs (table_path data_dir table) = Some (Regular s)"
  shows "append_row_csv fs data_dir table vs =
    (\<lparr>sr_ok = True, sr_affected_rows = 1, sr_row_offset = int (length (closed_content s)), sr_message = ''INSERT 1''\<rparr>,
     fs(table_path data_dir table \<mapsto> Regular (closed_content s @ csv_row vs)))"
proof -
  have "fopen_update fs (table_path data_dir table) = Inr s" using assms by (simp add: fopen_update_Inr)
  then show ?thesis by (simp add: append_row_csv_def closed_content_def Let_def)
qed

section \<open>The theorems of the storage\<close>

text \<open>
  C34 (round trip): parsing the text the writer emits for a non-empty row of terminator-free values
  gives back every value, except that a value which was written without quotes has lost its leading
  and trailing white space; in particular commas, quotes and carriage returns survive.
\<close>

theorem csv_round_trip:
  assumes "vs \<noteq> []" "\<forall>v \<in> set vs. NUL \<notin> set v"
  shows "csv_parse_line (csv_row vs) =
    Inr (map (\<lambda>v. if v \<noteq> [] \<and> \<not> list_ex csv_special v then trim_whitespace v else v) vs)"
proof -
  have "csv_stored = (\<lambda>v. if v \<noteq> [] \<and> \<not> list_ex csv_special v then trim_whitespace v else v)"
    by (rule ext) (simp add: csv_stored_def)
  then show ?thesis
    using csv_loop_row [OF assms(1)] csv_row_chars [OF assms(2)] by (simp add: csv_parse_line_def c_str_id)
qed

theorem csv_round_trip_witness:
  "csv_parse_line (csv_row [''a,b'', [], '' x '', [DQUOTE]]) = Inr [''a,b'', [], ''x'', [DQUOTE]]"
proof -
  have "csv_parse_line (csv_row [''a,b'', [], '' x '', [DQUOTE]]) =
    Inr (map (\<lambda>v. if v \<noteq> [] \<and> \<not> list_ex csv_special v then trim_whitespace v else v) [''a,b'', [], '' x '', [DQUOTE]])"
    by (rule csv_round_trip) simp_all
  also have "map (\<lambda>v. if v \<noteq> [] \<and> \<not> list_ex csv_special v then trim_whitespace v else v)
      [''a,b'', [], '' x '', [DQUOTE]] = [''a,b'', [], ''x'', [DQUOTE]]"
    by code_simp
  finally show ?thesis .
qed

text \<open>
  Appending: appending a row whose text is one line to a readable table file succeeds, adds
  exactly one row at the end of the rows the scan visits and keeps the others with their offsets;
  the offset in the result is the one under which the scan reports the new row, and reading at that
  offset returns it. No other file changes.
\<close>

theorem append_row_csv_appends:
  assumes "fs (table_path data_dir table) = Some (Regular s)" "s \<noteq> []" "csv_rows s = Inr rows"
    "one_line_row vs" "append_row_csv fs data_dir table vs = (result, fs')"
  shows "sr_ok result \<and> (\<exists>offset. sr_row_offset result = int offset \<and>
    (\<forall>visitor ctx. scan_rows_csv fs' data_dir table visitor ctx =
       visit_rows visitor (rows @ [(offset, map csv_stored vs)]) (ctx :: 'c)) \<and>
    read_row_at_offset_csv fs' data_dir table (sr_row_offset result) = Inr (map csv_stored vs)) \<and>
    (\<forall>path. path \<noteq> table_path data_dir table \<longrightarrow> fs' path = fs path)"
proof -
  let ?s' = "closed_content s @ csv_row vs"
  have res: "result = \<lparr>sr_ok = True, sr_affected_rows = 1, sr_row_offset = int (length (closed_content s)),
      sr_message = ''INSERT 1''\<rparr>" "fs' = fs(table_path data_dir table \<mapsto> Regular ?s')"
    using assms(5) append_row_csv_Regular [of fs, OF assms(1), of vs] by simp_all
  have stored: "fs' (table_path data_dir table) = Some (Regular ?s')" by (simp add: res)
  have ne: "?s' \<noteq> []" using closed_content_last [OF assms(2)] by simp
  have rows: "csv_rows ?s' = Inr (rows @ [(length (closed_content s), map csv_stored vs)])"
    by (rule csv_rows_append [OF assms(2,4,3)])
  have "scan_rows_csv fs' data_dir table visitor ctx =
      visit_rows visitor (rows @ [(length (closed_content s), map csv_stored vs)]) ctx"
    for visitor and ctx :: 'c by (rule scan_rows_visits [of fs', OF stored ne rows])
  moreover have "read_row_at_offset_csv fs' data_dir table (int (length (closed_content s))) = Inr (map csv_stored vs)"
    by (rule read_row_of_scan [of fs', OF stored rows]) simp
  ultimately show ?thesis by (auto simp: res)
qed

theorem append_row_csv_appends_witness:
  "\<exists>offset. \<forall>visitor ctx. scan_rows_csv (snd (append_row_csv [''d/t.csv'' \<mapsto> Regular ''name''] ''d'' ''t'' [''kim'']))
     ''d'' ''t'' visitor ctx = visit_rows visitor [(offset, [''kim''])] (ctx :: nat)"
proof -
  let ?fs = "[''d/t.csv'' \<mapsto> Regular ''name'']"
  have path: "table_path ''d'' ''t'' = ''d/t.csv''" by code_simp
  obtain result fs' where app: "append_row_csv ?fs ''d'' ''t'' [''kim''] = (result, fs')" by fastforce
  have "csv_rows ''name'' = Inr []" by code_simp
  moreover have "one_line_row [''kim'']" by code_simp
  moreover have "map csv_stored [''kim''] = [''kim'']" by code_simp
  ultimately show ?thesis
    using append_row_csv_appends [of ?fs "''d''" "''t''" "''name''" "[]" "[''kim'']" result fs'] app path by auto
qed

text \<open>
  Scan and random access agree: in every table file whose rows parse, reading at the offset the
  scan reports for a row returns the fields the scan passes to its visitor for that row. This is what
  makes the offsets of the index valid addresses.
\<close>

theorem read_row_agrees_with_scan:
  assumes "fs (table_path data_dir table) = Some (Regular s)" "csv_rows s = Inr rows"
  shows "\<forall>(offset, f) \<in> set rows. read_row_at_offset_csv fs data_dir table (int offset) = Inr f"
  using read_row_of_scan [of fs, OF assms] by blast

theorem read_row_agrees_with_scan_witness:
  "csv_rows ([CHR ''n'', LF, CHR ''a'', LF, LF, CHR ''b'']) = Inr [(2, [''a'']), (5, [''b''])] \<and>
   read_row_at_offset_csv [''d/t.csv'' \<mapsto> Regular [CHR ''n'', LF, CHR ''a'', LF, LF, CHR ''b'']] ''d'' ''t'' 5 = Inr [''b'']"
proof -
  let ?s = "[CHR ''n'', LF, CHR ''a'', LF, LF, CHR ''b'']"
  have rows: "csv_rows ?s = Inr [(2, [''a'']), (5, [''b''])]" by code_simp
  have path: "table_path ''d'' ''t'' = ''d/t.csv''" by code_simp
  show ?thesis
    using read_row_agrees_with_scan [of "[''d/t.csv'' \<mapsto> Regular ?s]" "''d''" "''t''" ?s, OF _ rows] rows
    by (simp add: path)
qed

text \<open>
  A value with a newline makes a table unreadable: the writer quotes a value that contains a
  newline and stores the row successfully, but the readers are line based, so from then on the rows
  of the table no longer parse: the line with the value is an unterminated quoted field. This is
  why the executor has to reject such values before it calls the writer.
\<close>

theorem newline_value_breaks_table:
  assumes "fs (table_path data_dir table) = Some (Regular s)" "s \<noteq> []" "csv_rows s = Inr rows"
    "\<forall>v \<in> set vs. NUL \<notin> set v" "\<exists>v \<in> set vs. LF \<in> set v" "length (csv_row vs) < LINE_SIZE"
  shows "\<exists>s'. sr_ok (fst (append_row_csv fs data_dir table vs)) \<and>
    snd (append_row_csv fs data_dir table vs) (table_path data_dir table) = Some (Regular s') \<and>
    csv_rows s' = Inl ''unterminated quoted CSV field''"
  using append_row_csv_Regular [of fs, OF assms(1), of vs] newline_row_rows [OF assms(2,4,6,5,3)] by auto

theorem newline_value_breaks_table_witness:
  "\<exists>s'. sr_ok (fst (append_row_csv [''d/t.csv'' \<mapsto> Regular ''name''] ''d'' ''t'' [[CHR ''a'', LF, CHR ''b'']])) \<and>
    snd (append_row_csv [''d/t.csv'' \<mapsto> Regular ''name''] ''d'' ''t'' [[CHR ''a'', LF, CHR ''b'']]) ''d/t.csv'' =
      Some (Regular s') \<and> csv_rows s' = Inl ''unterminated quoted CSV field''"
proof -
  have path: "table_path ''d'' ''t'' = ''d/t.csv''" by code_simp
  have "csv_rows ''name'' = Inr []" by code_simp
  moreover have "length (csv_row [[CHR ''a'', LF, CHR ''b'']]) < LINE_SIZE" by code_simp
  ultimately show ?thesis
    using newline_value_breaks_table [of "[''d/t.csv'' \<mapsto> Regular ''name'']" "''d''" "''t''" "''name''" "[]"
        "[[CHR ''a'', LF, CHR ''b'']]"] path by simp
qed

end
