(* ===== verification/Schema.thy ===== *)
theory Schema
  imports Storage
begin

text \<open>
  Loading and validating table schemas (\<open>storage/schema.c\<close>): finding the meta file of a table, by
  its name or by scanning the directory for a file that declares it, reading its \<open>table\<close> and
  \<open>columns\<close> entries, rejecting the reserved column \<open>id\<close>, and comparing the header of the CSV file
  with the columns. A candidate that is a directory leaves \<open>errno\<close> as the failed \<open>fopen\<close> of the
  first path set it, so the message names \<open>ENOENT\<close>.
\<close>

record schema =
  sch_table :: string
  sch_storage :: string
  sch_columns :: "string list"

section \<open>Paths\<close>

definition META :: string where
  "META = ''.meta''"

definition has_meta_extension :: "string \<Rightarrow> bool" where
  "has_meta_extension filename \<longleftrightarrow> length filename \<ge> 5 \<and> drop (length filename - 5) filename = META"

definition extract_storage_name :: "string \<Rightarrow> string" where
  "extract_storage_name path =
     (let filename = rev (takeWhile (\<lambda>c. c \<noteq> CHR ''/'') (rev path)) in
      if has_meta_extension filename then take (length filename - 5) filename else filename)"

definition build_child_file_path :: "string \<Rightarrow> string \<Rightarrow> string" where
  "build_child_file_path dir filename = dir @ ''/'' @ filename"

section \<open>Meta files\<close>

text \<open>A line of a meta file: the key before the first equals sign and the trimmed value after it.\<close>

definition meta_entry :: "string \<Rightarrow> (string \<times> string) option" where
  "meta_entry trimmed =
     (if CHR ''='' \<in> set trimmed
      then Some (takeWhile (\<lambda>c. c \<noteq> CHR ''='') trimmed,
                 trim_whitespace (tl (dropWhile (\<lambda>c. c \<noteq> CHR ''='') trimmed)))
      else None)"

function declares_loop :: "string \<Rightarrow> string \<Rightarrow> bool" where
  "declares_loop rest table =
     (case fgets LINE_SIZE rest of
        None \<Rightarrow> False
      | Some (line, rest') \<Rightarrow>
          let trimmed = trim_whitespace (line_text line) in
          if trimmed \<noteq> [] \<and> meta_entry trimmed = Some (''table'', table) then True
          else declares_loop rest' table)"
  by pat_completeness auto
termination
  by (relation "measure (\<lambda>(rest, table). length rest)") (auto dest: fgets_progress)

declare declares_loop.simps [simp del]

definition open_meta_error :: "string \<Rightarrow> errno \<Rightarrow> string" where
  "open_meta_error path e = format_system_error 256 ''failed to open schema meta file'' path e"

definition file_declares_table :: "filesystem \<Rightarrow> string \<Rightarrow> string \<Rightarrow> bool outcome" where
  "file_declares_table fs path table =
     (if \<not> is_regular_file fs path then Inl (open_meta_error path ENOENT)
      else case fopen_rb fs path of
        Inl e \<Rightarrow> Inl (open_meta_error path e)
      | Inr content \<Rightarrow> Inr (declares_loop content table))"

fun find_in_entries :: "filesystem \<Rightarrow> string \<Rightarrow> string list \<Rightarrow> string \<Rightarrow> string outcome" where
  "find_in_entries fs schema_dir [] table = Inl ''schema meta file does not exist''"
| "find_in_entries fs schema_dir (e # es) table =
     (if \<not> has_meta_extension e then find_in_entries fs schema_dir es table
      else case file_declares_table fs (build_child_file_path schema_dir e) table of
        Inl m \<Rightarrow> Inl m
      | Inr True \<Rightarrow> Inr (build_child_file_path schema_dir e)
      | Inr False \<Rightarrow> find_in_entries fs schema_dir es table)"

definition find_schema_path :: "filesystem \<Rightarrow> string \<Rightarrow> string \<Rightarrow> string outcome" where
  "find_schema_path fs schema_dir table =
     (let path = build_path schema_dir table META in
      case fopen_rb fs path of
        Inr _ \<Rightarrow> Inr path
      | Inl e \<Rightarrow>
          if e \<noteq> ENOENT \<and> e \<noteq> ENOTDIR then Inl (open_meta_error path e)
          else case opendir fs schema_dir of
            Inl e' \<Rightarrow> Inl (format_system_error 256 ''failed to open schema directory'' schema_dir e')
          | Inr entries \<Rightarrow> find_in_entries fs schema_dir entries table)"

definition parse_columns_value :: "string \<Rightarrow> string list outcome" where
  "parse_columns_value v = csv_parse_line v"

text \<open>The loop over a meta file; the table name is absent until a \<open>table\<close> entry is read.\<close>

function meta_loop :: "string \<Rightarrow> string option \<Rightarrow> string list \<Rightarrow> (string option \<times> string list) outcome" where
  "meta_loop rest table columns =
     (case fgets LINE_SIZE rest of
        None \<Rightarrow> Inr (table, columns)
      | Some (line, rest') \<Rightarrow>
          let trimmed = trim_whitespace (line_text line) in
          if trimmed = [] then meta_loop rest' table columns
          else (case meta_entry trimmed of
              None \<Rightarrow> Inl ''invalid schema meta format''
            | Some (key, v) \<Rightarrow>
                if key = ''table'' then meta_loop rest' (Some v) columns
                else if key = ''columns'' then
                  (case parse_columns_value v of
                     Inl e \<Rightarrow> Inl e
                   | Inr columns' \<Rightarrow> meta_loop rest' table columns')
                else meta_loop rest' table columns))"
  by pat_completeness auto
termination
  by (relation "measure (\<lambda>(rest, table, columns). length rest)") (auto dest: fgets_progress)

declare meta_loop.simps [simp del]

section \<open>Validation\<close>

fun header_matches :: "string list \<Rightarrow> string list \<Rightarrow> bool" where
  "header_matches (h # hs) (c # cs) = (if h \<noteq> c then False else header_matches hs cs)"
| "header_matches _ _ = True"

definition validate_csv_header ::
    "filesystem \<Rightarrow> string \<Rightarrow> string \<Rightarrow> string list \<Rightarrow> unit outcome" where
  "validate_csv_header fs data_dir storage columns =
     (case fopen_rb fs (build_path data_dir storage ''.csv'') of
        Inl e \<Rightarrow> Inl (format_system_error 256 ''failed to open table data file''
                        (build_path data_dir storage ''.csv'') e)
      | Inr content \<Rightarrow>
          (case fgets LINE_SIZE content of
             None \<Rightarrow> Inl ''table data file is empty''
           | Some (line, _) \<Rightarrow>
               (case csv_parse_line (line_text line) of
                  Inl e \<Rightarrow> Inl e
                | Inr header \<Rightarrow>
                    if length header \<noteq> length columns
                    then Inl ''CSV header does not match schema column count''
                    else if \<not> header_matches header columns
                    then Inl ''CSV header does not match schema column order''
                    else Inr ())))"

definition schema_find_column :: "schema \<Rightarrow> string \<Rightarrow> int" where
  "schema_find_column sch column = string_list_index_of (sch_columns sch) column"

definition schema_has_reserved_id_column :: "schema \<Rightarrow> bool" where
  "schema_has_reserved_id_column sch \<longleftrightarrow> schema_find_column sch ''id'' \<ge> 0"

text \<open>The checks of \<open>load_schema\<close> once the meta file is read.\<close>

definition check_schema ::
    "filesystem \<Rightarrow> string \<Rightarrow> string \<Rightarrow> string \<Rightarrow> string option \<Rightarrow> string list \<Rightarrow> schema outcome" where
  "check_schema fs data_dir table storage name columns =
     (case name of
        None \<Rightarrow> Inl ''schema meta file is missing required fields''
      | Some declared \<Rightarrow>
          if columns = [] then Inl ''schema meta file is missing required fields''
          else
            let sch = \<lparr>sch_table = declared, sch_storage = storage, sch_columns = columns\<rparr> in
            if schema_has_reserved_id_column sch
            then Inl (''reserved column name '' @ [SQUOTE] @ ''id'' @ [SQUOTE] @ '' is not allowed in user schema'')
            else if declared \<noteq> table \<and> storage \<noteq> table
            then Inl ''schema table name does not match requested table''
            else sbind (validate_csv_header fs data_dir storage columns) (\<lambda>_. Inr sch))"

definition load_schema :: "filesystem \<Rightarrow> string \<Rightarrow> string \<Rightarrow> string \<Rightarrow> schema outcome" where
  "load_schema fs schema_dir data_dir table =
     sbind (find_schema_path fs schema_dir table) (\<lambda>path.
     sbind (map_err (open_meta_error path) (fopen_rb fs path)) (\<lambda>content.
     sbind (meta_loop content None []) (\<lambda>(name, columns).
     check_schema fs data_dir table (extract_storage_name path) name columns)))"

section \<open>Accepted schemas\<close>

text \<open>
  What every later step relies on: a table that passed validation has at least one column, none
  of them the reserved name, and a non-empty CSV file whose first line parses to the columns.
\<close>

definition table_header :: "string \<Rightarrow> string list outcome" where
  "table_header content = (case fgets LINE_SIZE content of
       None \<Rightarrow> Inl ''table data file is empty''
     | Some (line, _) \<Rightarrow> csv_parse_line (line_text line))"

definition valid_table :: "filesystem \<Rightarrow> string \<Rightarrow> schema \<Rightarrow> bool" where
  "valid_table fs data_dir sch \<longleftrightarrow> sch_columns sch \<noteq> [] \<and> ''id'' \<notin> set (sch_columns sch) \<and>
     (\<exists>s. fs (table_path data_dir (sch_storage sch)) = Some (Regular s) \<and> s \<noteq> [] \<and>
          table_header s = Inr (sch_columns sch))"

lemma header_matches_eq: "length hs = length cs \<Longrightarrow> header_matches hs cs \<longleftrightarrow> hs = cs"
  by (induction hs cs rule: header_matches.induct) auto

lemma table_header_Nil [simp]: "table_header [] = Inl ''table data file is empty''"
  by (simp add: table_header_def)

lemma fopen_rb_Inr_iff:
  "fopen_rb fs p = Inr s \<longleftrightarrow> fs p = Some (Regular s) \<or> s = [] \<and> (\<exists>es. fs p = Some (Directory es))"
  by (auto simp: fopen_rb_def split: option.splits fnode.splits)

lemma validate_csv_header_content:
  assumes "fopen_rb fs (table_path data_dir storage) = Inr s"
  shows "validate_csv_header fs data_dir storage columns = Inr u \<longleftrightarrow> table_header s = Inr columns"
  using assms header_matches_eq [of _ columns]
  by (cases u) (auto simp: validate_csv_header_def table_path_def [symmetric] table_header_def
      split: option.splits sum.splits if_splits)

lemma validate_csv_header_iff:
  "validate_csv_header fs data_dir storage columns = Inr u \<longleftrightarrow>
   (\<exists>s. fs (table_path data_dir storage) = Some (Regular s) \<and> s \<noteq> [] \<and> table_header s = Inr columns)"
proof (cases "fopen_rb fs (table_path data_dir storage)")
  case (Inl e)
  then have "validate_csv_header fs data_dir storage columns \<noteq> Inr u"
    by (simp add: validate_csv_header_def table_path_def)
  with Inl show ?thesis by (auto simp: fopen_rb_def)
next
  case (Inr s)
  then consider (reg) "fs (table_path data_dir storage) = Some (Regular s)"
    | (dir) es where "s = []" "fs (table_path data_dir storage) = Some (Directory es)"
    by (auto simp: fopen_rb_Inr_iff)
  then show ?thesis using validate_csv_header_content [OF Inr] by cases auto
qed

lemma reserved_iff: "schema_has_reserved_id_column sch \<longleftrightarrow> ''id'' \<in> set (sch_columns sch)"
  using string_list_index_of_neg [of "sch_columns sch" "''id''"]
  by (simp add: schema_has_reserved_id_column_def schema_find_column_def linorder_not_less [symmetric])

lemma check_schema_sound:
  assumes "check_schema fs data_dir table storage name columns = Inr sch"
  shows "valid_table fs data_dir sch \<and> (sch_table sch = table \<or> sch_storage sch = table)"
  using assms
  by (auto simp: check_schema_def valid_table_def sbind_Inr_iff Let_def reserved_iff validate_csv_header_iff
      split: option.splits if_splits)

section \<open>Appending rows does not affect schemas\<close>

lemma table_header_first_line: "first_line s' = first_line s \<Longrightarrow> table_header s' = table_header s"
  by (auto simp: table_header_def first_line_def split: option.splits)

lemma has_meta_extension_last: "has_meta_extension p \<Longrightarrow> p \<noteq> [] \<and> last p = CHR ''a''"
proof -
  assume m: "has_meta_extension p"
  then have "last (drop (length p - 5) p) = CHR ''a''" "5 \<le> length p" by (simp_all add: has_meta_extension_def META_def)
  then show ?thesis by (cases "p = []") auto
qed

lemma table_path_last: "last (table_path d t) = CHR ''v''"
  by (simp add: table_path_def build_path_def)

lemma meta_path_last: "last (build_path d t META) = CHR ''a''"
  by (simp add: build_path_def META_def)

lemma child_path_last: "has_meta_extension e \<Longrightarrow> last (build_child_file_path d e) = CHR ''a''"
  using has_meta_extension_last [of e] by (simp add: build_child_file_path_def)

lemma find_in_entries_last: "find_in_entries fs d es t = Inr p \<Longrightarrow> last p = CHR ''a''"
  by (induction fs d es t rule: find_in_entries.induct)
    (auto simp: child_path_last split: if_splits sum.splits bool.splits)

lemma find_schema_path_last: "find_schema_path fs d t = Inr p \<Longrightarrow> last p = CHR ''a''"
  by (auto simp: find_schema_path_def Let_def meta_path_last find_in_entries_last split: sum.splits if_splits)

lemma file_declares_table_same: "fs' p = fs p \<Longrightarrow> file_declares_table fs' p t = file_declares_table fs p t"
  by (simp add: file_declares_table_def is_regular_file_def fopen_rb_def)

text \<open>\<open>grown\<close>: the file of table \<open>t\<close> has changed, but not its header; nothing else has.\<close>

definition grown :: "filesystem \<Rightarrow> filesystem \<Rightarrow> string \<Rightarrow> string \<Rightarrow> bool" where
  "grown fs fs' d t \<longleftrightarrow> (\<forall>p. p \<noteq> table_path d t \<longrightarrow> fs' p = fs p) \<and>
     (\<exists>s s'. fs (table_path d t) = Some (Regular s) \<and> fs' (table_path d t) = Some (Regular s') \<and>
        table_header s' = table_header s)"

lemma grown_meta: "grown fs fs' d t \<Longrightarrow> last p = CHR ''a'' \<Longrightarrow> fs' p = fs p"
  using table_path_last [of d t] by (cases "p = table_path d t") (auto simp: grown_def)

lemma find_in_entries_grown:
  "grown fs fs' d t \<Longrightarrow> find_in_entries fs' sd es u = find_in_entries fs sd es u"
  by (induction es)
    (auto simp: file_declares_table_same [of fs' _ fs] grown_meta child_path_last split: sum.splits bool.splits)

lemma find_schema_path_grown:
  assumes "grown fs fs' d t"
  shows "find_schema_path fs' sd u = find_schema_path fs sd u"
proof -
  have meta: "fopen_rb fs' (build_path sd u META) = fopen_rb fs (build_path sd u META)"
    using grown_meta [OF assms meta_path_last] by (simp add: fopen_rb_def)
  have dir: "opendir fs' sd = opendir fs sd"
    using assms by (cases "sd = table_path d t") (auto simp: grown_def opendir_def)
  show ?thesis
    unfolding find_schema_path_def Let_def meta dir find_in_entries_grown [OF assms] ..
qed

lemma validate_csv_header_Regular:
  "fs (table_path d u) = Some (Regular s) \<Longrightarrow> validate_csv_header fs d u columns =
   (case table_header s of
      Inl e \<Rightarrow> Inl e
    | Inr header \<Rightarrow>
        if length header \<noteq> length columns then Inl ''CSV header does not match schema column count''
        else if \<not> header_matches header columns then Inl ''CSV header does not match schema column order''
        else Inr ())"
  by (simp add: validate_csv_header_def table_path_def [symmetric] table_header_def split: option.split prod.split)

lemma validate_csv_header_grown:
  assumes "grown fs fs' d t"
  shows "validate_csv_header fs' d u columns = validate_csv_header fs d u columns"
proof (cases "table_path d u = table_path d t")
  case False
  with assms show ?thesis
    by (simp add: grown_def validate_csv_header_def table_path_def [symmetric] fopen_rb_def)
next
  case True
  then obtain s s' where s: "fs (table_path d u) = Some (Regular s)" "fs' (table_path d u) = Some (Regular s')"
    "table_header s' = table_header s" using assms by (auto simp: grown_def)
  then show ?thesis by (simp add: validate_csv_header_Regular)
qed

lemma load_schema_grown:
  assumes "grown fs fs' d t"
  shows "load_schema fs' sd d u = load_schema fs sd d u"
proof (cases "find_schema_path fs sd u")
  case (Inl e)
  then show ?thesis by (simp add: load_schema_def find_schema_path_grown [OF assms])
next
  case (Inr p)
  then have "fs' p = fs p" using grown_meta [OF assms] find_schema_path_last by blast
  then have "fopen_rb fs' p = fopen_rb fs p" by (simp add: fopen_rb_def)
  moreover have "check_schema fs' d u st name columns = check_schema fs d u st name columns" for st name columns
    unfolding check_schema_def validate_csv_header_grown [OF assms] ..
  ultimately show ?thesis by (simp add: load_schema_def find_schema_path_grown [OF assms] Inr)
qed

text \<open>
  Soundness of schema loading: whenever loading a table succeeds, the result names the
  requested table by its declared or its storage name, has at least one column and no column called
  \<open>id\<close>, and the table's CSV file is a non-empty regular file whose header is exactly the column list.
\<close>

theorem load_schema_sound:
  assumes "load_schema fs schema_dir data_dir table = Inr sch"
  shows "valid_table fs data_dir sch \<and> (sch_table sch = table \<or> sch_storage sch = table)"
proof -
  obtain path name columns where
    "check_schema fs data_dir table (extract_storage_name path) name columns = Inr sch"
    using assms by (auto simp: load_schema_def sbind_Inr_iff)
  then show ?thesis by (rule check_schema_sound)
qed

theorem load_schema_sound_witness:
  "load_schema [''s/t.meta'' \<mapsto> Regular (''table=users'' @ [LF] @ ''columns=name,age'' @ [LF]),
      ''d/t.csv'' \<mapsto> Regular (''name,age'' @ [LF] @ ''kim,3'')] ''s'' ''d'' ''t'' =
     Inr \<lparr>sch_table = ''users'', sch_storage = ''t'', sch_columns = [''name'', ''age'']\<rparr> \<and>
   valid_table [''s/t.meta'' \<mapsto> Regular (''table=users'' @ [LF] @ ''columns=name,age'' @ [LF]),
      ''d/t.csv'' \<mapsto> Regular (''name,age'' @ [LF] @ ''kim,3'')] ''d''
     \<lparr>sch_table = ''users'', sch_storage = ''t'', sch_columns = [''name'', ''age'']\<rparr>"
proof -
  let ?fs = "[''s/t.meta'' \<mapsto> Regular (''table=users'' @ [LF] @ ''columns=name,age'' @ [LF]),
      ''d/t.csv'' \<mapsto> Regular (''name,age'' @ [LF] @ ''kim,3'')]"
  have "load_schema ?fs ''s'' ''d'' ''t'' =
      Inr \<lparr>sch_table = ''users'', sch_storage = ''t'', sch_columns = [''name'', ''age'']\<rparr>"
    by code_simp
  with load_schema_sound [OF this] show ?thesis by blast
qed

end
