(* ===== verification/BPTree.thy ===== *)
theory BPTree
  imports CLib
begin

text \<open>
  The memory-resident B+ tree of \<open>index/bptree.c\<close>, from row ids to row offsets. A node owns its
  children, so a tree is a value of a datatype; the only other pointers are the \<open>next\<close> links
  between leaves, for which every leaf carries an address. The arrays of a node, which have one
  slot more than \<open>BPTREE_MAX_KEYS\<close>, are represented by their live prefixes (see
  \<open>shift_right_insert\<close> for the shifting loops); a store beyond the last slot is the fault
  \<open>ArrayOverflow\<close>. Allocation is a parameter: \<open>mem i\<close> tells whether the \<open>i\<close>-th \<open>calloc\<close> of the
  tree succeeds, and the number of a successful one is the address of the new node.

  The theory defines the operations, the structural invariant \<open>bt\<close> (key order, separators, balance
  and occupancy), the in-order view \<open>kvs\<close>, and shows that insertion and search implement a finite
  map; the interface the table index builds on is the locale \<open>ordered_index\<close>.
\<close>

section \<open>Nodes\<close>

definition BPTREE_MAX_KEYS :: nat where
  "BPTREE_MAX_KEYS = 3"

datatype bnode =
    Leaf (leaf_addr: nat) (leaf_next: "nat option") (leaf_keys: "int list") (leaf_values: "int list")
  | Internal (node_keys: "int list") (node_children: "bnode list")

record bptree =
  bt_root :: "bnode option"
  bt_allocs :: nat

type_synonym alloc_oracle = "nat \<Rightarrow> bool"

datatype insert_state = Failed fault | Done | Split int bnode

section \<open>Operations\<close>

definition find_child_index :: "int list \<Rightarrow> int \<Rightarrow> nat" where
  "find_child_index ks key = length (takeWhile (\<lambda>k. key \<ge> k) ks)"

definition make_error :: "string \<Rightarrow> insert_state" where
  "make_error message = Failed (Message (snprintf 256 message))"

definition insert_into_leaf ::
    "alloc_oracle \<Rightarrow> nat \<Rightarrow> bnode \<Rightarrow> int \<Rightarrow> int \<Rightarrow> insert_state \<times> bnode \<times> nat" where
  "insert_into_leaf mem n node key v =
     (let ks = leaf_keys node; vs = leaf_values node;
          insert_index = length (takeWhile (\<lambda>k. k < key) ks) in
      if insert_index < length ks \<and> ks ! insert_index = key
      then (make_error ''duplicate id key'', node, n)
      else if length ks \<ge> BPTREE_MAX_KEYS + 1 then (Failed ArrayOverflow, node, n)
      else
        let ks' = insert_at insert_index key ks; vs' = insert_at insert_index v vs in
        if length ks' \<le> BPTREE_MAX_KEYS
        then (Done, Leaf (leaf_addr node) (leaf_next node) ks' vs', n)
        else if \<not> mem n
        then (make_error ''out of memory while splitting B+ tree leaf'',
              Leaf (leaf_addr node) (leaf_next node) ks' vs', Suc n)
        else
          let split_index = length ks' div 2;
              right = Leaf n (leaf_next node) (drop split_index ks') (drop split_index vs') in
          (Split (drop split_index ks' ! 0) right,
           Leaf (leaf_addr node) (Some n) (take split_index ks') (take split_index vs'), Suc n))"

text \<open>
  The part of \<open>insert_into_internal\<close> that follows the recursive call: the split of the child, if
  any, is entered into the node, which may split in turn.
\<close>

definition absorb_split ::
    "alloc_oracle \<Rightarrow> nat \<Rightarrow> int list \<Rightarrow> bnode list \<Rightarrow> nat \<Rightarrow> insert_state \<Rightarrow> insert_state \<times> bnode \<times> nat" where
  "absorb_split mem n ks cs child_index child_state =
     (case child_state of
        Failed e \<Rightarrow> (Failed e, Internal ks cs, n)
      | Done \<Rightarrow> (Done, Internal ks cs, n)
      | Split promoted_key right_node \<Rightarrow>
          if length ks \<ge> BPTREE_MAX_KEYS + 1 then (Failed ArrayOverflow, Internal ks cs, n)
          else
            let ks' = insert_at child_index promoted_key ks;
                cs' = insert_at (child_index + 1) right_node cs in
            if length ks' \<le> BPTREE_MAX_KEYS then (Done, Internal ks' cs', n)
            else if \<not> mem n
            then (make_error ''out of memory while splitting B+ tree internal node'', Internal ks' cs', Suc n)
            else
              let mid_index = length ks' div 2 in
              (Split (ks' ! mid_index) (Internal (drop (mid_index + 1) ks') (drop (mid_index + 1) cs')),
               Internal (take mid_index ks') (take (mid_index + 1) cs'), Suc n))"

lemma child_size: "i < length cs \<Longrightarrow> size (cs ! i) \<le> size_list size cs"
  by (rule size_list_estimation' [of "cs ! i"]) auto

function insert_into_node ::
    "alloc_oracle \<Rightarrow> nat \<Rightarrow> bnode \<Rightarrow> int \<Rightarrow> int \<Rightarrow> insert_state \<times> bnode \<times> nat" where
  "insert_into_node mem n (Leaf a nx ks vs) key v = insert_into_leaf mem n (Leaf a nx ks vs) key v"
| "insert_into_node mem n (Internal ks cs) key v =
     (let child_index = find_child_index ks key in
      if child_index < length cs
      then (case insert_into_node mem n (cs ! child_index) key v of
              (child_state, child, n') \<Rightarrow>
                absorb_split mem n' ks (cs[child_index := child]) child_index child_state)
      else (Failed ArrayOverflow, Internal ks cs, n))"
  by pat_completeness auto
termination
  by (relation "measure (\<lambda>(mem, n, node, key, v). size node)") (auto simp: less_Suc_eq_le child_size)

definition bptree_init :: bptree where
  "bptree_init = \<lparr>bt_root = None, bt_allocs = 0\<rparr>"

definition bptree_free :: "bptree \<Rightarrow> bptree" where
  "bptree_free tree = tree\<lparr>bt_root := None\<rparr>"

definition bptree_insert ::
    "alloc_oracle \<Rightarrow> bptree \<Rightarrow> int \<Rightarrow> int \<Rightarrow> (fault + unit) \<times> bptree" where
  "bptree_insert mem tree key v =
     (let n = bt_allocs tree in
      case bt_root tree of
        None \<Rightarrow>
          if mem n
          then (Inr (), \<lparr>bt_root = Some (Leaf n None [key] [v]), bt_allocs = Suc n\<rparr>)
          else (Inl (Message ''out of memory while creating B+ tree root''), tree\<lparr>bt_allocs := Suc n\<rparr>)
      | Some root \<Rightarrow>
          (case insert_into_node mem n root key v of
             (Failed e, root', n') \<Rightarrow> (Inl e, \<lparr>bt_root = Some root', bt_allocs = n'\<rparr>)
           | (Done, root', n') \<Rightarrow> (Inr (), \<lparr>bt_root = Some root', bt_allocs = n'\<rparr>)
           | (Split promoted_key right_node, root', n') \<Rightarrow>
               if mem n'
               then (Inr (), \<lparr>bt_root = Some (Internal [promoted_key] [root', right_node]),
                              bt_allocs = Suc n'\<rparr>)
               else (Inl (Message ''out of memory while growing B+ tree root''),
                     \<lparr>bt_root = Some root', bt_allocs = Suc n'\<rparr>)))"

text \<open>The search loop; it follows live child slots only, and a missing child ends it.\<close>

function search_node :: "bnode \<Rightarrow> int \<Rightarrow> int option" where
  "search_node (Leaf a nx ks vs) key = map_of (zip ks vs) key"
| "search_node (Internal ks cs) key =
     (let child_index = find_child_index ks key in
      if child_index < length cs then search_node (cs ! child_index) key else None)"
  by pat_completeness auto
termination
  by (relation "measure (\<lambda>(node, key). size node)") (auto simp: less_Suc_eq_le child_size)

definition bptree_search :: "bptree \<Rightarrow> int \<Rightarrow> int option" where
  "bptree_search tree key =
     (case bt_root tree of None \<Rightarrow> None | Some root \<Rightarrow> search_node root key)"

section \<open>The invariant\<close>

text \<open>
  \<open>seg P lo ks hi cs\<close>: the separators \<open>ks\<close> cut the interval from \<open>lo\<close> to \<open>hi\<close> into the segments of
  the children \<open>cs\<close>, each of which satisfies \<open>P\<close> on its segment.
\<close>

fun seg :: "(int \<Rightarrow> int \<Rightarrow> bnode \<Rightarrow> bool) \<Rightarrow> int \<Rightarrow> int list \<Rightarrow> int \<Rightarrow> bnode list \<Rightarrow> bool" where
  "seg P lo [] hi [c] \<longleftrightarrow> P lo hi c"
| "seg P lo (k # ks) hi (c # cs) \<longleftrightarrow> P lo k c \<and> seg P k ks hi cs"
| "seg P lo ks hi cs \<longleftrightarrow> False"

text \<open>
  \<open>bt h lo hi node\<close>: all leaves are at depth \<open>h\<close>, every node holds between one and
  \<open>BPTREE_MAX_KEYS\<close> keys, the keys of every leaf are strictly increasing, and all keys below a child
  lie between the separators on its sides.
\<close>

primrec bt :: "nat \<Rightarrow> int \<Rightarrow> int \<Rightarrow> bnode \<Rightarrow> bool" where
  "bt 0 = (\<lambda>lo hi node. case node of
       Leaf a nx ks vs \<Rightarrow> length vs = length ks \<and> ks \<noteq> [] \<and> length ks \<le> BPTREE_MAX_KEYS \<and>
         sorted_wrt (<) ks \<and> (\<forall>k \<in> set ks. lo \<le> k \<and> k < hi)
     | Internal ks cs \<Rightarrow> False)"
| "bt (Suc h) = (\<lambda>lo hi node. case node of
       Leaf a nx ks vs \<Rightarrow> False
     | Internal ks cs \<Rightarrow> ks \<noteq> [] \<and> length ks \<le> BPTREE_MAX_KEYS \<and> seg (bt h) lo ks hi cs)"

fun kvs :: "bnode \<Rightarrow> (int \<times> int) list" where
  "kvs (Leaf a nx ks vs) = zip ks vs"
| "kvs (Internal ks cs) = concat (map kvs cs)"

definition bptree_inv :: "bptree \<Rightarrow> bool" where
  "bptree_inv tree \<longleftrightarrow>
     (case bt_root tree of None \<Rightarrow> True | Some root \<Rightarrow> \<exists>h. bt h INT_MIN (INT_MAX + 1) root)"

definition entries :: "bptree \<Rightarrow> (int \<times> int) list" where
  "entries tree = (case bt_root tree of None \<Rightarrow> [] | Some root \<Rightarrow> kvs root)"

lemma seg_length: "seg P lo ks hi cs \<Longrightarrow> length cs = Suc (length ks)"
  by (induction P lo ks hi cs rule: seg.induct) auto

lemma seg_append:
  "length cs1 = Suc (length ks1) \<Longrightarrow>
   seg P lo (ks1 @ k # ks2) hi (cs1 @ cs2) \<longleftrightarrow> seg P lo ks1 k cs1 \<and> seg P k ks2 hi cs2"
proof (induction ks1 arbitrary: lo cs1)
  case Nil
  then show ?case by (cases cs1) auto
next
  case (Cons k' ks1)
  then show ?case by (cases cs1) auto
qed

lemma seg_bounds:
  assumes pos: "\<And>a b c. P a b c \<Longrightarrow> a < b"
  shows "seg P lo ks hi cs \<Longrightarrow> lo < hi \<and> (\<forall>c \<in> set cs. \<exists>a b. P a b c \<and> lo \<le> a \<and> b \<le> hi)"
proof (induction ks arbitrary: lo cs)
  case Nil
  then show ?case using pos by (cases "(P, lo, [] :: int list, hi, cs)" rule: seg.cases) auto
next
  case (Cons k ks)
  then obtain c cs' where cs: "cs = c # cs'" "P lo k c" "seg P k ks hi cs'" by (cases cs) auto
  with Cons.IH [of k cs'] pos [of lo k c] show ?case by fastforce
qed

text \<open>
  Descending to the child of \<open>key\<close>: the separators and children to its left and right, the segment
  \<open>l\<close>, \<open>r\<close> of the child itself, and how the node is put back together when the child is replaced
  by one node, or by two nodes with a new separator.
\<close>

definition descends where
  "descends P lo ks hi cs key ks1 ks2 cs1 c cs2 l r \<longleftrightarrow>
     ks = ks1 @ ks2 \<and> cs = cs1 @ c # cs2 \<and> length ks1 = find_child_index ks key \<and>
     length cs1 = length ks1 \<and> P l r c \<and> l \<le> key \<and> key < r \<and>
     (\<forall>d \<in> set cs1. \<exists>a b. P a b d \<and> b \<le> key) \<and> (\<forall>d \<in> set cs2. \<exists>a b. P a b d \<and> key < a) \<and>
     (\<forall>c'. P l r c' \<longrightarrow> seg P lo ks hi (cs1 @ c' # cs2)) \<and>
     (\<forall>m c1 c2. P l m c1 \<longrightarrow> P m r c2 \<longrightarrow> seg P lo (ks1 @ m # ks2) hi (cs1 @ c1 # c2 # cs2))"

lemma seg_descends:
  assumes pos: "\<And>a b c. P a b c \<Longrightarrow> a < b"
  shows "seg P lo ks hi cs \<Longrightarrow> lo \<le> key \<Longrightarrow> key < hi \<Longrightarrow>
    \<exists>ks1 ks2 cs1 c cs2 l r. descends P lo ks hi cs key ks1 ks2 cs1 c cs2 l r"
proof (induction ks arbitrary: lo cs)
  case Nil
  then obtain c where "cs = [c]" "P lo hi c"
    by (cases "(P, lo, [] :: int list, hi, cs)" rule: seg.cases) auto
  with Nil.prems show ?case
    by (intro exI [of _ "[]"] exI [of _ c] exI [of _ lo] exI [of _ hi])
      (auto simp: descends_def find_child_index_def)
next
  case (Cons k ks)
  then obtain c cs' where cs: "cs = c # cs'" "P lo k c" "seg P k ks hi cs'" by (cases cs) auto
  show ?case
  proof (cases "key < k")
    case True
    have "\<forall>d \<in> set cs'. \<exists>a b. P a b d \<and> key < a"
      using seg_bounds [OF pos cs(3)] True by fastforce
    with True cs Cons.prems show ?thesis
      by (intro exI [of _ "[]"] exI [of _ "k # ks"] exI [of _ c] exI [of _ cs'] exI [of _ lo] exI [of _ k])
        (auto simp: descends_def find_child_index_def)
  next
    case False
    with Cons.IH [OF cs(3)] Cons.prems obtain ks1 ks2 cs1 d cs2 l r
      where "descends P k ks hi cs' key ks1 ks2 cs1 d cs2 l r" by fastforce
    moreover have "\<exists>a b. P a b c \<and> b \<le> key" using cs(2) False by force
    ultimately show ?thesis using False cs
      by (intro exI [of _ "k # ks1"] exI [of _ ks2] exI [of _ "c # cs1"] exI [of _ d] exI [of _ cs2]
          exI [of _ l] exI [of _ r]) (auto simp: descends_def find_child_index_def)
  qed
qed

lemma bt_pos: "bt h lo hi node \<Longrightarrow> lo < hi"
proof (induction h arbitrary: lo hi node)
  case 0
  then obtain a nx ks vs where "node = Leaf a nx ks vs" "ks \<noteq> []" "\<forall>k \<in> set ks. lo \<le> k \<and> k < hi"
    by (auto split: bnode.splits)
  then show ?case by (cases ks) auto
next
  case (Suc h)
  then show ?case using seg_bounds [of "bt h"] by (auto split: bnode.splits)
qed

lemma bt_seg_bounds: "seg (bt h) lo ks hi cs \<Longrightarrow> c \<in> set cs \<Longrightarrow> \<exists>a b. bt h a b c \<and> lo \<le> a \<and> b \<le> hi"
  using seg_bounds [of "bt h" lo ks hi cs] bt_pos by blast

lemma bt_keys: "bt h lo hi node \<Longrightarrow> (k, v) \<in> set (kvs node) \<Longrightarrow> lo \<le> k \<and> k < hi"
proof (induction h arbitrary: lo hi node)
  case 0
  then show ?case by (auto split: bnode.splits dest: set_zip_leftD)
next
  case (Suc h)
  then obtain ks cs where n: "node = Internal ks cs" "seg (bt h) lo ks hi cs"
    by (auto split: bnode.splits)
  with Suc.prems obtain c where c: "c \<in> set cs" "(k, v) \<in> set (kvs c)" by auto
  from bt_seg_bounds [OF n(2) c(1)] obtain a b where "bt h a b c" "lo \<le> a" "b \<le> hi" by blast
  with Suc.IH [OF this(1) c(2)] show ?case by simp
qed

lemma bt_Suc_elim:
  assumes "bt (Suc h) lo hi node" "lo \<le> key" "key < hi"
  obtains ks cs ks1 ks2 cs1 c cs2 l r where "node = Internal ks cs" "ks \<noteq> []"
    "length ks \<le> BPTREE_MAX_KEYS" "seg (bt h) lo ks hi cs"
    "descends (bt h) lo ks hi cs key ks1 ks2 cs1 c cs2 l r"
proof -
  from assms(1) obtain ks cs where n: "node = Internal ks cs" "ks \<noteq> []"
    "length ks \<le> BPTREE_MAX_KEYS" "seg (bt h) lo ks hi cs" by (auto split: bnode.splits)
  from seg_descends [of "bt h", OF _ n(4) assms(2,3)] bt_pos show ?thesis using that n by blast
qed

section \<open>Search\<close>

lemma descends_others:
  assumes "descends (bt h) lo ks hi cs key ks1 ks2 cs1 c cs2 l r"
  shows "(k, v) \<in> set (concat (map kvs cs1)) \<Longrightarrow> k < key"
    and "(k, v) \<in> set (concat (map kvs cs2)) \<Longrightarrow> key < k"
  using assms bt_keys unfolding descends_def by fastforce+

lemma search_node_kvs: "bt h lo hi node \<Longrightarrow> lo \<le> key \<Longrightarrow> key < hi \<Longrightarrow> search_node node key = map_of (kvs node) key"
proof (induction h arbitrary: lo hi node)
  case 0
  then show ?case by (auto split: bnode.splits)
next
  case (Suc h)
  from bt_Suc_elim [OF Suc.prems] obtain ks cs ks1 ks2 cs1 c cs2 l r where
    n: "node = Internal ks cs" and d: "descends (bt h) lo ks hi cs key ks1 ks2 cs1 c cs2 l r"
    by metis
  have c: "cs = cs1 @ c # cs2" "find_child_index ks key = length cs1" "bt h l r c" "l \<le> key" "key < r"
    using d by (auto simp: descends_def)
  have "map_of (concat (map kvs cs1)) key = None" "map_of (concat (map kvs cs2)) key = None"
    using descends_others [OF d] by (force simp: map_of_eq_None_iff)+
  with c show ?case
    using Suc.IH [OF c(3-5)] by (auto simp: n map_add_def split: option.splits)
qed

section \<open>Insertion\<close>

fun ins_kv :: "int \<Rightarrow> int \<Rightarrow> (int \<times> int) list \<Rightarrow> (int \<times> int) list" where
  "ins_kv key v [] = [(key, v)]"
| "ins_kv key v ((k, w) # xs) = (if k < key then (k, w) # ins_kv key v xs else (key, v) # (k, w) # xs)"

lemma ins_kv_append:
  assumes "\<And>k w. (k, w) \<in> set A \<Longrightarrow> k < key" "\<And>k w. (k, w) \<in> set B \<Longrightarrow> key < k"
  shows "ins_kv key v (A @ xs @ B) = A @ ins_kv key v xs @ B"
proof -
  have nil: "ins_kv key v B = (key, v) # B" using assms(2) by (cases B) force+
  have "ins_kv key v (ys @ B) = ins_kv key v ys @ B" for ys
    by (induction ys) (auto simp: nil)
  moreover have "\<forall>p \<in> set A. fst p < key" using assms(1) by force
  ultimately show ?thesis by (induction A) auto
qed

lemma set_ins_kv [simp]: "set (ins_kv key v xs) = insert (key, v) (set xs)"
  by (induction key v xs rule: ins_kv.induct) auto

lemma length_ins_kv [simp]: "length (ins_kv key v xs) = Suc (length xs)"
  by (induction key v xs rule: ins_kv.induct) auto

lemma map_of_ins_kv:
  "key \<notin> fst ` set xs \<Longrightarrow> map_of (ins_kv key v xs) = (map_of xs)(key \<mapsto> v)"
  by (induction key v xs rule: ins_kv.induct) (auto simp: fun_upd_twist)

lemma sorted_cut:
  assumes "sorted_wrt (<) (xs :: int list)" "i < length xs"
  shows "x \<in> set (take i xs) \<Longrightarrow> x < xs ! i" "x \<in> set (drop i xs) \<Longrightarrow> xs ! i \<le> x"
proof -
  have "sorted_wrt (<) (take i xs @ xs ! i # drop (Suc i) xs)"
    using assms by (simp add: id_take_nth_drop [symmetric])
  then show "x \<in> set (take i xs) \<Longrightarrow> x < xs ! i" "x \<in> set (drop i xs) \<Longrightarrow> xs ! i \<le> x"
    using assms(2) by (auto simp: sorted_wrt_append Cons_nth_drop_Suc [symmetric])
qed

text \<open>The leaf's insertion point, and the leaf after the shift and the store.\<close>

lemma takeWhile_found:
  assumes "sorted_wrt (<) (ks :: int list)"
  shows "length (takeWhile (\<lambda>k. k < key) ks) < length ks \<and>
     ks ! length (takeWhile (\<lambda>k. k < key) ks) = key \<longleftrightarrow> key \<in> set ks"
  using assms by (induction ks) auto

lemma insert_at_takeWhile:
  "insert_at (length (takeWhile P xs)) x xs = takeWhile P xs @ x # dropWhile P xs"
  by (simp add: insert_at_def takeWhile_eq_take [symmetric] dropWhile_eq_drop [symmetric])

lemma sorted_insert_at:
  assumes "sorted_wrt (<) (ks :: int list)" "key \<notin> set ks"
  shows "sorted_wrt (<) (insert_at (length (takeWhile (\<lambda>k. k < key) ks)) key ks)"
  using assms unfolding insert_at_takeWhile
  by (induction ks) (auto dest: set_takeWhileD set_dropWhileD)

lemma zip_insert_kv:
  "length vs = length ks \<Longrightarrow>
   zip (insert_at (length (takeWhile (\<lambda>k. k < key) ks)) key ks)
       (insert_at (length (takeWhile (\<lambda>k. k < key) ks)) v vs) = ins_kv key v (zip ks vs)"
  by (induction vs ks rule: list_induct2) auto

text \<open>
  What a successful insertion into a node returns: the node, or the node and its new right
  sibling, again satisfy the invariant, and together they hold the old entries and the new one in
  order.
\<close>

definition inserted :: "nat \<Rightarrow> int \<Rightarrow> int \<Rightarrow> (int \<times> int) list \<Rightarrow> insert_state \<Rightarrow> bnode \<Rightarrow> bool" where
  "inserted h lo hi xs st node \<longleftrightarrow>
     (case st of
        Failed e \<Rightarrow> False
      | Done \<Rightarrow> bt h lo hi node \<and> kvs node = xs
      | Split m right \<Rightarrow> bt h lo m node \<and> bt h m hi right \<and> kvs node @ kvs right = xs)"

lemma insert_into_leaf_duplicate:
  assumes "bt 0 lo hi node" "key \<in> fst ` set (kvs node)"
  shows "insert_into_leaf mem n node key v = (make_error ''duplicate id key'', node, n)"
  using assms takeWhile_found [of "leaf_keys node" key]
  by (cases node) (auto simp: insert_into_leaf_def Let_def dest: set_zip_leftD)

lemma cut_leaf:
  assumes "sorted_wrt (<) ks" "length ks = Suc BPTREE_MAX_KEYS" "length vs = length ks"
    "\<forall>k \<in> set ks. lo \<le> k \<and> k < hi"
  shows "bt 0 lo (ks ! 2) (Leaf a nx (take 2 ks) (take 2 vs))"
    and "bt 0 (ks ! 2) hi (Leaf b ny (drop 2 ks) (drop 2 vs))"
  using assms sorted_cut [OF assms(1), of 2]
  by (auto simp: BPTREE_MAX_KEYS_def sorted_wrt_take sorted_wrt_drop dest: in_set_takeD in_set_dropD)

lemma insert_into_leaf_inserted:
  assumes node: "bt 0 lo hi node" and key: "lo \<le> key" "key < hi" "key \<notin> fst ` set (kvs node)"
    and mem: "mem n"
  shows "\<exists>st node' n'. insert_into_leaf mem n node key v = (st, node', n') \<and>
    inserted 0 lo hi (ins_kv key v (kvs node)) st node'"
proof -
  obtain a nx ks vs where n: "node = Leaf a nx ks vs" "length vs = length ks" "ks \<noteq> []"
    "length ks \<le> BPTREE_MAX_KEYS" "sorted_wrt (<) ks" "\<forall>k \<in> set ks. lo \<le> k \<and> k < hi"
    using node by (auto split: bnode.splits)
  let ?i = "length (takeWhile (\<lambda>k. k < key) ks)"
  let ?ks = "insert_at ?i key ks" and ?vs = "insert_at ?i v vs"
  have "key \<notin> set ks" using key(3) n(1,2) by (auto simp: set_zip in_set_conv_nth image_iff)
  then have new: "(?i < length ks \<and> ks ! ?i = key) = False" and srt: "sorted_wrt (<) ?ks"
    using takeWhile_found [OF n(5)] sorted_insert_at [OF n(5)] by auto
  have set: "set ?ks = insert key (set ks)"
    unfolding insert_at_takeWhile by (metis Un_insert_right list.simps(15) set_append takeWhile_dropWhile_id)
  then have range: "\<forall>k \<in> set ?ks. lo \<le> k \<and> k < hi" using n(6) key by auto
  have kv: "zip ?ks ?vs = ins_kv key v (zip ks vs)" using n(2) by (rule zip_insert_kv)
  show ?thesis
  proof (cases "length ?ks \<le> BPTREE_MAX_KEYS")
    case True
    then show ?thesis
      using n new srt range kv by (auto simp: insert_into_leaf_def Let_def inserted_def)
  next
    case False
    then have three: "length ks = 3" using n(4) by (simp add: BPTREE_MAX_KEYS_def)
    have "zip (take 2 ?ks) (take 2 ?vs) @ zip (drop 2 ?ks) (drop 2 ?vs) = ins_kv key v (zip ks vs)"
      by (simp add: take_zip [symmetric] drop_zip [symmetric] kv)
    moreover have "insert_into_leaf mem n node key v =
        (Split (?ks ! 2) (Leaf n nx (drop 2 ?ks) (drop 2 ?vs)), Leaf a (Some n) (take 2 ?ks) (take 2 ?vs), Suc n)"
      using n(1) mem three by (simp add: insert_into_leaf_def Let_def new [unfolded three] BPTREE_MAX_KEYS_def)
    ultimately show ?thesis
      using cut_leaf [OF srt _ _ range, of ?vs] three n(1,2)
      by (simp add: inserted_def BPTREE_MAX_KEYS_def del: bt.simps)
  qed
qed

lemma absorb_split_inserted:
  assumes d: "descends (bt h) lo ks hi cs key ks1 ks2 cs1 c cs2 l r"
    and ks: "ks \<noteq> []" "length ks \<le> BPTREE_MAX_KEYS"
    and child: "inserted h l r (ins_kv key v (kvs c)) st c'" and mem: "mem n"
  shows "\<exists>st' node' n'. absorb_split mem n ks (cs[find_child_index ks key := c'])
      (find_child_index ks key) st = (st', node', n') \<and>
    inserted (Suc h) lo hi (ins_kv key v (kvs (Internal ks cs))) st' node'"
proof -
  have split: "ks = ks1 @ ks2" "cs = cs1 @ c # cs2" "find_child_index ks key = length ks1"
    "length cs1 = length ks1" using d by (auto simp: descends_def)
  have one: "seg (bt h) lo ks hi (cs1 @ c' # cs2)" if "bt h l r c'"
    using d that unfolding descends_def by blast
  have two: "seg (bt h) lo (ks1 @ m # ks2) hi (cs1 @ c' # right # cs2)" if "bt h l m c'" "bt h m r right"
    for m right using d that unfolding descends_def by blast
  have kv: "ins_kv key v (kvs (Internal ks cs)) =
      concat (map kvs cs1) @ ins_kv key v (kvs c) @ concat (map kvs cs2)"
    by (simp only: split(2) kvs.simps map_append list.map concat_append concat.simps)
      (rule ins_kv_append; erule descends_others [OF d])
  have upd: "cs[length ks1 := c'] = cs1 @ c' # cs2" using split by (simp add: list_update_append)
  show ?thesis
  proof (cases st)
    case (Failed e)
    with child show ?thesis by (simp add: inserted_def)
  next
    case Done
    with child one kv ks show ?thesis by (simp add: split(3) upd absorb_split_def inserted_def)
  next
    case (Split m right)
    let ?ks = "ks1 @ m # ks2" and ?cs = "cs1 @ c' # right # cs2"
    have child': "bt h l m c'" "bt h m r right" "kvs c' @ kvs right = ins_kv key v (kvs c)"
      using child Split by (simp_all add: inserted_def)
    have ins: "insert_at (length ks1) m ks = ?ks" "insert_at (Suc (length ks1)) right (cs1 @ c' # cs2) = ?cs"
      using insert_at_append [of ks1 m ks2] insert_at_append [of "cs1 @ [c']" right cs2] split
      by simp_all
    have all: "concat (map kvs ?cs) = ins_kv key v (kvs (Internal ks cs))" using child'(3) kv by simp
    show ?thesis
    proof (cases "length ?ks \<le> BPTREE_MAX_KEYS")
      case True
      with Split two [OF child'(1,2)] all show ?thesis
        by (simp add: split(3) upd absorb_split_def ins inserted_def Let_def)
          (use split(1) True in simp)
    next
      case False
      then have four: "length ?ks = 4" using ks(2) by (simp add: split(1) BPTREE_MAX_KEYS_def)
      then have len: "length ?cs = 5" using seg_length [OF two [OF child'(1,2)]] by simp
      have cut: "seg (bt h) lo (take 2 ?ks) (?ks ! 2) (take 3 ?cs) \<and>
          seg (bt h) (?ks ! 2) (drop 3 ?ks) hi (drop 3 ?cs)"
        using two [OF child'(1,2)] four len
          seg_append [of "take 3 ?cs" "take 2 ?ks" "bt h" lo "?ks ! 2" "drop 3 ?ks" hi "drop 3 ?cs"]
          id_take_nth_drop [of 2 ?ks] by simp
      have "concat (map kvs (take 3 ?cs)) @ concat (map kvs (drop 3 ?cs)) =
          ins_kv key v (kvs (Internal ks cs))"
        using all by (metis append_take_drop_id concat_append map_append)
      with cut four False Split mem ks show ?thesis
        by (simp add: split(3) upd absorb_split_def ins inserted_def Let_def BPTREE_MAX_KEYS_def
            del: append_take_drop_id) arith
    qed
  qed
qed

lemma insert_into_node_inserted:
  assumes mem: "\<And>i. mem i"
  shows "bt h lo hi node \<Longrightarrow> lo \<le> key \<Longrightarrow> key < hi \<Longrightarrow> key \<notin> fst ` set (kvs node) \<Longrightarrow>
    \<exists>st node' n'. insert_into_node mem n node key v = (st, node', n') \<and>
      inserted h lo hi (ins_kv key v (kvs node)) st node'"
proof (induction h arbitrary: lo hi node n)
  case 0
  then have "insert_into_node mem n node key v = insert_into_leaf mem n node key v"
    by (cases node) auto
  with insert_into_leaf_inserted [OF 0 mem] show ?case by simp
next
  case (Suc h)
  from bt_Suc_elim [OF Suc.prems(1,2,3)] obtain ks cs ks1 ks2 cs1 c cs2 l r where
    node: "node = Internal ks cs" "ks \<noteq> []" "length ks \<le> BPTREE_MAX_KEYS" and
    d: "descends (bt h) lo ks hi cs key ks1 ks2 cs1 c cs2 l r" by metis
  then have c: "bt h l r c" "l \<le> key" "key < r" "find_child_index ks key < length cs"
    "cs ! find_child_index ks key = c" by (auto simp: descends_def nth_append)
  have "c \<in> set cs" using c(4,5) nth_mem by blast
  then have "key \<notin> fst ` set (kvs c)" using Suc.prems(4) node(1) by auto
  from Suc.IH [OF c(1,2,3) this] obtain st c' n' where
    "insert_into_node mem n c key v = (st, c', n')" "inserted h l r (ins_kv key v (kvs c)) st c'" by blast
  with absorb_split_inserted [of h lo ks hi cs key ks1 ks2 cs1 c cs2 l r v st c' mem n', OF d node(2,3) _ mem]
  show ?case by (auto simp: node(1) Let_def c(4,5))
qed

lemma insert_into_node_duplicate:
  "bt h lo hi node \<Longrightarrow> lo \<le> key \<Longrightarrow> key < hi \<Longrightarrow> key \<in> fst ` set (kvs node) \<Longrightarrow>
   insert_into_node mem n node key v = (make_error ''duplicate id key'', node, n)"
proof (induction h arbitrary: lo hi node)
  case 0
  then have "insert_into_node mem n node key v = insert_into_leaf mem n node key v"
    by (cases node) auto
  with insert_into_leaf_duplicate [OF 0(1,4)] show ?case by simp
next
  case (Suc h)
  from bt_Suc_elim [OF Suc.prems(1,2,3)] obtain ks cs ks1 ks2 cs1 c cs2 l r where
    node: "node = Internal ks cs" and
    d: "descends (bt h) lo ks hi cs key ks1 ks2 cs1 c cs2 l r" by metis
  then have c: "bt h l r c" "l \<le> key" "key < r" "find_child_index ks key < length cs"
    "cs ! find_child_index ks key = c" "cs = cs1 @ c # cs2" by (auto simp: descends_def nth_append)
  have "key \<in> fst ` set (kvs c)"
    using Suc.prems(4) descends_others(1) [OF d] descends_others(2) [OF d] node c(6) by force
  from Suc.IH [OF c(1,2,3) this] c(4,5) show ?case
    by (simp add: node absorb_split_def make_error_def list_update_same_conv)
qed

section \<open>Height\<close>

lemma seg_entries:
  assumes "\<And>a b c. P a b c \<Longrightarrow> m \<le> length (kvs c)"
  shows "seg P lo ks hi cs \<Longrightarrow> m * Suc (length ks) \<le> length (concat (map kvs cs))"
proof (induction ks arbitrary: lo cs)
  case Nil
  then show ?case using assms by (cases "(P, lo, [] :: int list, hi, cs)" rule: seg.cases) auto
next
  case (Cons k ks)
  then obtain c cs' where "cs = c # cs'" "P lo k c" "seg P k ks hi cs'" by (cases cs) auto
  with Cons.IH [of k cs'] assms [of lo k c] show ?case by simp
qed

lemma bt_height: "bt h lo hi node \<Longrightarrow> 2 ^ h \<le> length (kvs node)"
proof (induction h arbitrary: lo hi node)
  case 0
  then show ?case by (auto simp: Suc_le_eq split: bnode.splits)
next
  case (Suc h)
  then obtain ks cs where n: "node = Internal ks cs" "ks \<noteq> []" "seg (bt h) lo ks hi cs"
    by (auto split: bnode.splits)
  have "2 ^ h * 2 \<le> 2 ^ h * Suc (length ks)" using n(2) by (cases ks) auto
  also have "\<dots> \<le> length (kvs node)" using seg_entries [OF Suc.IH n(3)] by (simp add: n(1))
  finally show ?case by simp
qed

section \<open>The tree as a map\<close>

lemma bptree_search_entries:
  "bptree_inv tree \<Longrightarrow> in_int key \<Longrightarrow> bptree_search tree key = map_of (entries tree) key"
  by (auto simp: bptree_inv_def bptree_search_def entries_def in_int_def search_node_kvs split: option.splits)

lemma inserted_root:
  "inserted h lo hi xs (Split m right) root \<Longrightarrow> bt (Suc h) lo hi (Internal [m] [root, right]) \<and>
     kvs (Internal [m] [root, right]) = xs"
  by (simp add: inserted_def BPTREE_MAX_KEYS_def)

lemma bptree_insert_new:
  assumes inv: "bptree_inv tree" and key: "in_int key" "key \<notin> fst ` set (entries tree)" and mem: "\<And>i. mem i"
  shows "\<exists>tree'. bptree_insert mem tree key v = (Inr (), tree') \<and> bptree_inv tree' \<and>
    entries tree' = ins_kv key v (entries tree)"
proof (cases "bt_root tree")
  case None
  have "bt 0 INT_MIN (INT_MAX + 1) (Leaf n None [key] [v])" for n
    using key(1) by (simp add: BPTREE_MAX_KEYS_def in_int_def)
  then show ?thesis
    using None mem
    by (auto simp: bptree_insert_def bptree_inv_def entries_def Let_def simp del: bt.simps intro!: exI [of _ "0::nat"])
next
  case (Some root)
  then obtain h where "bt h INT_MIN (INT_MAX + 1) root" using inv by (auto simp: bptree_inv_def)
  with Some key mem obtain st root' n' where
    ins: "insert_into_node mem (bt_allocs tree) root key v = (st, root', n')"
      "inserted h INT_MIN (INT_MAX + 1) (ins_kv key v (kvs root)) st root'"
    using insert_into_node_inserted [of mem h INT_MIN "INT_MAX + 1" root key "bt_allocs tree" v]
    by (auto simp: in_int_def entries_def)
  show ?thesis
  proof (cases st)
    case (Split m right)
    with ins inserted_root [of h INT_MIN "INT_MAX + 1" "ins_kv key v (kvs root)" m right root'] Some mem
    show ?thesis
      by (auto simp: bptree_insert_def bptree_inv_def entries_def simp del: bt.simps kvs.simps)
  qed (use ins Some in \<open>auto simp: bptree_insert_def bptree_inv_def entries_def inserted_def\<close>)
qed

lemma bptree_insert_duplicate:
  assumes "bptree_inv tree" "in_int key" "key \<in> fst ` set (entries tree)"
  shows "bptree_insert mem tree key v = (Inl (Message ''duplicate id key''), tree)"
proof -
  obtain root h where "bt_root tree = Some root" "bt h INT_MIN (INT_MAX + 1) root"
    "key \<in> fst ` set (kvs root)"
    using assms by (auto simp: bptree_inv_def entries_def split: option.splits)
  with assms(2) show ?thesis
    by (simp add: bptree_insert_def insert_into_node_duplicate in_int_def make_error_def snprintf_def)
qed

section \<open>The leaf chain\<close>

fun leaf_links :: "bnode \<Rightarrow> (nat \<times> nat option) list" where
  "leaf_links (Leaf a nx ks vs) = [(a, nx)]"
| "leaf_links (Internal ks cs) = concat (map leaf_links cs)"

text \<open>\<open>chained ls after\<close>: every leaf of \<open>ls\<close> points to the one that follows it, the last to \<open>after\<close>.\<close>

fun chained :: "(nat \<times> nat option) list \<Rightarrow> nat option \<Rightarrow> bool" where
  "chained [] after \<longleftrightarrow> True"
| "chained [(a, nx)] after \<longleftrightarrow> nx = after"
| "chained ((a, nx) # (b, ny) # ls) after \<longleftrightarrow> nx = Some b \<and> chained ((b, ny) # ls) after"

fun right_links :: "insert_state \<Rightarrow> (nat \<times> nat option) list" where
  "right_links (Split m right) = leaf_links right"
| "right_links _ = []"

definition link_step :: "nat \<Rightarrow> nat \<Rightarrow> (nat \<times> nat option) list \<Rightarrow> (nat \<times> nat option) list \<Rightarrow> bool" where
  "link_step n n' ls ls' \<longleftrightarrow> n \<le> n' \<and> (ls' = ls \<or>
     (\<exists>A a nx B. ls = A @ (a, nx) # B \<and> ls' = A @ (a, Some n) # (n, nx) # B \<and> n < n'))"

lemma link_step_refl [simp]: "n \<le> n' \<Longrightarrow> link_step n n' ls ls"
  by (simp add: link_step_def)

lemma link_step_split [simp]: "link_step n (Suc n) [(a, nx)] [(a, Some n), (n, nx)]"
  by (auto simp: link_step_def intro: exI [of _ "[]"])

lemma link_step_append: "link_step n n' ls ls' \<Longrightarrow> link_step n n' (A @ ls @ B) (A @ ls' @ B)"
  unfolding link_step_def by (metis append_Cons append_assoc)

lemma link_step_mono: "link_step n m ls ls' \<Longrightarrow> m \<le> n' \<Longrightarrow> link_step n n' ls ls'"
  unfolding link_step_def by (metis order_trans order_less_le_trans)

lemma insert_into_leaf_links:
  "insert_into_leaf mem n (Leaf a nx ks vs) key v = (st, node', n') \<Longrightarrow>
   link_step n n' [(a, nx)] (leaf_links node' @ right_links st)"
  by (auto simp: insert_into_leaf_def Let_def make_error_def split: if_splits)

lemma concat_map_split:
  "i < length cs \<Longrightarrow> concat (map f cs) = concat (map f (take i cs)) @ f (cs ! i) @ concat (map f (drop (Suc i) cs))"
  by (metis concat.simps(2) concat_append id_take_nth_drop list.map(2) map_append)

lemma absorb_split_links:
  assumes "absorb_split mem n ks cs i st = (st', node', n')" "i < length cs" "\<And>e. st' \<noteq> Failed e"
  shows "n \<le> n' \<and> leaf_links node' @ right_links st' =
    concat (map leaf_links (take (Suc i) cs)) @ right_links st @ concat (map leaf_links (drop (Suc i) cs))"
proof -
  have whole: "concat (map leaf_links cs) =
      concat (map leaf_links (take (Suc i) cs)) @ concat (map leaf_links (drop (Suc i) cs))"
    by (metis append_take_drop_id concat_append map_append)
  have cut: "concat (map leaf_links (take j xs)) @ concat (map leaf_links (drop j xs)) =
      concat (map leaf_links xs)" for j xs
    by (metis append_take_drop_id concat_append map_append)
  have ins: "concat (map leaf_links (insert_at j x xs)) =
      concat (map leaf_links (take j xs)) @ leaf_links x @ concat (map leaf_links (drop j xs))" for j x xs
    by (simp add: insert_at_def)
  show ?thesis
    using assms(1,3) whole
    by (auto simp: absorb_split_def Let_def make_error_def cut ins split: insert_state.splits if_splits)
qed

lemma absorb_split_Failed: "absorb_split mem n ks cs i (Failed e) = (Failed e, Internal ks cs, n)"
  by (simp add: absorb_split_def)

lemma insert_into_node_links:
  "insert_into_node mem n node key v = (st, node', n') \<Longrightarrow> (\<And>e. st \<noteq> Failed e) \<Longrightarrow>
   link_step n n' (leaf_links node) (leaf_links node' @ right_links st)"
proof (induction mem n node key v arbitrary: st node' n' rule: insert_into_node.induct)
  case (1 mem n a nx ks vs key v)
  then show ?case using insert_into_leaf_links by simp
next
  case (2 mem n ks cs key v)
  let ?i = "find_child_index ks key"
  show ?case
  proof (cases "?i < length cs")
    case False
    with "2.prems" show ?thesis by (auto simp: Let_def)
  next
    case True
    obtain cst c' m where c: "insert_into_node mem n (cs ! ?i) key v = (cst, c', m)"
      by (metis prod_cases3)
    with "2.prems" True have abs: "absorb_split mem m ks (cs[?i := c']) ?i cst = (st, node', n')"
      by (simp add: Let_def)
    have ok: "cst \<noteq> Failed e" for e using abs "2.prems"(2) [of e] by (auto simp: absorb_split_Failed)
    have "link_step n m (leaf_links (cs ! ?i)) (leaf_links c' @ right_links cst)"
      using "2.IH" [OF refl True c ok] .
    from link_step_append [OF this, of "concat (map leaf_links (take ?i cs))" "concat (map leaf_links (drop (Suc ?i) cs))"]
    have "link_step n m (leaf_links (Internal ks cs)) (leaf_links node' @ right_links st)"
      using absorb_split_links [OF abs _ "2.prems"(2)] True concat_map_split [OF True, of leaf_links]
      by (simp add: take_Suc_conv_app_nth)
    with absorb_split_links [OF abs _ "2.prems"(2)] True show ?thesis by (auto intro: link_step_mono)
  qed
qed

lemma chained_step: "chained (A @ (a, nx) # B) s \<Longrightarrow> chained (A @ (a, Some n) # (n, nx) # B) s"
proof (induction A rule: induct_list012)
  case 1
  then show ?case by (cases B) auto
next
  case (2 x)
  then show ?case by (cases x; cases B) auto
next
  case (3 x y zs)
  then show ?case by (cases x; cases y) auto
qed

definition links_ok :: "bptree \<Rightarrow> bool" where
  "links_ok tree \<longleftrightarrow> (case bt_root tree of None \<Rightarrow> True | Some root \<Rightarrow>
     chained (leaf_links root) None \<and> distinct (map fst (leaf_links root)) \<and>
     (\<forall>a \<in> set (map fst (leaf_links root)). a < bt_allocs tree))"

lemma link_step_ok:
  assumes "link_step n n' ls ls'" "chained ls None" "distinct (map fst ls)" "\<forall>a \<in> set (map fst ls). a < n"
  shows "chained ls' None \<and> distinct (map fst ls') \<and> (\<forall>a \<in> set (map fst ls'). a < n')"
proof (cases "ls' = ls")
  case True
  with assms show ?thesis by (auto simp: link_step_def)
next
  case False
  with assms(1) obtain A a nx B where ls: "ls = A @ (a, nx) # B" "ls' = A @ (a, Some n) # (n, nx) # B" "n < n'"
    unfolding link_step_def by blast
  have "chained ls' None" using assms(2) chained_step unfolding ls by blast
  moreover have "\<forall>a \<in> set (map fst ls). a < n'" using assms(4) ls(3) by auto
  moreover have "n \<notin> set (map fst ls)" using assms(4) by blast
  ultimately show ?thesis using assms(3) ls by auto
qed

lemma bptree_insert_links:
  assumes "links_ok tree" "bptree_insert mem tree key v = (Inr (), tree')"
  shows "links_ok tree'"
proof (cases "bt_root tree")
  case None
  with assms show ?thesis by (auto simp: bptree_insert_def links_ok_def Let_def split: if_splits)
next
  case (Some root)
  obtain st root' n' where ins: "insert_into_node mem (bt_allocs tree) root key v = (st, root', n')"
    by (metis prod_cases3)
  have ok: "st \<noteq> Failed e" for e using assms(2) Some ins by (auto simp: bptree_insert_def)
  have "chained (leaf_links root' @ right_links st) None \<and> distinct (map fst (leaf_links root' @ right_links st)) \<and>
      (\<forall>a \<in> set (map fst (leaf_links root' @ right_links st)). a < n')"
    by (rule link_step_ok [OF insert_into_node_links [OF ins ok]]) (use assms(1) Some in \<open>simp_all add: links_ok_def\<close>)
  with assms(2) Some ins show ?thesis
    by (cases st) (auto simp: bptree_insert_def links_ok_def Let_def less_Suc_eq split: if_splits)
qed

section \<open>The index interface\<close>

text \<open>
  What the table index relies on: a finite map from \<open>int\<close> keys under an invariant, with an insertion
  that extends the map by a new key and rejects a key that is already there. \<open>insert_from\<close> is the
  client's loop: it enters values under consecutive keys and stops at the first failure.
\<close>

fun insert_from ::
    "('t \<Rightarrow> int \<Rightarrow> int \<Rightarrow> (fault + unit) \<times> 't) \<Rightarrow> 't \<Rightarrow> int \<Rightarrow> int list \<Rightarrow>
     (fault + unit) \<times> 't \<times> int" where
  "insert_from ins t key [] = (Inr (), t, key)"
| "insert_from ins t key (v # vs) =
     (case ins t key v of
        (Inl e, t') \<Rightarrow> (Inl e, t', key)
      | (Inr _, t') \<Rightarrow> insert_from ins t' (key + 1) vs)"

text \<open>Entering \<open>vs\<close> under the keys from \<open>k\<close> on, above all keys in use, yields the numbered values.\<close>

definition numbered :: "int \<Rightarrow> int list \<Rightarrow> int \<rightharpoonup> int" where
  "numbered k vs i = (if k \<le> i \<and> i < k + int (length vs) then Some (vs ! nat (i - k)) else None)"

lemma numbered_Nil [simp]: "numbered k [] = Map.empty"
  by (rule ext) (simp add: numbered_def)

lemma numbered_Cons: "numbered k (v # vs) = (numbered (k + 1) vs)(k \<mapsto> v)"
proof (rule ext)
  fix i
  have "nat (i - k) = Suc (nat (i - (k + 1)))" if "k + 1 \<le> i" using that by simp
  then show "numbered k (v # vs) i = ((numbered (k + 1) vs)(k \<mapsto> v)) i"
    by (auto simp: numbered_def)
qed

lemma numbered_snoc: "numbered k (vs @ [v]) = (numbered k vs)(k + int (length vs) \<mapsto> v)"
  by (rule ext) (auto simp: numbered_def nth_append nat_less_iff)

locale ordered_index =
  fixes inv :: "'t \<Rightarrow> bool"
    and abs :: "'t \<Rightarrow> int \<rightharpoonup> int"
    and ins :: "'t \<Rightarrow> int \<Rightarrow> int \<Rightarrow> (fault + unit) \<times> 't"
    and find :: "'t \<Rightarrow> int \<Rightarrow> int option"
    and empty :: 't
  assumes empty_inv: "inv empty" and empty_abs: "abs empty = Map.empty"
    and find_abs: "inv t \<Longrightarrow> in_int k \<Longrightarrow> find t k = abs t k"
    and ins_new: "inv t \<Longrightarrow> in_int k \<Longrightarrow> abs t k = None \<Longrightarrow>
       \<exists>t'. ins t k v = (Inr (), t') \<and> inv t' \<and> abs t' = (abs t)(k \<mapsto> v)"
    and ins_old: "inv t \<Longrightarrow> in_int k \<Longrightarrow> abs t k = Some w \<Longrightarrow>
       ins t k v = (Inl (Message ''duplicate id key''), t)"
begin

lemma insert_from_numbered:
  assumes "inv t" "\<And>i. k \<le> i \<Longrightarrow> abs t i = None" "INT_MIN \<le> k" "k + int (length vs) \<le> INT_MAX + 1"
  shows "\<exists>t'. insert_from ins t k vs = (Inr (), t', k + int (length vs)) \<and> inv t' \<and>
    abs t' = abs t ++ numbered k vs"
  using assms
proof (induction vs arbitrary: t k)
  case Nil
  then show ?case by simp
next
  case (Cons v vs)
  then have "in_int k" by (simp add: in_int_def)
  with Cons.prems ins_new [of t k v] obtain t1 where
    t1: "ins t k v = (Inr (), t1)" "inv t1" "abs t1 = (abs t)(k \<mapsto> v)" by auto
  have "\<exists>t'. insert_from ins t1 (k + 1) vs = (Inr (), t', k + 1 + int (length vs)) \<and> inv t' \<and>
      abs t' = abs t1 ++ numbered (k + 1) vs"
    using Cons.prems t1 by (intro Cons.IH) auto
  then obtain t' where t': "insert_from ins t1 (k + 1) vs = (Inr (), t', k + 1 + int (length vs))" "inv t'"
    "abs t' = abs t1 ++ numbered (k + 1) vs" by blast
  have "numbered (k + 1) vs k = None" by (simp add: numbered_def)
  then have "abs t1 ++ numbered (k + 1) vs = abs t ++ numbered k (v # vs)"
    by (auto simp: t1(3) numbered_Cons map_add_def fun_eq_iff split: option.splits)
  with t1 t' show ?case by auto
qed

lemma rebuild_empty:
  assumes "int (length vs) \<le> INT_MAX"
  shows "\<exists>t'. insert_from ins empty 1 vs = (Inr (), t', 1 + int (length vs)) \<and> inv t' \<and>
    abs t' = numbered 1 vs"
  using insert_from_numbered [OF empty_inv, of 1 vs] assms by (simp add: empty_abs range_defs)

end

definition all_memory :: alloc_oracle where
  "all_memory _ = True"

interpretation bptree_index: ordered_index bptree_inv "\<lambda>t. map_of (entries t)" "bptree_insert all_memory"
  bptree_search bptree_init
proof
  show "bptree_inv bptree_init" "map_of (entries bptree_init) = Map.empty"
    by (simp_all add: bptree_inv_def bptree_init_def entries_def)
  show "bptree_inv t \<Longrightarrow> in_int k \<Longrightarrow> bptree_search t k = map_of (entries t) k" for t k
    by (rule bptree_search_entries)
  show "\<exists>t'. bptree_insert all_memory t k v = (Inr (), t') \<and> bptree_inv t' \<and>
      map_of (entries t') = (map_of (entries t))(k \<mapsto> v)"
    if "bptree_inv t" "in_int k" "map_of (entries t) k = None" for t k v
    using bptree_insert_new [OF that(1,2), of all_memory v] that(3) map_of_ins_kv
    by (auto simp: map_of_eq_None_iff all_memory_def)
  show "bptree_insert all_memory t k v = (Inl (Message ''duplicate id key''), t)"
    if "bptree_inv t" "in_int k" "map_of (entries t) k = Some w" for t k v w
    using that by (intro bptree_insert_duplicate) (auto dest: map_of_SomeD intro: rev_image_eqI)
qed

section \<open>Histories\<close>

fun bptree_insert_all :: "alloc_oracle \<Rightarrow> bptree \<Rightarrow> (int \<times> int) list \<Rightarrow> bptree" where
  "bptree_insert_all mem tree [] = tree"
| "bptree_insert_all mem tree ((k, v) # xs) = bptree_insert_all mem (snd (bptree_insert mem tree k v)) xs"

lemma bptree_insert_all_map:
  assumes "\<And>i. mem i" "bptree_inv tree" "links_ok tree" "\<forall>(k, v) \<in> set xs. in_int k"
  shows "bptree_inv (bptree_insert_all mem tree xs) \<and> links_ok (bptree_insert_all mem tree xs) \<and>
    map_of (entries (bptree_insert_all mem tree xs)) = map_of xs ++ map_of (entries tree)"
  using assms(2-4)
proof (induction xs arbitrary: tree)
  case Nil
  then show ?case by simp
next
  case (Cons kv xs)
  obtain k v where kv: "kv = (k, v)" by (cases kv)
  show ?case
  proof (cases "k \<in> fst ` set (entries tree)")
    case True
    then have "map_of (entries tree) k \<noteq> None" by (auto simp: map_of_eq_None_iff)
    then have "map_of (kv # xs) ++ map_of (entries tree) = map_of xs ++ map_of (entries tree)"
      by (auto simp: kv map_add_def fun_eq_iff split: option.splits)
    with True Cons.IH [of tree] Cons.prems kv show ?thesis
      by (simp add: bptree_insert_duplicate del: map_of.simps)
  next
    case False
    with Cons.prems kv assms(1) obtain tree' where t: "bptree_insert mem tree k v = (Inr (), tree')"
      "bptree_inv tree'" "entries tree' = ins_kv k v (entries tree)"
      using bptree_insert_new [of tree k mem v] by auto
    then have links: "links_ok tree'" using bptree_insert_links Cons.prems(2) by blast
    have new: "map_of (entries tree') = (map_of (entries tree))(k \<mapsto> v)"
      using False by (simp add: t(3) map_of_ins_kv)
    have "map_of (entries tree) k = None" using False by (simp add: map_of_eq_None_iff)
    then have upd: "map_of xs ++ (map_of (entries tree))(k \<mapsto> v) = map_of (kv # xs) ++ map_of (entries tree)"
      by (auto simp: kv map_add_def fun_eq_iff split: option.splits)
    have "bptree_insert_all mem tree (kv # xs) = bptree_insert_all mem tree' xs" by (simp add: kv t(1))
    with Cons.IH [OF t(2) links] Cons.prems(3) show ?thesis by (simp only: new upd) (simp del: map_of.simps)
  qed
qed

text \<open>The number of child links the search loop follows.\<close>

function search_steps :: "bnode \<Rightarrow> int \<Rightarrow> nat" where
  "search_steps (Leaf a nx ks vs) key = 0"
| "search_steps (Internal ks cs) key =
     (let child_index = find_child_index ks key in
      if child_index < length cs then Suc (search_steps (cs ! child_index) key) else 0)"
  by pat_completeness auto
termination
  by (relation "measure (\<lambda>(node, key). size node)") (auto simp: less_Suc_eq_le child_size)

lemma search_steps_height: "bt h lo hi node \<Longrightarrow> lo \<le> key \<Longrightarrow> key < hi \<Longrightarrow> search_steps node key = h"
proof (induction h arbitrary: lo hi node)
  case 0
  then show ?case by (cases node) auto
next
  case (Suc h)
  from bt_Suc_elim [OF Suc.prems] obtain ks cs ks1 ks2 cs1 c cs2 l r where
    node: "node = Internal ks cs" and
    d: "descends (bt h) lo ks hi cs key ks1 ks2 cs1 c cs2 l r" by metis
  then have c: "bt h l r c" "l \<le> key" "key < r" "find_child_index ks key < length cs"
    "cs ! find_child_index ks key = c" by (auto simp: descends_def nth_append)
  from Suc.IH [OF c(1,2,3)] c(4,5) show ?case by (simp add: node)
qed

section \<open>The theorems of the tree\<close>

text \<open>
  C9 (refinement): on every tree that satisfies the invariant, and with memory available, inserting
  a new key succeeds and changes the search function exactly at that key, while inserting a key that
  is already present fails with the duplicate message and leaves the tree untouched. The structural
  invariant (order, separators, balance, at most three keys per node) and the leaf chain are
  preserved, and no store leaves the node arrays.
\<close>

theorem bptree_insert_refines_map:
  assumes "bptree_inv tree" "links_ok tree" "in_int key"
  shows "(case bptree_search tree key of
      None \<Rightarrow> \<exists>tree'. bptree_insert all_memory tree key v = (Inr (), tree') \<and>
        bptree_inv tree' \<and> links_ok tree' \<and>
        (\<forall>k. in_int k \<longrightarrow> bptree_search tree' k = (if k = key then Some v else bptree_search tree k))
    | Some _ \<Rightarrow> bptree_insert all_memory tree key v = (Inl (Message ''duplicate id key''), tree))"
proof (cases "bptree_search tree key")
  case None
  then have none: "map_of (entries tree) key = None"
    using bptree_index.find_abs [OF assms(1,3)] by simp
  from bptree_index.ins_new [OF assms(1,3) this, of v] obtain tree' where
    t: "bptree_insert all_memory tree key v = (Inr (), tree')" "bptree_inv tree'"
      "map_of (entries tree') = (map_of (entries tree))(key \<mapsto> v)" by blast
  have "links_ok tree'" using bptree_insert_links [OF assms(2) t(1)] .
  with None t show ?thesis
    using bptree_index.find_abs [OF t(2)] bptree_index.find_abs [OF assms(1)] by simp
next
  case (Some w)
  then show ?thesis
    using bptree_index.ins_old [OF assms(1,3), of w v] bptree_index.find_abs [OF assms(1,3)] by simp
qed

theorem bptree_insert_refines_map_witness:
  "bptree_inv bptree_init \<and> links_ok bptree_init \<and> in_int 7 \<and>
   (case bptree_search bptree_init 7 of
      None \<Rightarrow> \<exists>tree'. bptree_insert all_memory bptree_init 7 40 = (Inr (), tree') \<and>
        bptree_inv tree' \<and> links_ok tree' \<and>
        (\<forall>k. in_int k \<longrightarrow> bptree_search tree' k = (if k = 7 then Some 40 else bptree_search bptree_init k))
    | Some _ \<Rightarrow> bptree_insert all_memory bptree_init 7 40 = (Inl (Message ''duplicate id key''), bptree_init))"
proof -
  have "bptree_inv bptree_init" "links_ok bptree_init" "in_int 7"
    by (simp_all add: bptree_inv_def links_ok_def bptree_init_def range_defs)
  with bptree_insert_refines_map [OF this, of 40] show ?thesis by blast
qed

text \<open>
  C10 (histories): after any sequence of insertions into an empty tree, with repeated keys allowed, a
  search returns the value under which its key was inserted first, and nothing for keys never
  inserted; the tree is balanced and ordered and its leaves form one chain of distinct nodes.
\<close>

theorem bptree_history:
  assumes "\<forall>(k, v) \<in> set xs. in_int k" "in_int key"
  shows "bptree_search (bptree_insert_all all_memory bptree_init xs) key = map_of xs key \<and>
    bptree_inv (bptree_insert_all all_memory bptree_init xs) \<and>
    links_ok (bptree_insert_all all_memory bptree_init xs)"
proof -
  have init: "bptree_inv bptree_init" "links_ok bptree_init" "entries bptree_init = []"
    by (simp_all add: bptree_inv_def links_ok_def bptree_init_def entries_def)
  from bptree_insert_all_map [OF _ init(1,2) assms(1), of all_memory] init(3)
  have "bptree_inv (bptree_insert_all all_memory bptree_init xs)"
    "links_ok (bptree_insert_all all_memory bptree_init xs)"
    "map_of (entries (bptree_insert_all all_memory bptree_init xs)) = map_of xs"
    by (simp_all add: all_memory_def)
  then show ?thesis using bptree_search_entries assms(2) by simp
qed

theorem bptree_history_witness:
  "in_int 2 \<and> bptree_search (bptree_insert_all all_memory bptree_init
     [(2, 20), (1, 10), (2, 99), (3, 30), (4, 40), (5, 50)]) 2 = Some 20"
proof -
  have "\<forall>(k, v) \<in> set [(2, 20), (1, 10), (2, 99), (3, 30), (4, 40), (5, 50)]. in_int k" "in_int 2"
    by (simp_all add: range_defs)
  from this bptree_history [OF this] show ?thesis by simp
qed



text \<open>
  Allocation failure: when the allocation of the new leaf fails while a full leaf is split,
  the insertion reports the failure but has already stored the fourth key in the leaf, and the next
  insertion of a new key into it would store beyond the end of the node's arrays. The callers
  avoid the second insertion by discarding the whole tree after a failure.
\<close>

theorem bptree_leaf_oom_overflows:
  assumes "bt 0 INT_MIN (INT_MAX + 1) root" "length (leaf_keys root) = 3" "\<not> mem n"
    "k1 \<notin> set (leaf_keys root)" "k2 \<notin> set (leaf_keys root)" "k1 \<noteq> k2"
  shows "\<exists>tree'. bptree_insert mem \<lparr>bt_root = Some root, bt_allocs = n\<rparr> k1 v1 =
      (Inl (Message ''out of memory while splitting B+ tree leaf''), tree') \<and>
    fst (bptree_insert mem tree' k2 v2) = Inl ArrayOverflow"
proof -
  obtain a nx ks vs where root: "root = Leaf a nx ks vs" "length vs = length ks" "sorted_wrt (<) ks"
    using assms(1) by (auto split: bnode.splits)
  let ?i = "\<lambda>k ks. length (takeWhile (\<lambda>x. x < k) ks)"
  let ?ks = "insert_at (?i k1 ks) k1 ks"
  have set: "set ?ks = insert k1 (set ks)"
    unfolding insert_at_takeWhile by (metis Un_insert_right list.simps(15) set_append takeWhile_dropWhile_id)
  have srt: "sorted_wrt (<) ?ks" using sorted_insert_at [OF root(3)] assms(4) root(1) by simp
  have new1: "(?i k1 ks < 3 \<and> ks ! ?i k1 ks = k1) = False"
    using takeWhile_found [OF root(3), of k1] assms(2,4) root(1) by simp
  have new2: "(?i k2 ?ks < 4 \<and> ?ks ! ?i k2 ?ks = k2) = False"
    using takeWhile_found [OF srt, of k2] assms(2,5,6) root(1) set by simp
  have three: "length ks = 3" using assms(2) root(1) by simp
  have "insert_into_leaf mem n root k1 v1 =
      (make_error ''out of memory while splitting B+ tree leaf'', Leaf a nx ?ks (insert_at (?i k1 ks) v1 vs), Suc n)"
    using assms(3) three new1 by (simp add: root(1) insert_into_leaf_def Let_def BPTREE_MAX_KEYS_def)
  moreover have "insert_into_leaf mem m (Leaf a nx ?ks us) k2 v2 = (Failed ArrayOverflow, Leaf a nx ?ks us, m)" for m us
    using three new2 by (auto simp: insert_into_leaf_def Let_def BPTREE_MAX_KEYS_def)
  ultimately show ?thesis
    by (simp add: bptree_insert_def root(1) make_error_def snprintf_def)
qed

theorem bptree_leaf_oom_overflows_witness:
  "bt 0 INT_MIN (INT_MAX + 1) (Leaf 0 None [1, 2, 3] [10, 20, 30]) \<and>
   (\<exists>tree'. bptree_insert (\<lambda>_. False) \<lparr>bt_root = Some (Leaf 0 None [1, 2, 3] [10, 20, 30]), bt_allocs = 1\<rparr> 4 40 =
      (Inl (Message ''out of memory while splitting B+ tree leaf''), tree') \<and>
    fst (bptree_insert (\<lambda>_. False) tree' 5 50) = Inl ArrayOverflow)"
proof -
  have "bt 0 INT_MIN (INT_MAX + 1) (Leaf 0 None [1, 2, 3] [10, 20, 30])" by code_simp
  with bptree_leaf_oom_overflows [OF this, of "\<lambda>_. False" 1 4 5 40 50] show ?thesis by simp
qed

end
