(* ===== verification/Table_Index.thy ===== *)
theory Table_Index
  imports Schema BPTree
begin

text \<open>
  The table indexes of \<open>index/table_index.c\<close>: a registry of B+ trees, one per storage name, each
  rebuilt from the CSV file on first use and extended when a row is appended. Rows carry no id in
  the file; the id of a row is its position among the data rows, counted from one. The registry is
  threaded through the operations; an entry is addressed by its name, which is unique. Memory for
  the trees is available (\<open>all_memory\<close>).
\<close>

record table_index =
  ti_name :: string
  ti_loaded :: bool
  ti_tree :: bptree
  ti_next_id :: int

record registry =
  reg_items :: "table_index list"
  reg_force :: bool

section \<open>Operations\<close>

definition registry_empty :: registry where
  "registry_empty = \<lparr>reg_items = [], reg_force = False\<rparr>"

definition find_table_index :: "registry \<Rightarrow> string \<Rightarrow> table_index option" where
  "find_table_index reg name = find (\<lambda>e. ti_name e = name) (reg_items reg)"

text \<open>A write through the pointer to an entry.\<close>

definition put_entry :: "registry \<Rightarrow> table_index \<Rightarrow> registry" where
  "put_entry reg e = reg\<lparr>reg_items := map (\<lambda>x. if ti_name x = ti_name e then e else x) (reg_items reg)\<rparr>"

definition get_or_create_table_index :: "registry \<Rightarrow> string \<Rightarrow> table_index \<times> registry" where
  "get_or_create_table_index reg name =
     (case find_table_index reg name of
        Some e \<Rightarrow> (e, reg)
      | None \<Rightarrow>
          let e = \<lparr>ti_name = name, ti_loaded = False, ti_tree = bptree_init, ti_next_id = 1\<rparr> in
          (e, reg\<lparr>reg_items := reg_items reg @ [e]\<rparr>))"

definition rebuild_row :: "(bptree \<times> int) visitor" where
  "rebuild_row flds row_offset ctx =
     (case ctx of (tree, next_id) \<Rightarrow>
        case bptree_insert all_memory tree next_id row_offset of
          (Inl f, tree') \<Rightarrow> Inl f
        | (Inr _, tree') \<Rightarrow> Inr (tree', next_id + 1))"

definition clear_entry :: "table_index \<Rightarrow> table_index" where
  "clear_entry e = e\<lparr>ti_loaded := False, ti_tree := bptree_init, ti_next_id := 1\<rparr>"

definition ensure_loaded ::
    "filesystem \<Rightarrow> string \<Rightarrow> string \<Rightarrow> registry \<Rightarrow> (fault + table_index) \<times> registry" where
  "ensure_loaded fs data_dir storage reg =
     (case get_or_create_table_index reg storage of
        (entry, reg1) \<Rightarrow>
          if ti_loaded entry then (Inr entry, reg1)
          else (case scan_rows_csv fs data_dir storage rebuild_row (bptree_init, 1) of
              Inl f \<Rightarrow> (Inl f, put_entry reg1 (clear_entry entry))
            | Inr (tree, next_id) \<Rightarrow>
                let entry' = entry\<lparr>ti_loaded := True, ti_tree := tree, ti_next_id := next_id\<rparr> in
                (Inr entry', put_entry reg1 entry')))"

definition table_index_registry_reset :: "registry \<Rightarrow> registry" where
  "table_index_registry_reset reg = registry_empty"

definition table_index_invalidate :: "registry \<Rightarrow> string \<Rightarrow> registry" where
  "table_index_invalidate reg name =
     (case find_table_index reg name of
        None \<Rightarrow> reg
      | Some e \<Rightarrow> put_entry reg (clear_entry e))"

definition table_index_is_loaded :: "registry \<Rightarrow> string \<Rightarrow> bool" where
  "table_index_is_loaded reg name =
     (case find_table_index reg name of None \<Rightarrow> False | Some e \<Rightarrow> ti_loaded e)"

definition table_index_get_next_id ::
    "filesystem \<Rightarrow> string \<Rightarrow> string \<Rightarrow> registry \<Rightarrow> (fault + int) \<times> registry" where
  "table_index_get_next_id fs data_dir storage reg =
     (case ensure_loaded fs data_dir storage reg of
        (Inl f, reg1) \<Rightarrow> (Inl f, reg1)
      | (Inr entry, reg1) \<Rightarrow> (Inr (ti_next_id entry), reg1))"

definition table_index_register_row ::
    "filesystem \<Rightarrow> string \<Rightarrow> string \<Rightarrow> int \<Rightarrow> int \<Rightarrow> registry \<Rightarrow> (fault + unit) \<times> registry" where
  "table_index_register_row fs data_dir storage row_id row_offset reg =
     (if reg_force reg
      then (Inl (Message ''forced index registration failure''), reg\<lparr>reg_force := False\<rparr>)
      else case ensure_loaded fs data_dir storage reg of
        (Inl f, reg1) \<Rightarrow> (Inl f, reg1)
      | (Inr entry, reg1) \<Rightarrow>
          (case bptree_insert all_memory (ti_tree entry) row_id row_offset of
             (Inl f, tree) \<Rightarrow> (Inl f, put_entry reg1 (entry\<lparr>ti_tree := tree\<rparr>))
           | (Inr _, tree) \<Rightarrow>
               (Inr (), put_entry reg1 (entry\<lparr>ti_tree := tree,
                  ti_next_id := (if row_id \<ge> ti_next_id entry then row_id + 1 else ti_next_id entry)\<rparr>))))"

definition table_index_find_row ::
    "filesystem \<Rightarrow> string \<Rightarrow> string \<Rightarrow> int \<Rightarrow> registry \<Rightarrow> (fault + int option) \<times> registry" where
  "table_index_find_row fs data_dir storage row_id reg =
     (case ensure_loaded fs data_dir storage reg of
        (Inl f, reg1) \<Rightarrow> (Inl f, reg1)
      | (Inr entry, reg1) \<Rightarrow> (Inr (bptree_search (ti_tree entry) row_id), reg1))"

definition table_index_force_next_register_failure :: "registry \<Rightarrow> registry" where
  "table_index_force_next_register_failure reg = reg\<lparr>reg_force := True\<rparr>"

section \<open>Consistency with the file\<close>

text \<open>
  \<open>table_rows fs data_dir storage rows\<close>: the CSV file of the table is readable, \<open>rows\<close> are its data
  rows with their offsets, and their number can be counted by an \<open>int\<close>. An entry is consistent when
  it is not loaded, or its tree maps exactly the positions of the rows to their offsets.
\<close>

definition table_rows :: "filesystem \<Rightarrow> string \<Rightarrow> string \<Rightarrow> (nat \<times> string list) list \<Rightarrow> bool" where
  "table_rows fs data_dir storage rows \<longleftrightarrow>
     (\<exists>s. fs (table_path data_dir storage) = Some (Regular s) \<and> s \<noteq> [] \<and> csv_rows s = Inr rows) \<and>
     int (length rows) < INT_MAX"

definition row_offsets :: "(nat \<times> string list) list \<Rightarrow> int list" where
  "row_offsets rows = map (\<lambda>(offset, _). int offset) rows"

definition index_of_rows :: "table_index \<Rightarrow> (nat \<times> string list) list \<Rightarrow> bool" where
  "index_of_rows e rows \<longleftrightarrow> ti_loaded e \<and> bptree_inv (ti_tree e) \<and>
     map_of (entries (ti_tree e)) = numbered 1 (row_offsets rows) \<and> ti_next_id e = 1 + int (length rows)"

definition entry_ok :: "filesystem \<Rightarrow> string \<Rightarrow> table_index \<Rightarrow> bool" where
  "entry_ok fs data_dir e \<longleftrightarrow> (ti_loaded e \<longrightarrow> (\<exists>rows. table_rows fs data_dir (ti_name e) rows \<and> index_of_rows e rows))"

definition registry_ok :: "filesystem \<Rightarrow> string \<Rightarrow> registry \<Rightarrow> bool" where
  "registry_ok fs data_dir reg \<longleftrightarrow> distinct (map ti_name (reg_items reg)) \<and>
     (\<forall>e \<in> set (reg_items reg). entry_ok fs data_dir e)"

lemmas registry_defs = find_table_index_def put_entry_def get_or_create_table_index_def clear_entry_def

lemma row_offsets_simps [simp]:
  "row_offsets [] = []" "row_offsets ((n, f) # rows) = int n # row_offsets rows"
  "row_offsets (xs @ ys) = row_offsets xs @ row_offsets ys" "length (row_offsets rows) = length rows"
  by (simp_all add: row_offsets_def)

lemma table_rows_unique: "table_rows fs d t rows \<Longrightarrow> table_rows fs d t rows' \<Longrightarrow> rows = rows'"
  by (auto simp: table_rows_def)

lemma visit_rebuild:
  "visit_rows rebuild_row rows (tree, k) =
   (case insert_from (bptree_insert all_memory) tree k (row_offsets rows) of
      (Inl f, _) \<Rightarrow> Inl f | (Inr _, tree', k') \<Rightarrow> Inr (tree', k'))"
proof (induction rows arbitrary: tree k)
  case (Cons r rows)
  obtain n f where "r = (n, f)" by (cases r)
  then show ?case
    using Cons by (auto simp: rebuild_row_def split: prod.splits sum.splits)
qed simp

lemma scan_rebuilds:
  assumes "table_rows fs data_dir storage rows"
  shows "\<exists>tree. scan_rows_csv fs data_dir storage rebuild_row (bptree_init, 1) = Inr (tree, 1 + int (length rows)) \<and>
    bptree_inv tree \<and> map_of (entries tree) = numbered 1 (row_offsets rows)"
proof -
  obtain s where s: "fs (table_path data_dir storage) = Some (Regular s)" "s \<noteq> []" "csv_rows s = Inr rows"
    and len: "int (length (row_offsets rows)) \<le> INT_MAX"
    using assms by (auto simp: table_rows_def)
  from bptree_index.rebuild_empty [OF len] scan_rows_visits [of fs, OF s, of rebuild_row "(bptree_init, 1)"]
  show ?thesis by (auto simp: visit_rebuild)
qed

section \<open>The registry\<close>

lemma find_table_index_Some:
  "find_table_index reg name = Some e \<Longrightarrow> e \<in> set (reg_items reg) \<and> ti_name e = name"
  unfolding find_table_index_def by (metis (mono_tags, lifting) find_Some_iff nth_mem)

lemma find_table_index_None:
  "find_table_index reg name = None \<longleftrightarrow> name \<notin> ti_name ` set (reg_items reg)"
  by (auto simp: find_table_index_def find_None_iff)

lemma find_table_index_eq:
  assumes "distinct (map ti_name (reg_items reg))" "e \<in> set (reg_items reg)"
  shows "find_table_index reg (ti_name e) = Some e"
proof -
  obtain e' where e': "find_table_index reg (ti_name e) = Some e'"
    using assms(2) find_table_index_None by fastforce
  with find_table_index_Some [OF e'] assms show ?thesis by (metis distinct_map inj_on_contraD)
qed

lemma put_entry_names [simp]: "map ti_name (reg_items (put_entry reg e)) = map ti_name (reg_items reg)"
  by (auto simp: put_entry_def)

lemma put_entry_force [simp]: "reg_force (put_entry reg e) = reg_force reg"
  by (simp add: put_entry_def)

lemma put_entry_find:
  assumes "distinct (map ti_name (reg_items reg))" "ti_name e \<in> ti_name ` set (reg_items reg)"
  shows "find_table_index (put_entry reg e) (ti_name e) = Some e"
proof -
  have "e \<in> set (reg_items (put_entry reg e))" using assms(2) by (force simp: put_entry_def)
  then show ?thesis using assms(1) find_table_index_eq [of "put_entry reg e" e] by simp
qed

lemma put_entry_set: "x \<in> set (reg_items (put_entry reg e)) \<Longrightarrow> x = e \<or> x \<in> set (reg_items reg) \<and> ti_name x \<noteq> ti_name e"
  by (auto simp: put_entry_def split: if_splits)

lemma registry_ok_put:
  "registry_ok fs d reg \<Longrightarrow> entry_ok fs d e \<Longrightarrow> registry_ok fs d (put_entry reg e)"
  unfolding registry_ok_def by (auto dest!: put_entry_set)

lemma entry_ok_clear [simp]: "entry_ok fs d (clear_entry e)"
  by (simp add: entry_ok_def clear_entry_def)

lemma get_or_create_ok:
  assumes "registry_ok fs d reg" "get_or_create_table_index reg name = (e, reg1)"
  shows "registry_ok fs d reg1 \<and> find_table_index reg1 name = Some e \<and> ti_name e = name \<and>
    reg_force reg1 = reg_force reg"
proof (cases "find_table_index reg name")
  case (Some x)
  with assms find_table_index_Some [OF Some] show ?thesis by (simp add: get_or_create_table_index_def)
next
  case None
  then have e: "e = \<lparr>ti_name = name, ti_loaded = False, ti_tree = bptree_init, ti_next_id = 1\<rparr>"
    and reg1: "reg1 = reg\<lparr>reg_items := reg_items reg @ [e]\<rparr>"
    using assms(2) by (auto simp: get_or_create_table_index_def Let_def)
  have ok: "registry_ok fs d reg1"
    using assms(1) None by (auto simp: registry_ok_def reg1 find_table_index_None entry_ok_def e)
  then have "find_table_index reg1 (ti_name e) = Some e"
    by (intro find_table_index_eq) (auto simp: registry_ok_def reg1)
  with ok show ?thesis by (simp add: e reg1)
qed

lemma table_index_loaded_rows:
  assumes "registry_ok fs d reg" "find_table_index reg t = Some e" "ti_loaded e" "table_rows fs d t rows"
  shows "index_of_rows e rows"
  using assms find_table_index_Some [OF assms(2)] table_rows_unique
  by (fastforce simp: registry_ok_def entry_ok_def)

lemma ensure_loaded_ok:
  assumes "registry_ok fs d reg" "table_rows fs d t rows"
  shows "\<exists>e reg'. ensure_loaded fs d t reg = (Inr e, reg') \<and> index_of_rows e rows \<and> ti_name e = t \<and>
    find_table_index reg' t = Some e \<and> registry_ok fs d reg' \<and> reg_force reg' = reg_force reg"
proof -
  obtain e reg1 where g: "get_or_create_table_index reg t = (e, reg1)" by fastforce
  note r1 = get_or_create_ok [OF assms(1) g]
  show ?thesis
  proof (cases "ti_loaded e")
    case True
    with g r1 table_index_loaded_rows [of fs d reg1 t e rows] assms(2) show ?thesis
      by (simp add: ensure_loaded_def)
  next
    case False
    from scan_rebuilds [OF assms(2)] obtain tree where
      scan: "scan_rows_csv fs d t rebuild_row (bptree_init, 1) = Inr (tree, 1 + int (length rows))" and
      tree: "bptree_inv tree" "map_of (entries tree) = numbered 1 (row_offsets rows)" by blast
    define e' where "e' = e\<lparr>ti_loaded := True, ti_tree := tree, ti_next_id := 1 + int (length rows)\<rparr>"
    have load: "ensure_loaded fs d t reg = (Inr e', put_entry reg1 e')"
      using g False scan by (simp add: ensure_loaded_def e'_def Let_def)
    have e': "index_of_rows e' rows" "ti_name e' = t" using tree r1 by (simp_all add: index_of_rows_def e'_def)
    then have "entry_ok fs d e'" using assms(2) by (auto simp: entry_ok_def)
    moreover have "ti_name e' \<in> ti_name ` set (reg_items reg1)"
      using r1 e'(2) find_table_index_Some [of reg1 t e] by (metis imageI)
    then have "find_table_index (put_entry reg1 e') t = Some e'"
      using put_entry_find [of reg1 e'] r1 e'(2) by (simp add: registry_ok_def)
    ultimately show ?thesis using load e' r1 registry_ok_put by auto
  qed
qed

lemma ensure_loaded_failure:
  assumes "registry_ok fs d reg" "ensure_loaded fs d t reg = (Inl f, reg')"
  shows "registry_ok fs d reg' \<and> reg_force reg' = reg_force reg"
proof -
  obtain e reg1 where g: "get_or_create_table_index reg t = (e, reg1)" by fastforce
  show ?thesis
    using assms get_or_create_ok [OF assms(1) g]
    by (auto simp: ensure_loaded_def g Let_def registry_ok_put split: if_splits sum.splits)
qed

text \<open>Files whose rows can be counted by an \<open>int\<close>.\<close>

definition countable_files :: "filesystem \<Rightarrow> bool" where
  "countable_files fs \<longleftrightarrow> (\<forall>p s rows. fs p = Some (Regular s) \<longrightarrow> csv_rows s = Inr rows \<longrightarrow> int (length rows) < INT_MAX)"

lemma ensure_loaded_rows:
  assumes "registry_ok fs d reg" "countable_files fs" "ensure_loaded fs d t reg = (Inr e, reg')"
  shows "\<exists>rows. table_rows fs d t rows"
proof -
  obtain e1 reg1 where g: "get_or_create_table_index reg t = (e1, reg1)" by fastforce
  note r1 = get_or_create_ok [OF assms(1) g]
  show ?thesis
  proof (cases "ti_loaded e1")
    case True
    with r1 find_table_index_Some [of reg1 t e1] show ?thesis
      by (auto simp: registry_ok_def entry_ok_def)
  next
    case False
    then obtain c where "scan_rows_csv fs d t rebuild_row (bptree_init, 1) = Inr c"
      using assms(3) g by (auto simp: ensure_loaded_def split: sum.splits)
    from scan_rows_parses [OF this] assms(2) show ?thesis
      by (auto simp: table_rows_def countable_files_def)
  qed
qed

section \<open>Appending to the file and the index\<close>

lemma table_path_inj: "table_path d t = table_path d u \<longleftrightarrow> t = u"
  by (simp add: table_path_def build_path_def)

lemma entry_ok_other:
  assumes "entry_ok fs d e" "ti_name e \<noteq> t" "\<And>p. p \<noteq> table_path d t \<Longrightarrow> fs' p = fs p"
  shows "entry_ok fs' d e"
proof -
  have "fs' (table_path d (ti_name e)) = fs (table_path d (ti_name e))"
    using assms(2,3) by (simp add: table_path_inj)
  then show ?thesis using assms(1) by (simp add: entry_ok_def table_rows_def)
qed

lemma register_row_ok:
  assumes ok: "registry_ok fs d reg" and loaded: "find_table_index reg t = Some e" "ti_loaded e"
    and rows: "table_rows fs d t rows" "table_rows fs' d t (rows @ [(offset, f)])"
    and same: "\<And>p. p \<noteq> table_path d t \<Longrightarrow> fs' p = fs p" and force: "\<not> reg_force reg"
  shows "\<exists>reg'. table_index_register_row fs' d t (1 + int (length rows)) (int offset) reg = (Inr (), reg') \<and>
    registry_ok fs' d reg' \<and> \<not> reg_force reg'"
proof -
  have idx: "index_of_rows e rows" using table_index_loaded_rows [OF ok loaded rows(1)] .
  have name: "ti_name e = t" using find_table_index_Some [OF loaded(1)] by simp
  have load: "ensure_loaded fs' d t reg = (Inr e, reg)"
    using loaded by (simp add: ensure_loaded_def get_or_create_table_index_def)
  let ?k = "1 + int (length rows)"
  have k: "in_int ?k" using rows(1) by (auto simp: table_rows_def range_defs)
  have "map_of (entries (ti_tree e)) ?k = None" using idx by (simp add: index_of_rows_def numbered_def)
  from bptree_index.ins_new [OF _ k this, of "int offset"] idx obtain tree where
    tree: "bptree_insert all_memory (ti_tree e) ?k (int offset) = (Inr (), tree)" "bptree_inv tree"
      "map_of (entries tree) = (map_of (entries (ti_tree e)))(?k \<mapsto> int offset)"
    by (auto simp: index_of_rows_def)
  define e' where "e' = e\<lparr>ti_tree := tree, ti_next_id := ?k + 1\<rparr>"
  have "index_of_rows e' (rows @ [(offset, f)])"
    using idx tree(2,3) by (simp add: index_of_rows_def e'_def numbered_snoc)
  then have e': "entry_ok fs' d e'" using rows(2) name by (auto simp: entry_ok_def e'_def)
  have "registry_ok fs' d (put_entry reg e')"
    unfolding registry_ok_def
  proof (intro conjI ballI)
    show "distinct (map ti_name (reg_items (put_entry reg e')))" using ok by (simp add: registry_ok_def)
    fix x assume "x \<in> set (reg_items (put_entry reg e'))"
    from put_entry_set [OF this] show "entry_ok fs' d x"
      using e' ok same name entry_ok_other [of fs d x t fs'] by (auto simp: registry_ok_def e'_def)
  qed
  moreover have "table_index_register_row fs' d t ?k (int offset) reg = (Inr (), put_entry reg e')"
    using force tree(1) idx by (simp add: table_index_register_row_def load index_of_rows_def e'_def)
  ultimately show ?thesis using force by simp
qed

lemma registry_ok_invalidate:
  assumes "registry_ok fs d reg" "\<And>p. p \<noteq> table_path d t \<Longrightarrow> fs' p = fs p"
  shows "registry_ok fs' d (table_index_invalidate reg t)"
proof (cases "find_table_index reg t")
  case None
  then have "\<forall>e \<in> set (reg_items reg). ti_name e \<noteq> t" by (auto simp: find_table_index_None)
  then show ?thesis
    using assms entry_ok_other [of fs d _ t fs'] None
    by (auto simp: registry_ok_def table_index_invalidate_def)
next
  case (Some e)
  then have name: "ti_name (clear_entry e) = t" using find_table_index_Some [OF Some] by (simp add: clear_entry_def)
  show ?thesis
    unfolding registry_ok_def
  proof (intro conjI ballI)
    show "distinct (map ti_name (reg_items (table_index_invalidate reg t)))"
      using assms(1) Some by (simp add: table_index_invalidate_def registry_ok_def)
    fix x assume "x \<in> set (reg_items (table_index_invalidate reg t))"
    then have "x \<in> set (reg_items (put_entry reg (clear_entry e)))" using Some by (simp add: table_index_invalidate_def)
    from put_entry_set [OF this] show "entry_ok fs' d x"
      using assms name entry_ok_other [of fs d x t fs'] by (auto simp: registry_ok_def)
  qed
qed

section \<open>The theorems of the index\<close>

text \<open>
  C7 (index lookup): on a consistent registry and a readable table, looking up an id succeeds and
  returns the file offset of the row with that number, counted from one over the data rows, and
  nothing for every other id. The first lookup rebuilds the index from the file, later ones use the
  tree in memory; the answer is the same, and the registry stays consistent.
\<close>

theorem table_index_find_row_correct:
  assumes "registry_ok fs data_dir reg" "table_rows fs data_dir storage rows" "in_int row_id"
  shows "\<exists>reg'. table_index_find_row fs data_dir storage row_id reg =
      (Inr (if 1 \<le> row_id \<and> row_id \<le> int (length rows)
            then Some (int (fst (rows ! nat (row_id - 1)))) else None), reg') \<and>
    registry_ok fs data_dir reg' \<and> table_index_is_loaded reg' storage"
proof -
  obtain e reg' where load: "ensure_loaded fs data_dir storage reg = (Inr e, reg')" "index_of_rows e rows"
    "find_table_index reg' storage = Some e" "registry_ok fs data_dir reg'"
    using ensure_loaded_ok [OF assms(1,2)] by blast
  have "bptree_search (ti_tree e) row_id = numbered 1 (row_offsets rows) row_id"
    using load(2) bptree_index.find_abs [OF _ assms(3), of "ti_tree e"] by (simp add: index_of_rows_def)
  also have "\<dots> = (if 1 \<le> row_id \<and> row_id \<le> int (length rows) then Some (int (fst (rows ! nat (row_id - 1)))) else None)"
    by (auto simp: numbered_def row_offsets_def split_beta nat_less_iff)
  finally show ?thesis
    using load by (simp add: table_index_find_row_def table_index_is_loaded_def index_of_rows_def)
qed

theorem table_index_find_row_correct_witness:
  "table_rows [''d/t.csv'' \<mapsto> Regular [CHR ''n'', LF, CHR ''a'', LF, CHR ''b'']] ''d'' ''t'' [(2, [''a'']), (4, [''b''])] \<and>
   (\<exists>reg'. table_index_find_row [''d/t.csv'' \<mapsto> Regular [CHR ''n'', LF, CHR ''a'', LF, CHR ''b'']] ''d'' ''t'' 2 registry_empty =
     (Inr (Some 4), reg'))"
proof -
  let ?s = "[CHR ''n'', LF, CHR ''a'', LF, CHR ''b'']"
  have "csv_rows ?s = Inr [(2, [''a'']), (4, [''b''])]" by code_simp
  moreover have "table_path ''d'' ''t'' = ''d/t.csv''" by code_simp
  ultimately have rows: "table_rows [''d/t.csv'' \<mapsto> Regular ?s] ''d'' ''t'' [(2, [''a'']), (4, [''b''])]"
    by (simp add: table_rows_def range_defs)
  have reg: "registry_ok [''d/t.csv'' \<mapsto> Regular ?s] ''d'' registry_empty"
    by (simp add: registry_ok_def registry_empty_def)
  have int2: "in_int 2" by (simp add: range_defs)
  from table_index_find_row_correct [OF reg rows int2] rows show ?thesis by auto
qed

text \<open>
  C8 (registering an appended row): when the index of a table is loaded and a row has just been
  appended to its file, registering the row under the next id makes the index consistent with the
  new file, without reading it again; the indexes of the other tables stay consistent.
\<close>

theorem table_index_register_row_correct:
  assumes "registry_ok fs data_dir reg" "table_index_is_loaded reg storage" "\<not> reg_force reg"
    "table_rows fs data_dir storage rows" "table_rows fs' data_dir storage (rows @ [(offset, f)])"
    "\<forall>p. p \<noteq> table_path data_dir storage \<longrightarrow> fs' p = fs p"
  shows "\<exists>reg1 reg2. table_index_get_next_id fs data_dir storage reg = (Inr (1 + int (length rows)), reg1) \<and>
    table_index_register_row fs' data_dir storage (1 + int (length rows)) (int offset) reg1 = (Inr (), reg2) \<and>
    registry_ok fs' data_dir reg2"
proof -
  obtain e reg1 where load: "ensure_loaded fs data_dir storage reg = (Inr e, reg1)" "index_of_rows e rows"
    "find_table_index reg1 storage = Some e" "registry_ok fs data_dir reg1" "reg_force reg1 = reg_force reg"
    using ensure_loaded_ok [OF assms(1,4)] by blast
  have "ti_loaded e" using load(2) by (simp add: index_of_rows_def)
  then have "\<exists>reg2. table_index_register_row fs' data_dir storage (1 + int (length rows)) (int offset) reg1 = (Inr (), reg2) \<and>
      registry_ok fs' data_dir reg2 \<and> \<not> reg_force reg2"
    using assms(3,4,5,6) load(5) by (intro register_row_ok [OF load(4,3)]) auto
  moreover have "table_index_get_next_id fs data_dir storage reg = (Inr (1 + int (length rows)), reg1)"
    using load(1,2) by (simp add: table_index_get_next_id_def index_of_rows_def)
  ultimately show ?thesis by blast
qed

theorem table_index_register_row_correct_witness:
  "\<exists>reg0 reg1 reg2. table_index_is_loaded reg0 ''t'' \<and>
    table_index_get_next_id [''d/t.csv'' \<mapsto> Regular [CHR ''n'', LF]] ''d'' ''t'' reg0 = (Inr 1, reg1) \<and>
    table_index_register_row [''d/t.csv'' \<mapsto> Regular [CHR ''n'', LF, CHR ''a'']] ''d'' ''t'' 1 2 reg1 = (Inr (), reg2) \<and>
    registry_ok [''d/t.csv'' \<mapsto> Regular [CHR ''n'', LF, CHR ''a'']] ''d'' reg2"
proof -
  let ?fs = "[''d/t.csv'' \<mapsto> Regular [CHR ''n'', LF]]"
  let ?fs' = "[''d/t.csv'' \<mapsto> Regular [CHR ''n'', LF, CHR ''a'']]"
  have path: "table_path ''d'' ''t'' = ''d/t.csv''" by code_simp
  have "csv_rows [CHR ''n'', LF] = Inr []" "csv_rows [CHR ''n'', LF, CHR ''a''] = Inr [(2, [''a''])]"
    by code_simp+
  then have rows: "table_rows ?fs ''d'' ''t'' []" "table_rows ?fs' ''d'' ''t'' ([] @ [(2, [''a''])])"
    by (simp_all add: table_rows_def range_defs path)
  have "registry_ok ?fs ''d'' registry_empty" by (simp add: registry_ok_def registry_empty_def)
  from ensure_loaded_ok [OF this rows(1)] obtain e reg0 where
    reg0: "index_of_rows e []" "find_table_index reg0 ''t'' = Some e" "registry_ok ?fs ''d'' reg0" "\<not> reg_force reg0"
    by (auto simp: registry_empty_def)
  then have loaded: "table_index_is_loaded reg0 ''t''" by (simp add: table_index_is_loaded_def index_of_rows_def)
  have same: "\<forall>p. p \<noteq> table_path ''d'' ''t'' \<longrightarrow> ?fs' p = ?fs p" by (simp add: path)
  from table_index_register_row_correct [of ?fs "''d''" reg0 "''t''" "[]" ?fs' 2 "[''a'']",
      OF reg0(3) loaded reg0(4) rows same] loaded
  show ?thesis by (auto simp del: fun_upd_apply)
qed

end
