(* ===== verification/Executor.thy ===== *)
theory Executor
  imports Parser Table_Index
begin

text \<open>
  Execution of statements (\<open>execution/executor.c\<close>): INSERT validates the columns, completes the row
  in schema order, appends it to the CSV file and registers it in the index; SELECT projects the
  requested columns, answers \<open>WHERE id = ...\<close> through the index and every other query by a scan,
  and renders the result as a text table. The state is the file system and the index registry. A
  result with \<open>ok = 0\<close> is \<open>Inl (Message m)\<close>; a store outside the array \<open>selected_indexes\<close> is
  \<open>Inl ArrayOverflow\<close>. Row numbers and text lengths stay within an \<open>int\<close>.
\<close>

record db =
  db_fs :: filesystem
  db_reg :: registry

record exec_ok =
  ex_rows :: nat
  ex_message :: string
  ex_output :: string

type_synonym exec_result = "fault + exec_ok"

section \<open>INSERT\<close>

definition contains_newline :: "string \<Rightarrow> bool" where
  "contains_newline v \<longleftrightarrow> LF \<in> set v \<or> CR \<in> set v"

fun validate_columns :: "schema \<Rightarrow> string list \<Rightarrow> string list \<Rightarrow> unit outcome" where
  "validate_columns sch (c # cs) (v # vs) =
     (if c = ''id'' then Inl ''explicit id column is not allowed''
      else if schema_find_column sch c < 0 then Inl (snprintf 256 (''unknown column in INSERT: '' @ c))
      else if contains_newline v then Inl ''newline in value is not supported''
      else validate_columns sch cs vs)"
| "validate_columns sch _ _ = Inr ()"

definition validate_insert_columns :: "insert_statement \<Rightarrow> schema \<Rightarrow> unit outcome" where
  "validate_insert_columns stmt sch =
     (if length (ins_columns stmt) \<noteq> length (ins_values stmt)
      then Inl ''column count and value count do not match''
      else validate_columns sch (ins_columns stmt) (ins_values stmt))"

fun fill_row :: "schema \<Rightarrow> string list \<Rightarrow> string list \<Rightarrow> bool list \<Rightarrow> string list \<Rightarrow> string list outcome" where
  "fill_row sch (c # cs) (v # vs) assigned row =
     (let schema_index = schema_find_column sch c in
      if schema_index < 0 then Inl (snprintf 256 (''unknown column in INSERT: '' @ c))
      else if assigned ! nat schema_index then Inl (snprintf 256 (''duplicate column in INSERT: '' @ c))
      else fill_row sch cs vs (assigned[nat schema_index := True]) (row[nat schema_index := v]))"
| "fill_row sch _ _ assigned row = Inr row"

definition build_insert_row :: "insert_statement \<Rightarrow> schema \<Rightarrow> string list outcome" where
  "build_insert_row stmt sch =
     fill_row sch (ins_columns stmt) (ins_values stmt)
       (replicate (length (sch_columns sch)) False) (replicate (length (sch_columns sch)) [])"

definition execute_insert :: "insert_statement \<Rightarrow> string \<Rightarrow> string \<Rightarrow> db \<Rightarrow> exec_result \<times> db" where
  "execute_insert stmt schema_dir data_dir db0 =
     (case load_schema (db_fs db0) schema_dir data_dir (ins_table stmt) of
        Inl m \<Rightarrow> (Inl (Message m), db0)
      | Inr sch \<Rightarrow>
     (case validate_insert_columns stmt sch of
        Inl m \<Rightarrow> (Inl (Message m), db0)
      | Inr _ \<Rightarrow>
     (case table_index_get_next_id (db_fs db0) data_dir (sch_storage sch) (db_reg db0) of
        (Inl f, reg1) \<Rightarrow> (Inl f, db0\<lparr>db_reg := reg1\<rparr>)
      | (Inr next_id, reg1) \<Rightarrow>
     (case build_insert_row stmt sch of
        Inl m \<Rightarrow> (Inl (Message m), db0\<lparr>db_reg := reg1\<rparr>)
      | Inr row_values \<Rightarrow>
     (case append_row_csv (db_fs db0) data_dir (sch_storage sch) row_values of
        (storage_result, fs1) \<Rightarrow>
      if \<not> sr_ok storage_result
      then (Inl (Message (sr_message storage_result)), \<lparr>db_fs = fs1, db_reg = reg1\<rparr>)
      else
     (case table_index_register_row fs1 data_dir (sch_storage sch) next_id (sr_row_offset storage_result) reg1 of
        (Inl f, reg2) \<Rightarrow> (Inl f, \<lparr>db_fs = fs1, db_reg = table_index_invalidate reg2 (sch_storage sch)\<rparr>)
      | (Inr _, reg2) \<Rightarrow>
          (Inr \<lparr>ex_rows = sr_affected_rows storage_result, ex_message = sr_message storage_result, ex_output = []\<rparr>,
           \<lparr>db_fs = fs1, db_reg = reg2\<rparr>)))))))"

section \<open>The columns of a SELECT\<close>

definition INTERNAL_ID_SELECT_INDEX :: int where
  "INTERNAL_ID_SELECT_INDEX = - 1"

text \<open>
  The loop over the selected columns. The array of indexes has room for \<open>capacity\<close> entries, the
  number of columns of the schema.
\<close>

fun select_columns_loop ::
    "schema \<Rightarrow> nat \<Rightarrow> nat \<Rightarrow> string list \<Rightarrow> string list \<Rightarrow> int list \<Rightarrow> fault + (string list \<times> int list)" where
  "select_columns_loop sch capacity index [] headers idxs = Inr (headers, idxs)"
| "select_columns_loop sch capacity index (c # cs) headers idxs =
     (if c = ''id'' then
        if index \<ge> capacity then Inl ArrayOverflow
        else select_columns_loop sch capacity (Suc index) cs (headers @ [''id'']) (idxs @ [INTERNAL_ID_SELECT_INDEX])
      else let schema_index = schema_find_column sch c in
        if schema_index < 0 then Inl (Message (snprintf 256 (''unknown column in SELECT: '' @ c)))
        else if index \<ge> capacity then Inl ArrayOverflow
        else select_columns_loop sch capacity (Suc index) cs (headers @ [c]) (idxs @ [schema_index]))"

definition build_select_indexes :: "select_statement \<Rightarrow> schema \<Rightarrow> fault + (string list \<times> int list)" where
  "build_select_indexes stmt sch =
     (if sel_all stmt
      then Inr (sch_columns sch, map int [0..<length (sch_columns sch)])
      else select_columns_loop sch (length (sch_columns sch)) 0 (sel_columns stmt) [] [])"

definition resolve_where_index :: "select_statement \<Rightarrow> schema \<Rightarrow> int outcome" where
  "resolve_where_index stmt sch =
     (case sel_where stmt of
        None \<Rightarrow> Inr (- 1)
      | Some (column, v) \<Rightarrow>
          if column = ''id'' then Inr (- 1)
          else let where_index = schema_find_column sch column in
            if where_index < 0 then Inl (snprintf 256 (''unknown column in WHERE: '' @ column))
            else Inr where_index)"

definition row_matches_where :: "select_statement \<Rightarrow> string list \<Rightarrow> int \<Rightarrow> bool" where
  "row_matches_where stmt flds where_index =
     (case sel_where stmt of None \<Rightarrow> True | Some (column, v) \<Rightarrow> flds ! nat where_index = v)"

definition select_row :: "string list \<Rightarrow> int list \<Rightarrow> int \<Rightarrow> string list" where
  "select_row flds idxs internal_id =
     map (\<lambda>i. if i = INTERNAL_ID_SELECT_INDEX then snprintf 32 (show_int internal_id) else flds ! nat i) idxs"

section \<open>The text table\<close>

fun widen :: "nat list \<Rightarrow> string list \<Rightarrow> nat list" where
  "widen (w # ws) (x # xs) = (if length x > w then length x else w) # widen ws xs"
| "widen ws xs = ws"

definition compute_table_widths :: "string list \<Rightarrow> string list list \<Rightarrow> nat list" where
  "compute_table_widths headers rows = fold (\<lambda>row ws. widen ws row) rows (map length headers)"

definition print_table_border :: "nat list \<Rightarrow> string" where
  "print_table_border ws = ''+'' @ concat (map (\<lambda>w. replicate (w + 2) (CHR ''-'') @ ''+'') ws) @ [LF]"

definition print_table_row :: "string list \<Rightarrow> nat list \<Rightarrow> string" where
  "print_table_row row ws =
     ''|'' @ concat (map (\<lambda>(x, w). '' '' @ x @ replicate (w - length x) SPC @ '' |'') (zip row ws)) @ [LF]"

definition print_result_table :: "string list \<Rightarrow> string list list \<Rightarrow> string" where
  "print_result_table headers rows =
     (let ws = compute_table_widths headers rows in
      print_table_border ws @ print_table_row headers ws @ print_table_border ws @
      concat (map (\<lambda>row. print_table_row row ws) rows) @ print_table_border ws)"

section \<open>SELECT\<close>

definition select_result :: "string list \<Rightarrow> string list list \<Rightarrow> exec_result" where
  "select_result headers rows =
     Inr \<lparr>ex_rows = length rows, ex_message = snprintf 256 (''SELECT '' @ show_nat (length rows)),
          ex_output = print_result_table headers rows\<rparr>"

definition execute_index_select ::
    "string \<Rightarrow> schema \<Rightarrow> string \<Rightarrow> string list \<Rightarrow> int list \<Rightarrow> db \<Rightarrow> exec_result \<times> db" where
  "execute_index_select where_value sch data_dir headers idxs db0 =
     (case parse_int_strict where_value of
        None \<Rightarrow> (Inl (Message ''WHERE id value must be an integer''), db0)
      | Some where_id \<Rightarrow>
     (case table_index_find_row (db_fs db0) data_dir (sch_storage sch) where_id (db_reg db0) of
        (Inl f, reg1) \<Rightarrow> (Inl f, db0\<lparr>db_reg := reg1\<rparr>)
      | (Inr None, reg1) \<Rightarrow> (select_result headers [], db0\<lparr>db_reg := reg1\<rparr>)
      | (Inr (Some row_offset), reg1) \<Rightarrow>
     (case read_row_at_offset_csv (db_fs db0) data_dir (sch_storage sch) row_offset of
        Inl m \<Rightarrow> (Inl (Message m), db0\<lparr>db_reg := reg1\<rparr>)
      | Inr flds \<Rightarrow>
          if length flds \<noteq> length (sch_columns sch)
          then (Inl (Message ''CSV row does not match schema column count''), db0\<lparr>db_reg := reg1\<rparr>)
          else (select_result headers [select_row flds idxs where_id], db0\<lparr>db_reg := reg1\<rparr>))))"

function select_scan ::
    "select_statement \<Rightarrow> schema \<Rightarrow> int \<Rightarrow> int list \<Rightarrow> string \<Rightarrow> int \<Rightarrow> string list list \<Rightarrow> string list list outcome" where
  "select_scan stmt sch where_index idxs rest current_id rows =
     (case fgets LINE_SIZE rest of
        None \<Rightarrow> Inr rows
      | Some (line, rest') \<Rightarrow>
          if line_text line = [] then select_scan stmt sch where_index idxs rest' current_id rows
          else (case csv_parse_line (line_text line) of
              Inl e \<Rightarrow> Inl e
            | Inr flds \<Rightarrow>
                if length flds \<noteq> length (sch_columns sch)
                then Inl ''CSV row does not match schema column count''
                else if \<not> row_matches_where stmt flds where_index
                then select_scan stmt sch where_index idxs rest' (current_id + 1) rows
                else select_scan stmt sch where_index idxs rest' (current_id + 1)
                       (rows @ [select_row flds idxs current_id])))"
  by pat_completeness auto
termination
  by (relation "measure (\<lambda>(stmt, sch, where_index, idxs, rest, current_id, rows). length rest)")
    (auto dest: fgets_progress)

declare select_scan.simps [simp del]

definition execute_scan_select ::
    "select_statement \<Rightarrow> schema \<Rightarrow> string \<Rightarrow> string list \<Rightarrow> int list \<Rightarrow> int \<Rightarrow> filesystem \<Rightarrow> exec_result" where
  "execute_scan_select stmt sch data_dir headers idxs where_index fs =
     (case fopen_rb fs (build_path data_dir (sch_storage sch) ''.csv'') of
        Inl e \<Rightarrow> Inl (Message (format_system_error 256 ''failed to open table data file''
                   (build_path data_dir (sch_storage sch) ''.csv'') e))
      | Inr content \<Rightarrow>
          (case fgets LINE_SIZE content of
             None \<Rightarrow> Inl (Message ''table data file is empty'')
           | Some (line, rest) \<Rightarrow>
               (case select_scan stmt sch where_index idxs rest 1 [] of
                  Inl e \<Rightarrow> Inl (Message e)
                | Inr rows \<Rightarrow> select_result headers rows)))"

definition execute_select :: "select_statement \<Rightarrow> string \<Rightarrow> string \<Rightarrow> db \<Rightarrow> exec_result \<times> db" where
  "execute_select stmt schema_dir data_dir db0 =
     (case load_schema (db_fs db0) schema_dir data_dir (sel_table stmt) of
        Inl m \<Rightarrow> (Inl (Message m), db0)
      | Inr sch \<Rightarrow>
     (case build_select_indexes stmt sch of
        Inl f \<Rightarrow> (Inl f, db0)
      | Inr (headers, idxs) \<Rightarrow>
      if idxs = [] then (Inl (Message []), db0)
      else
     (case resolve_where_index stmt sch of
        Inl m \<Rightarrow> (Inl (Message m), db0)
      | Inr where_index \<Rightarrow>
     (case sel_where stmt of
        Some (column, v) \<Rightarrow>
          if column = ''id'' then execute_index_select v sch data_dir headers idxs db0
          else (execute_scan_select stmt sch data_dir headers idxs where_index (db_fs db0), db0)
      | None \<Rightarrow> (execute_scan_select stmt sch data_dir headers idxs where_index (db_fs db0), db0)))))"

definition execute_statement :: "statement \<Rightarrow> string \<Rightarrow> string \<Rightarrow> db \<Rightarrow> exec_result \<times> db" where
  "execute_statement stmt schema_dir data_dir db0 =
     (case stmt of
        Insert s \<Rightarrow> execute_insert s schema_dir data_dir db0
      | Select s \<Rightarrow> execute_select s schema_dir data_dir db0)"

definition execution_runtime_reset :: "db \<Rightarrow> db" where
  "execution_runtime_reset db0 = db0\<lparr>db_reg := table_index_registry_reset (db_reg db0)\<rparr>"

section \<open>What an INSERT stores\<close>

text \<open>
  The row in schema order, with the empty string for the columns the statement does not mention,
  and the statements that describe such a row.
\<close>

definition row_of :: "string list \<Rightarrow> (string \<times> string) list \<Rightarrow> string list" where
  "row_of columns assignments = map (\<lambda>c. case map_of assignments c of None \<Rightarrow> [] | Some v \<Rightarrow> v) columns"

definition insert_row :: "insert_statement \<Rightarrow> schema \<Rightarrow> string list" where
  "insert_row stmt sch = row_of (sch_columns sch) (zip (ins_columns stmt) (ins_values stmt))"

definition valid_insert :: "insert_statement \<Rightarrow> schema \<Rightarrow> bool" where
  "valid_insert stmt sch \<longleftrightarrow> length (ins_columns stmt) = length (ins_values stmt) \<and>
     distinct (ins_columns stmt) \<and> set (ins_columns stmt) \<subseteq> set (sch_columns sch) \<and>
     (\<forall>v \<in> set (ins_values stmt). \<not> contains_newline v)"

lemma validate_columns_ok:
  "length cs = length vs \<Longrightarrow> ''id'' \<notin> set (sch_columns sch) \<Longrightarrow>
   validate_columns sch cs vs = Inr u \<longleftrightarrow> set cs \<subseteq> set (sch_columns sch) \<and> (\<forall>v \<in> set vs. \<not> contains_newline v)"
  by (induction sch cs vs rule: validate_columns.induct) (auto simp: schema_find_column_def)

lemma map_update_column:
  assumes "distinct columns" "c \<in> set columns"
  shows "(map f columns)[nat (string_list_index_of columns c) := x] = map (f(c := x)) columns"
proof -
  define i where "i = nat (string_list_index_of columns c)"
  have i: "i < length columns" "columns ! i = c"
    using string_list_index_of_found [of c columns] assms(2) by (auto simp: i_def)
  have "(map f columns)[i := x] = map (f(c := x)) columns"
  proof (rule nth_equalityI)
    fix j assume "j < length ((map f columns)[i := x])"
    then show "(map f columns)[i := x] ! j = map (f(c := x)) columns ! j"
      using i assms(1) by (auto simp: nth_list_update nth_eq_iff_index_eq)
  qed simp
  then show ?thesis by (simp add: i_def)
qed

lemma nth_column:
  assumes "c \<in> set columns"
  shows "map f columns ! nat (string_list_index_of columns c) = f c"
  using string_list_index_of_found [of c columns] assms by auto

lemma fill_row_ok:
  assumes "distinct (sch_columns sch)"
  shows "length cs = length vs \<Longrightarrow> set cs \<subseteq> set (sch_columns sch) \<Longrightarrow> distinct cs \<Longrightarrow> set cs \<inter> D = {} \<Longrightarrow>
    fill_row sch cs vs (map (\<lambda>c. c \<in> D) (sch_columns sch)) (map m (sch_columns sch)) =
    Inr (map (\<lambda>c. case map_of (zip cs vs) c of None \<Rightarrow> m c | Some v \<Rightarrow> v) (sch_columns sch))"
proof (induction cs vs arbitrary: D m rule: list_induct2')
  case (4 c cs v vs)
  have c: "c \<in> set (sch_columns sch)" "c \<notin> D" "c \<notin> set cs" using "4.prems" by auto
  let ?S = "sch_columns sch"
  have upd: "(map (\<lambda>c. c \<in> D) ?S)[nat (string_list_index_of ?S c) := True] = map (\<lambda>x. x \<in> insert c D) ?S"
    "(map m ?S)[nat (string_list_index_of ?S c) := v] = map (m(c := v)) ?S"
    by (simp_all add: map_update_column [OF assms c(1)])
  have found: "(string_list_index_of ?S c < 0) = False" "(map (\<lambda>c. c \<in> D) ?S ! nat (string_list_index_of ?S c)) = False"
    using c by (simp_all add: nth_column)
  have step: "fill_row sch (c # cs) (v # vs) (map (\<lambda>c. c \<in> D) ?S) (map m ?S) =
      fill_row sch cs vs (map (\<lambda>x. x \<in> insert c D) ?S) (map (m(c := v)) ?S)"
    by (simp only: fill_row.simps Let_def schema_find_column_def found upd if_False)
  have "map_of (zip cs vs) c = None" using "4.prems" c(3) by (auto simp: map_of_eq_None_iff dest: set_zip_leftD)
  then have res: "map (\<lambda>x. case map_of (zip cs vs) x of None \<Rightarrow> (m(c := v)) x | Some w \<Rightarrow> w) ?S =
      map (\<lambda>x. case map_of (zip (c # cs) (v # vs)) x of None \<Rightarrow> m x | Some w \<Rightarrow> w) ?S"
    by (intro map_cong refl) (auto split: option.splits)
  have "fill_row sch cs vs (map (\<lambda>x. x \<in> insert c D) ?S) (map (m(c := v)) ?S) =
      Inr (map (\<lambda>x. case map_of (zip cs vs) x of None \<Rightarrow> (m(c := v)) x | Some w \<Rightarrow> w) ?S)"
    using "4.prems" c by (intro "4.IH") auto
  then show ?case unfolding step res .
qed auto

lemma build_insert_row_ok:
  assumes "distinct (sch_columns sch)" "valid_insert stmt sch"
  shows "build_insert_row stmt sch = Inr (insert_row stmt sch)"
proof -
  have init: "replicate (length (sch_columns sch)) False = map (\<lambda>c. c \<in> {}) (sch_columns sch)"
    "replicate (length (sch_columns sch)) ([] :: string) = map (\<lambda>_. []) (sch_columns sch)"
    by (simp_all add: map_replicate_const)
  show ?thesis
    using fill_row_ok [OF assms(1), of "ins_columns stmt" "ins_values stmt" "{}" "\<lambda>_. []"] assms(2)
    unfolding build_insert_row_def init by (simp add: valid_insert_def insert_row_def row_of_def)
qed

lemma insert_row_length [simp]: "length (insert_row stmt sch) = length (sch_columns sch)"
  by (simp add: insert_row_def row_of_def)

lemma table_rows_content:
  assumes "table_rows fs d t rows"
  obtains s where "fs (table_path d t) = Some (Regular s)" "s \<noteq> []" "csv_rows s = Inr rows"
  using assms by (auto simp: table_rows_def)

lemma append_table_rows:
  assumes "table_rows fs d t rows" "one_line_row vs" "int (length rows) + 1 < INT_MAX"
  shows "\<exists>offset fs'. append_row_csv fs d t vs =
      (\<lparr>sr_ok = True, sr_affected_rows = 1, sr_row_offset = int offset, sr_message = ''INSERT 1''\<rparr>, fs') \<and>
    table_rows fs' d t (rows @ [(offset, map csv_stored vs)]) \<and> grown fs fs' d t"
proof -
  obtain s where s: "fs (table_path d t) = Some (Regular s)" "s \<noteq> []" "csv_rows s = Inr rows"
    using assms(1) by (rule table_rows_content)
  then have "csv_rows (closed_content s @ csv_row vs) = Inr (rows @ [(length (closed_content s), map csv_stored vs)])"
    using assms(2) by (intro csv_rows_append)
  then show ?thesis
    using append_row_csv_Regular [of fs, OF s(1), of vs] s(2) assms(3) closed_content_last [OF s(2)]
      table_header_first_line [OF first_line_append [OF s(2), of "csv_row vs"]] s(1)
    by (auto simp: table_rows_def grown_def)
qed

lemma valid_insert_validates:
  assumes "valid_table fs d sch" "valid_insert stmt sch"
  shows "validate_insert_columns stmt sch = Inr ()"
  using assms validate_columns_ok [of "ins_columns stmt" "ins_values stmt" sch "()"]
  by (auto simp: validate_insert_columns_def valid_insert_def valid_table_def)

lemma check_schema_valid: "load_schema fs schema_dir data_dir table = Inr sch \<Longrightarrow> valid_table fs data_dir sch"
  by (auto simp: load_schema_def sbind_Inr_iff dest!: check_schema_sound)

lemma execute_insert_ok:
  assumes load: "load_schema (db_fs db0) schema_dir data_dir (ins_table stmt) = Inr sch"
    and sch: "distinct (sch_columns sch)" "valid_insert stmt sch" "one_line_row (insert_row stmt sch)"
    and reg: "registry_ok (db_fs db0) data_dir (db_reg db0)" "\<not> reg_force (db_reg db0)"
    and rows: "table_rows (db_fs db0) data_dir (sch_storage sch) rows" "int (length rows) + 1 < INT_MAX"
  shows "\<exists>offset db1. execute_insert stmt schema_dir data_dir db0 =
      (Inr \<lparr>ex_rows = 1, ex_message = ''INSERT 1'', ex_output = []\<rparr>, db1) \<and>
    table_rows (db_fs db1) data_dir (sch_storage sch) (rows @ [(offset, map csv_stored (insert_row stmt sch))]) \<and>
    registry_ok (db_fs db1) data_dir (db_reg db1) \<and> \<not> reg_force (db_reg db1) \<and>
    grown (db_fs db0) (db_fs db1) data_dir (sch_storage sch)"
proof -
  let ?t = "sch_storage sch"
  obtain e reg1 where e: "ensure_loaded (db_fs db0) data_dir ?t (db_reg db0) = (Inr e, reg1)" "index_of_rows e rows"
    "find_table_index reg1 ?t = Some e" "registry_ok (db_fs db0) data_dir reg1" "\<not> reg_force reg1"
    using ensure_loaded_ok [OF reg(1) rows(1)] reg(2) by auto
  obtain offset fs1 where app: "append_row_csv (db_fs db0) data_dir ?t (insert_row stmt sch) =
      (\<lparr>sr_ok = True, sr_affected_rows = 1, sr_row_offset = int offset, sr_message = ''INSERT 1''\<rparr>, fs1)"
    and fs1: "table_rows fs1 data_dir ?t (rows @ [(offset, map csv_stored (insert_row stmt sch))])"
      "grown (db_fs db0) fs1 data_dir ?t"
    using append_table_rows [OF rows(1) sch(3) rows(2)] by blast
  have next_id: "table_index_get_next_id (db_fs db0) data_dir ?t (db_reg db0) = (Inr (1 + int (length rows)), reg1)"
    using e(1,2) by (simp add: table_index_get_next_id_def index_of_rows_def)
  obtain reg2 where reg2: "table_index_register_row fs1 data_dir ?t (1 + int (length rows)) (int offset) reg1 = (Inr (), reg2)"
    "registry_ok fs1 data_dir reg2" "\<not> reg_force reg2"
    using register_row_ok [OF e(4,3) _ rows(1) fs1(1) _ e(5)] fs1(2) e(2) by (auto simp: index_of_rows_def grown_def)
  have "execute_insert stmt schema_dir data_dir db0 =
      (Inr \<lparr>ex_rows = 1, ex_message = ''INSERT 1'', ex_output = []\<rparr>, \<lparr>db_fs = fs1, db_reg = reg2\<rparr>)"
    using load valid_insert_validates [OF check_schema_valid [OF load] sch(2)] next_id
      build_insert_row_ok [OF sch(1,2)] app reg2(1)
    by (simp add: execute_insert_def)
  with fs1 reg2 show ?thesis by auto
qed

section \<open>What a SELECT returns\<close>

text \<open>The rows that satisfy a condition on their number and fields, projected to the selection.\<close>

fun matching_rows ::
    "(int \<Rightarrow> string list \<Rightarrow> bool) \<Rightarrow> int list \<Rightarrow> int \<Rightarrow> (nat \<times> string list) list \<Rightarrow> string list list" where
  "matching_rows P idxs k [] = []"
| "matching_rows P idxs k ((offset, f) # rows) =
     (if P k f then [select_row f idxs k] else []) @ matching_rows P idxs (k + 1) rows"

fun where_condition :: "schema \<Rightarrow> (string \<times> string) option \<Rightarrow> int \<Rightarrow> string list \<Rightarrow> bool" where
  "where_condition sch None i f \<longleftrightarrow> True"
| "where_condition sch (Some (c, v)) i f \<longleftrightarrow>
     (if c = ''id'' then parse_int_strict v = Some i
      else f ! nat (string_list_index_of (sch_columns sch) c) = v)"

fun valid_where :: "schema \<Rightarrow> (string \<times> string) option \<Rightarrow> bool" where
  "valid_where sch None \<longleftrightarrow> True"
| "valid_where sch (Some (c, v)) \<longleftrightarrow>
     (if c = ''id'' then parse_int_strict v \<noteq> None else c \<in> set (sch_columns sch))"

definition shaped_rows :: "schema \<Rightarrow> (nat \<times> string list) list \<Rightarrow> bool" where
  "shaped_rows sch rows \<longleftrightarrow> (\<forall>(offset, f) \<in> set rows. length f = length (sch_columns sch))"

lemma select_scan_ok:
  assumes "parse_lines (text_lines (chunks s n)) = Inr rows" "shaped_rows sch rows"
  shows "select_scan stmt sch wi idxs s k acc =
    Inr (acc @ matching_rows (\<lambda>_ f. row_matches_where stmt f wi) idxs k rows)"
  using assms
proof (induction s n arbitrary: rows k acc rule: chunks.induct)
  case (1 s n)
  show ?case
  proof (cases "fgets LINE_SIZE s")
    case None
    with "1.prems" show ?thesis by (subst select_scan.simps) auto
  next
    case (Some lr)
    obtain l r where lr: "lr = (l, r)" by (cases lr)
    note f = Some [unfolded lr]
    from "1.prems" "1.IH" [OF f refl] show ?thesis
      by (subst select_scan.simps)
        (auto simp: f chunks_Some [OF f] sbind_Inr_iff shaped_rows_def split: if_splits sum.splits)
  qed
qed

lemma matching_rows_none: "\<not> (k \<le> i \<and> i < k + int (length rows)) \<Longrightarrow> matching_rows (\<lambda>j _. i = j) idxs k rows = []"
  by (induction "\<lambda>j (_ :: string list). i = j" idxs k rows rule: matching_rows.induct) auto

lemma matching_rows_id:
  "matching_rows (\<lambda>j _. i = j) idxs k rows =
   (if k \<le> i \<and> i < k + int (length rows) then [select_row (snd (rows ! nat (i - k))) idxs i] else [])"
proof (induction rows arbitrary: k)
  case (Cons r rows)
  obtain n f where r: "r = (n, f)" by (cases r)
  show ?case
  proof (cases "i = k")
    case True
    then show ?thesis by (simp add: r matching_rows_none)
  next
    case False
    then have "nat (i - k) = Suc (nat (i - (k + 1)))" if "k \<le> i" using that by simp
    with False show ?thesis by (auto simp: r Cons.IH)
  qed
qed simp

lemma scan_select_ok:
  assumes "table_rows fs d (sch_storage sch) rows" "shaped_rows sch rows"
  shows "execute_scan_select stmt sch d headers idxs wi fs =
    select_result headers (matching_rows (\<lambda>_ f. row_matches_where stmt f wi) idxs 1 rows)"
proof -
  obtain s where s: "fs (table_path d (sch_storage sch)) = Some (Regular s)" "s \<noteq> []" "csv_rows s = Inr rows"
    using assms(1) by (rule table_rows_content)
  obtain l r where f: "fgets LINE_SIZE s = Some (l, r)" using s(2) by (cases "fgets LINE_SIZE s") auto
  with s(3) have "parse_lines (text_lines (chunks r (length l))) = Inr rows"
    by (simp add: csv_rows_def data_lines_def)
  from select_scan_ok [OF this assms(2)] s(1) f show ?thesis
    by (simp add: execute_scan_select_def table_path_def)
qed

lemma index_select_ok:
  assumes "registry_ok (db_fs db0) d (db_reg db0)" "table_rows (db_fs db0) d (sch_storage sch) rows"
    "shaped_rows sch rows" "parse_int_strict v = Some i"
  shows "\<exists>reg1. execute_index_select v sch d headers idxs db0 =
      (select_result headers (matching_rows (\<lambda>j _. i = j) idxs 1 rows), db0\<lparr>db_reg := reg1\<rparr>) \<and>
    registry_ok (db_fs db0) d reg1 \<and> reg_force reg1 = reg_force (db_reg db0)"
proof -
  let ?t = "sch_storage sch"
  obtain e reg1 where e: "ensure_loaded (db_fs db0) d ?t (db_reg db0) = (Inr e, reg1)" "index_of_rows e rows"
    "registry_ok (db_fs db0) d reg1" "reg_force reg1 = reg_force (db_reg db0)"
    using ensure_loaded_ok [OF assms(1,2)] by blast
  have search: "bptree_search (ti_tree e) i = numbered 1 (row_offsets rows) i"
    using e(2) bptree_index.find_abs [OF _ parse_int_strict_range [OF assms(4)], of "ti_tree e"]
    by (simp add: index_of_rows_def)
  have find_row: "table_index_find_row (db_fs db0) d ?t i (db_reg db0) = (Inr (numbered 1 (row_offsets rows) i), reg1)"
    using e(1) search by (simp add: table_index_find_row_def)
  show ?thesis
  proof (cases "1 \<le> i \<and> i < 1 + int (length rows)")
    case False
    then have "numbered 1 (row_offsets rows) i = None" by (simp add: numbered_def)
    then show ?thesis
      using assms(4) find_row e(3,4) matching_rows_id [of i idxs 1 rows] False
      by (auto simp: execute_index_select_def)
  next
    case True
    define r where "r = rows ! nat (i - 1)"
    have r: "r \<in> set rows" using True by (auto simp: r_def intro!: nth_mem)
    then have len: "length (snd r) = length (sch_columns sch)" using assms(3) by (auto simp: shaped_rows_def)
    have num: "numbered 1 (row_offsets rows) i = Some (int (fst r))"
      using True by (auto simp: numbered_def row_offsets_def r_def split_beta nat_less_iff)
    obtain s where s: "(db_fs db0) (table_path d ?t) = Some (Regular s)" "csv_rows s = Inr rows"
      using assms(2) by (rule table_rows_content)
    have "read_row_at_offset_csv (db_fs db0) d ?t (int (fst r)) = Inr (snd r)"
      using read_row_of_scan [of "db_fs db0", OF s, of "fst r" "snd r"] r by simp
    then show ?thesis
      using assms(4) find_row num e(3,4) matching_rows_id [of i idxs 1 rows] True len
      by (auto simp: execute_index_select_def r_def)
  qed
qed

lemma register_never_fails:
  assumes "registry_ok fs d reg" "find_table_index reg t = Some e" "index_of_rows e rows" "table_rows fs d t rows"
    "\<not> reg_force reg"
  shows "fst (table_index_register_row fs' d t (1 + int (length rows)) offset reg) = Inr ()"
proof -
  have load: "ensure_loaded fs' d t reg = (Inr e, reg)"
    using assms(2,3) by (simp add: ensure_loaded_def get_or_create_table_index_def index_of_rows_def)
  have k: "in_int (1 + int (length rows))" using assms(4) by (auto simp: table_rows_def range_defs)
  have "map_of (entries (ti_tree e)) (1 + int (length rows)) = None"
    using assms(3) by (simp add: index_of_rows_def numbered_def)
  from bptree_index.ins_new [OF _ k this, of offset] assms(3) show ?thesis
    using assms(5) by (auto simp: table_index_register_row_def load index_of_rows_def)
qed

lemma execute_insert_failure:
  assumes ok: "registry_ok (db_fs db0) data_dir (db_reg db0)" "\<not> reg_force (db_reg db0)" "countable_files (db_fs db0)"
    and fail: "execute_insert stmt schema_dir data_dir db0 = (Inl f, db1)"
  shows "db_fs db1 = db_fs db0"
proof (cases "load_schema (db_fs db0) schema_dir data_dir (ins_table stmt)")
  case (Inl m)
  with fail show ?thesis by (simp add: execute_insert_def)
next
  case load: (Inr sch)
  let ?t = "sch_storage sch"
  show ?thesis
  proof (cases "\<exists>e reg1. ensure_loaded (db_fs db0) data_dir ?t (db_reg db0) = (Inr e, reg1)")
    case False
    then obtain g reg1 where "ensure_loaded (db_fs db0) data_dir ?t (db_reg db0) = (Inl g, reg1)"
      by (cases "ensure_loaded (db_fs db0) data_dir ?t (db_reg db0)") (metis old.sum.exhaust)
    with fail load show ?thesis
      by (auto simp: execute_insert_def table_index_get_next_id_def split: sum.splits)
  next
    case True
    then obtain e reg1 where e: "ensure_loaded (db_fs db0) data_dir ?t (db_reg db0) = (Inr e, reg1)" by blast
    then obtain rows where rows: "table_rows (db_fs db0) data_dir ?t rows"
      using ensure_loaded_rows [OF ok(1,3)] by blast
    then have i: "index_of_rows e rows" "find_table_index reg1 ?t = Some e" "registry_ok (db_fs db0) data_dir reg1"
      "\<not> reg_force reg1" using ensure_loaded_ok [OF ok(1) rows] ok(2) e by auto
    define r where "r fs' offset = snd (table_index_register_row fs' data_dir ?t (ti_next_id e) offset reg1)"
      for fs' offset
    have reg: "table_index_register_row fs' data_dir ?t (ti_next_id e) offset reg1 = (Inr (), r fs' offset)"
      for fs' offset
      using register_never_fails [OF i(3,2,1) rows i(4), of fs' offset] i(1)
      by (auto simp: index_of_rows_def r_def prod_eq_iff)
    obtain s where s: "(db_fs db0) (table_path data_dir ?t) = Some (Regular s)"
      using rows by (rule table_rows_content)
    show ?thesis
      using fail load e reg append_row_csv_Regular [of "db_fs db0", OF s]
      by (auto simp: execute_insert_def table_index_get_next_id_def split: sum.splits)
  qed
qed

section \<open>Selected columns\<close>

definition selectable :: "schema \<Rightarrow> string \<Rightarrow> bool" where
  "selectable sch c \<longleftrightarrow> c = ''id'' \<or> c \<in> set (sch_columns sch)"

definition select_index :: "schema \<Rightarrow> string \<Rightarrow> int" where
  "select_index sch c = (if c = ''id'' then INTERNAL_ID_SELECT_INDEX else schema_find_column sch c)"

lemma select_columns_loop_fits:
  "list_all (selectable sch) cs \<Longrightarrow> index + length cs \<le> capacity \<Longrightarrow>
   select_columns_loop sch capacity index cs headers idxs = Inr (headers @ cs, idxs @ map (select_index sch) cs)"
  by (induction cs arbitrary: index headers idxs)
    (auto simp: selectable_def select_index_def schema_find_column_def)

lemma select_columns_loop_overflow:
  "list_all (selectable sch) cs \<Longrightarrow> index + length cs > capacity \<Longrightarrow> index \<le> capacity \<Longrightarrow>
   select_columns_loop sch capacity index cs headers idxs = Inl ArrayOverflow"
  by (induction cs arbitrary: index headers idxs) (auto simp: selectable_def schema_find_column_def)

section \<open>Alignment of the text table\<close>

lemma widen_length [simp]: "length (widen ws xs) = length ws"
  by (induction ws xs rule: widen.induct) auto

lemma widen_ge: "list_all2 (\<le>) ws (widen ws xs)"
  by (induction ws xs rule: widen.induct) (auto simp: list_all2_refl)

lemma widen_covers: "length xs = length ws \<Longrightarrow> list_all2 (\<lambda>x w. length x \<le> w) xs (widen ws xs)"
  by (induction ws xs rule: widen.induct) auto

lemma covers_widen: "list_all2 (\<lambda>x w. length x \<le> w) xs ws \<Longrightarrow> list_all2 (\<lambda>x w. length x \<le> w) xs (widen ws ys)"
  using list_all2_trans [of "\<lambda>x w. length x \<le> w" "(\<le>)" "\<lambda>x w. length x \<le> w"] widen_ge order_trans by blast

lemma widths_cover:
  assumes "\<forall>row \<in> set rows. length row = length ws"
  shows "(\<forall>row \<in> set rows. list_all2 (\<lambda>x w. length x \<le> w) row (fold (\<lambda>row ws. widen ws row) rows ws)) \<and>
    (\<forall>xs :: string list. list_all2 (\<lambda>x w. length x \<le> w) xs ws \<longrightarrow>
       list_all2 (\<lambda>x w. length x \<le> w) xs (fold (\<lambda>row ws. widen ws row) rows ws))"
  using assms
proof (induction rows arbitrary: ws)
  case (Cons row rows)
  then have "\<forall>r \<in> set rows. length r = length (widen ws row)" by simp
  from Cons.IH [OF this] show ?case
    using widen_covers [of row ws] covers_widen [of _ ws row] Cons.prems by auto
qed simp

lemma covered_row_length:
  "list_all2 (\<lambda>x w. length x \<le> w) row ws \<Longrightarrow> length (print_table_row row ws) = length (print_table_border ws)"
  unfolding print_table_row_def print_table_border_def
  by (induction row ws rule: list_all2_induct) auto

text \<open>Both access paths of a SELECT.\<close>

lemma execute_select_ok:
  assumes "load_schema (db_fs db0) schema_dir data_dir (sel_table stmt) = Inr sch"
    "build_select_indexes stmt sch = Inr (headers, idxs)" "idxs \<noteq> []" "valid_where sch (sel_where stmt)"
    "registry_ok (db_fs db0) data_dir (db_reg db0)"
    "table_rows (db_fs db0) data_dir (sch_storage sch) rows" "shaped_rows sch rows"
  shows "\<exists>reg1. execute_statement (Select stmt) schema_dir data_dir db0 =
      (select_result headers (matching_rows (where_condition sch (sel_where stmt)) idxs 1 rows), db0\<lparr>db_reg := reg1\<rparr>) \<and>
    registry_ok (db_fs db0) data_dir reg1"
proof (cases "sel_where stmt")
  case None
  then have "(\<lambda>_ f. row_matches_where stmt f (- 1)) = where_condition sch (sel_where stmt)"
    by (auto simp: fun_eq_iff row_matches_where_def)
  with None assms scan_select_ok [OF assms(6,7), of stmt headers idxs "- 1"] show ?thesis
    by (intro exI [of _ "db_reg db0"]) (simp add: execute_statement_def execute_select_def resolve_where_index_def)
next
  case (Some cv)
  obtain c v where cv: "cv = (c, v)" by (cases cv)
  show ?thesis
  proof (cases "c = ''id''")
    case True
    then obtain i where i: "parse_int_strict v = Some i" using assms(4) Some cv by auto
    then have "(\<lambda>j _. i = j) = where_condition sch (sel_where stmt)" using Some cv True by (auto simp: fun_eq_iff)
    with True Some cv assms index_select_ok [OF assms(5,6,7) i, of headers idxs] show ?thesis
      by (auto simp: execute_statement_def execute_select_def resolve_where_index_def)
  next
    case False
    then have "c \<in> set (sch_columns sch)" using assms(4) Some cv by simp
    moreover have "(\<lambda>_ f. row_matches_where stmt f (string_list_index_of (sch_columns sch) c)) =
        where_condition sch (sel_where stmt)"
      using Some cv False by (auto simp: fun_eq_iff row_matches_where_def)
    ultimately show ?thesis
      using False Some cv assms scan_select_ok [OF assms(6,7), of stmt headers idxs "string_list_index_of (sch_columns sch) c"]
      by (intro exI [of _ "db_reg db0"])
        (simp add: execute_statement_def execute_select_def resolve_where_index_def schema_find_column_def Let_def)
  qed
qed

section \<open>The theorems of the executor\<close>

text \<open>
  C3 (INSERT): on a consistent database, an INSERT whose columns are distinct columns of the
  schema, whose values hold no line break and whose row fits into one line succeeds with the message
  \<open>INSERT 1\<close>. It appends exactly one row to the rows of the table, the given values in schema order
  with the empty string for the columns left out, changes no other file, and leaves the index
  consistent with the new file.
\<close>

theorem execute_insert_appends_row:
  assumes "load_schema (db_fs db0) schema_dir data_dir (ins_table stmt) = Inr sch"
    "distinct (sch_columns sch)" "valid_insert stmt sch" "one_line_row (insert_row stmt sch)"
    "registry_ok (db_fs db0) data_dir (db_reg db0)" "\<not> reg_force (db_reg db0)"
    "table_rows (db_fs db0) data_dir (sch_storage sch) rows" "int (length rows) + 1 < INT_MAX"
  shows "\<exists>offset db1. execute_statement (Insert stmt) schema_dir data_dir db0 =
      (Inr \<lparr>ex_rows = 1, ex_message = ''INSERT 1'', ex_output = []\<rparr>, db1) \<and>
    table_rows (db_fs db1) data_dir (sch_storage sch) (rows @ [(offset, map csv_stored (insert_row stmt sch))]) \<and>
    registry_ok (db_fs db1) data_dir (db_reg db1) \<and>
    (\<forall>p. p \<noteq> table_path data_dir (sch_storage sch) \<longrightarrow> db_fs db1 p = db_fs db0 p)"
  using execute_insert_ok [OF assms] by (auto simp: execute_statement_def grown_def)

text \<open>A small database: the table \<open>t\<close> with columns \<open>name\<close> and \<open>age\<close> and one row.\<close>

definition sample_fs :: filesystem where
  "sample_fs = [''s/t.meta'' \<mapsto> Regular (''table=t'' @ [LF] @ ''columns=name,age'' @ [LF]),
     ''d/t.csv'' \<mapsto> Regular (''name,age'' @ [LF] @ ''kim,3'')]"

definition sample_schema :: schema where
  "sample_schema = \<lparr>sch_table = ''t'', sch_storage = ''t'', sch_columns = [''name'', ''age'']\<rparr>"

lemma sample_db:
  "load_schema sample_fs ''s'' ''d'' ''t'' = Inr sample_schema"
  "table_rows sample_fs ''d'' (sch_storage sample_schema) [(9, [''kim'', ''3''])]"
  "registry_ok sample_fs ''d'' registry_empty" "\<not> reg_force registry_empty"
  "distinct (sch_columns sample_schema)" "shaped_rows sample_schema [(9, [''kim'', ''3''])]"
proof -
  show "load_schema sample_fs ''s'' ''d'' ''t'' = Inr sample_schema" by code_simp
  have "sample_fs (table_path ''d'' (sch_storage sample_schema)) = Some (Regular (''name,age'' @ [LF] @ ''kim,3''))"
    "csv_rows (''name,age'' @ [LF] @ ''kim,3'') = Inr [(9, [''kim'', ''3''])]" by code_simp+
  then show "table_rows sample_fs ''d'' (sch_storage sample_schema) [(9, [''kim'', ''3''])]"
    by (simp add: table_rows_def range_defs)
  show "registry_ok sample_fs ''d'' registry_empty" "\<not> reg_force registry_empty"
    by (simp_all add: registry_ok_def registry_empty_def)
  show "distinct (sch_columns sample_schema)" "shaped_rows sample_schema [(9, [''kim'', ''3''])]" by code_simp+
qed

theorem execute_insert_appends_row_witness:
  "\<exists>offset db1. execute_statement (Insert \<lparr>ins_table = ''t'', ins_columns = [''age''], ins_values = [''7'']\<rparr>) ''s'' ''d''
      \<lparr>db_fs = sample_fs, db_reg = registry_empty\<rparr> =
      (Inr \<lparr>ex_rows = 1, ex_message = ''INSERT 1'', ex_output = []\<rparr>, db1) \<and>
    table_rows (db_fs db1) ''d'' (sch_storage sample_schema) ([(9, [''kim'', ''3''])] @ [(offset, [[], ''7''])])"
proof -
  let ?stmt = "\<lparr>ins_table = ''t'', ins_columns = [''age''], ins_values = [''7'']\<rparr>"
  have "valid_insert ?stmt sample_schema" "one_line_row (insert_row ?stmt sample_schema)"
    "map csv_stored (insert_row ?stmt sample_schema) = [[], ''7'']" by code_simp+
  then show ?thesis
    using execute_insert_appends_row [of "\<lparr>db_fs = sample_fs, db_reg = registry_empty\<rparr>" "''s''" "''d''" ?stmt sample_schema
        "[(9, [''kim'', ''3''])]"] sample_db by (auto simp: range_defs)
qed



text \<open>
  C4 (SELECT): on a consistent database a SELECT of valid columns with a valid condition returns the
  rows of the table that satisfy the condition, in file order, projected to the selected columns,
  where the column \<open>id\<close> is the number of the row. This holds for the index path (\<open>WHERE id = ...\<close>)
  and the scan path alike; the files are unchanged and the index stays consistent.
\<close>

theorem execute_select_correct:
  assumes "load_schema (db_fs db0) schema_dir data_dir (sel_table stmt) = Inr sch"
    "build_select_indexes stmt sch = Inr (headers, idxs)" "idxs \<noteq> []" "valid_where sch (sel_where stmt)"
    "registry_ok (db_fs db0) data_dir (db_reg db0)"
    "table_rows (db_fs db0) data_dir (sch_storage sch) rows" "shaped_rows sch rows"
  shows "\<exists>reg1. execute_statement (Select stmt) schema_dir data_dir db0 =
      (select_result headers (matching_rows (where_condition sch (sel_where stmt)) idxs 1 rows), db0\<lparr>db_reg := reg1\<rparr>) \<and>
    registry_ok (db_fs db0) data_dir reg1"
  by (rule execute_select_ok [OF assms])

theorem execute_select_correct_witness:
  "\<exists>reg1. execute_statement (Select \<lparr>sel_table = ''t'', sel_columns = [''id'', ''name''], sel_all = False,
        sel_where = Some (''id'', ''1'')\<rparr>) ''s'' ''d'' \<lparr>db_fs = sample_fs, db_reg = registry_empty\<rparr> =
      (select_result [''id'', ''name''] [[''1'', ''kim'']], \<lparr>db_fs = sample_fs, db_reg = reg1\<rparr>)"
proof -
  let ?stmt = "\<lparr>sel_table = ''t'', sel_columns = [''id'', ''name''], sel_all = False, sel_where = Some (''id'', ''1'')\<rparr>"
  have "build_select_indexes ?stmt sample_schema = Inr ([''id'', ''name''], [- 1, 0])"
    "valid_where sample_schema (sel_where ?stmt)"
    "matching_rows (where_condition sample_schema (sel_where ?stmt)) [- 1, 0] 1 [(9, [''kim'', ''3''])] = [[''1'', ''kim'']]"
    by code_simp+
  then show ?thesis
    using execute_select_correct [of "\<lparr>db_fs = sample_fs, db_reg = registry_empty\<rparr>" "''s''" "''d''" ?stmt sample_schema
        "[''id'', ''name'']" "[- 1, 0]" "[(9, [''kim'', ''3''])]"] sample_db by auto
qed

text \<open>
  C5 (reading back an INSERT): after a successful INSERT into a consistent database, selecting all
  columns with \<open>WHERE id = n\<close>, where \<open>n\<close> is the number of the new row, returns exactly the stored row,
  found through the index that was updated in memory.
\<close>

theorem insert_then_select_by_id:
  assumes "load_schema (db_fs db0) schema_dir data_dir (ins_table stmt) = Inr sch"
    "distinct (sch_columns sch)" "valid_insert stmt sch" "one_line_row (insert_row stmt sch)"
    "registry_ok (db_fs db0) data_dir (db_reg db0)" "\<not> reg_force (db_reg db0)"
    "table_rows (db_fs db0) data_dir (sch_storage sch) rows" "int (length rows) + 1 < INT_MAX"
    "shaped_rows sch rows" "execute_statement (Insert stmt) schema_dir data_dir db0 = (r, db1)"
  shows "fst (execute_statement (Select \<lparr>sel_table = ins_table stmt, sel_columns = [], sel_all = True,
      sel_where = Some (''id'', show_int (1 + int (length rows)))\<rparr>) schema_dir data_dir db1) =
    select_result (sch_columns sch) [map csv_stored (insert_row stmt sch)]"
proof -
  let ?n = "1 + int (length rows)" and ?row = "map csv_stored (insert_row stmt sch)"
  let ?sel = "\<lparr>sel_table = ins_table stmt, sel_columns = [], sel_all = True, sel_where = Some (''id'', show_int ?n)\<rparr>"
  let ?idxs = "map int [0..<length (sch_columns sch)]"
  obtain offset where t: "table_rows (db_fs db1) data_dir (sch_storage sch) (rows @ [(offset, ?row)])"
    and reg: "registry_ok (db_fs db1) data_dir (db_reg db1)"
    and grown: "grown (db_fs db0) (db_fs db1) data_dir (sch_storage sch)"
    using execute_insert_ok [OF assms(1-8)] assms(10) by (auto simp: execute_statement_def)
  have ne: "sch_columns sch \<noteq> []" using check_schema_valid [OF assms(1)] by (simp add: valid_table_def)
  have parse: "parse_int_strict (show_int ?n) = Some ?n"
    using assms(8) by (intro parse_int_strict_show_int) (simp add: range_defs)
  have shaped: "shaped_rows sch (rows @ [(offset, ?row)])" using assms(9) by (auto simp: shaped_rows_def)
  from index_select_ok [OF reg t shaped parse, of "sch_columns sch" ?idxs]
  have "fst (execute_statement (Select ?sel) schema_dir data_dir db1) =
      select_result (sch_columns sch) (matching_rows (\<lambda>j _. ?n = j) ?idxs 1 (rows @ [(offset, ?row)]))"
    using load_schema_grown [OF grown, of schema_dir "ins_table stmt"] assms(1) ne
    by (auto simp: execute_statement_def execute_select_def build_select_indexes_def resolve_where_index_def)
  moreover have "select_row ?row ?idxs ?n = ?row"
    by (auto simp: select_row_def INTERNAL_ID_SELECT_INDEX_def intro!: nth_equalityI)
  ultimately show ?thesis by (simp add: matching_rows_id nth_append)
qed

theorem insert_then_select_by_id_witness:
  "\<exists>r db1. execute_statement (Insert \<lparr>ins_table = ''t'', ins_columns = [''age''], ins_values = [''7'']\<rparr>) ''s'' ''d''
      \<lparr>db_fs = sample_fs, db_reg = registry_empty\<rparr> = (r, db1) \<and>
    fst (execute_statement (Select \<lparr>sel_table = ''t'', sel_columns = [], sel_all = True, sel_where = Some (''id'', ''2'')\<rparr>) ''s'' ''d'' db1) =
    select_result [''name'', ''age''] [[[], ''7'']]"
proof -
  let ?stmt = "\<lparr>ins_table = ''t'', ins_columns = [''age''], ins_values = [''7'']\<rparr>"
  obtain r db1 where ex: "execute_statement (Insert ?stmt) ''s'' ''d'' \<lparr>db_fs = sample_fs, db_reg = registry_empty\<rparr> = (r, db1)"
    by fastforce
  have "valid_insert ?stmt sample_schema" "one_line_row (insert_row ?stmt sample_schema)"
    "map csv_stored (insert_row ?stmt sample_schema) = [[], ''7'']" "show_int 2 = ''2''" by code_simp+
  then show ?thesis
    using insert_then_select_by_id [of "\<lparr>db_fs = sample_fs, db_reg = registry_empty\<rparr>" "''s''" "''d''" ?stmt sample_schema
        "[(9, [''kim'', ''3''])]" r db1] sample_db ex
    by (intro exI [of _ r] exI [of _ db1]) (auto simp: range_defs sample_schema_def)
qed

text \<open>
  C36 (selection longer than the schema): a SELECT whose listed columns are all valid but more
  numerous than the columns of the schema stores beyond the end of the index array, which is
  allocated with the number of schema columns; with at most that many columns it does not. The
  shortest case is selecting \<open>id\<close> and the only column of a one-column table.
\<close>

theorem select_indexes_overflow:
  assumes "\<not> sel_all stmt" "list_all (selectable sch) (sel_columns stmt)"
  shows "build_select_indexes stmt sch = Inl ArrayOverflow \<longleftrightarrow> length (sch_columns sch) < length (sel_columns stmt)"
  using assms select_columns_loop_fits [OF assms(2), of 0 "length (sch_columns sch)" "[]" "[]"]
    select_columns_loop_overflow [OF assms(2), of "length (sch_columns sch)" 0 "[]" "[]"]
  by (cases "length (sch_columns sch) < length (sel_columns stmt)") (simp_all add: build_select_indexes_def)

theorem select_indexes_overflow_witness:
  "build_select_indexes \<lparr>sel_table = ''t'', sel_columns = [''id'', ''name''], sel_all = False, sel_where = None\<rparr>
     \<lparr>sch_table = ''t'', sch_storage = ''t'', sch_columns = [''name'']\<rparr> = Inl ArrayOverflow"
proof -
  have "list_all (selectable \<lparr>sch_table = ''t'', sch_storage = ''t'', sch_columns = [''name'']\<rparr>) [''id'', ''name'']"
    by code_simp
  then show ?thesis
    using select_indexes_overflow [of "\<lparr>sel_table = ''t'', sel_columns = [''id'', ''name''], sel_all = False, sel_where = None\<rparr>"
        "\<lparr>sch_table = ''t'', sch_storage = ''t'', sch_columns = [''name'']\<rparr>"] by simp
qed

text \<open>
  Alignment: when every result row has as many fields as there are headers, the header line and
  every row line of the printed table are exactly as long as its border lines.
\<close>

theorem print_result_table_aligned:
  assumes "\<forall>row \<in> set rows. length row = length headers" "row \<in> set (headers # rows)"
  shows "length (print_table_row row (compute_table_widths headers rows)) =
    length (print_table_border (compute_table_widths headers rows))"
proof (rule covered_row_length)
  have "list_all2 (\<lambda>x w. length x \<le> w) headers (map length headers)"
    by (simp add: list_all2_conv_all_nth)
  with widths_cover [of rows "map length headers"] assms
  show "list_all2 (\<lambda>x w. length x \<le> w) row (compute_table_widths headers rows)"
    by (auto simp: compute_table_widths_def)
qed

theorem print_result_table_aligned_witness:
  "length (print_table_row [''kim'', ''3''] (compute_table_widths [''name'', ''age''] [[''kim'', ''3'']])) =
   length (print_table_border (compute_table_widths [''name'', ''age''] [[''kim'', ''3'']]))"
  using print_result_table_aligned [of "[[''kim'', ''3'']]" "[''name'', ''age'']" "[''kim'', ''3'']"] by simp

end
