(* ===== verification/Engine.thy ===== *)
theory Engine
  imports Executor
begin

text \<open>
  The engine adapter of \<open>SERVER-CORE/src/engine_api.c\<close> and the engine of \<open>week8_engine.c\<close> behind it.
  The engine callback is a function from the request, the initial row count and the state to its
  answer; the answer is \<open>None\<close> when the run leaves the bounds of an array. Whether the temporary
  file can be created and read back is an argument of the adapter; allocation succeeds, and the
  adapter's own result argument is not NULL.
\<close>

section \<open>Requests, results and status codes\<close>

datatype core_status =
    STATUS_OK | STATUS_INVALID_ARGUMENT | STATUS_NO_MEMORY | STATUS_CAPTURE_ERROR | STATUS_ENGINE_NOT_CONFIGURED

record core_request =
  req_sql :: "string option"
  req_schema_path :: "string option"
  req_data_path :: "string option"

record core_result =
  cr_ok :: bool
  cr_affected_rows :: int
  cr_message :: "string option"
  cr_output_text :: "string option"

record engine_answer =
  ans_ok :: bool
  ans_rows :: int
  ans_message :: string
  ans_output :: string

type_synonym 's engine = "core_request \<Rightarrow> int \<Rightarrow> 's \<Rightarrow> engine_answer option \<times> 's"

record capture =
  cap_tmpfile :: bool
  cap_read :: bool

definition AFFECTED_ROWS_UNKNOWN :: int where
  "AFFECTED_ROWS_UNKNOWN = - 1"

definition MESSAGE_CAPACITY :: nat where
  "MESSAGE_CAPACITY = 512"

fun core_status_string :: "core_status \<Rightarrow> string" where
  "core_status_string STATUS_OK = ''ok''"
| "core_status_string STATUS_INVALID_ARGUMENT = ''invalid argument''"
| "core_status_string STATUS_NO_MEMORY = ''out of memory''"
| "core_status_string STATUS_CAPTURE_ERROR = ''output capture error''"
| "core_status_string STATUS_ENGINE_NOT_CONFIGURED = ''engine not configured''"

definition core_result_zero :: core_result where
  "core_result_zero =
     \<lparr>cr_ok = False, cr_affected_rows = AFFECTED_ROWS_UNKNOWN, cr_message = None, cr_output_text = None\<rparr>"

definition core_result_reset :: "core_result \<Rightarrow> core_result" where
  "core_result_reset result = core_result_zero"

definition populate_system_error :: "core_result \<Rightarrow> core_status \<Rightarrow> string \<Rightarrow> core_status \<times> core_result" where
  "populate_system_error result status message =
     (status, result\<lparr>cr_ok := False, cr_affected_rows := AFFECTED_ROWS_UNKNOWN,
        cr_message := Some message, cr_output_text := Some []\<rparr>)"

section \<open>Reading the captured output back\<close>

definition CAPTURE_READ_CHUNK :: nat where
  "CAPTURE_READ_CHUNK = 4096"

function grow_capacity :: "nat \<Rightarrow> nat \<Rightarrow> nat" where
  "grow_capacity new_capacity required =
     (if new_capacity < required then
        (let doubled = new_capacity * 2 in
         grow_capacity (if doubled < required then doubled + CAPTURE_READ_CHUNK else doubled) required)
      else new_capacity)"
  by pat_completeness auto
termination
  by (relation "measure (\<lambda>(new_capacity, required). required - new_capacity)")
    (auto simp: CAPTURE_READ_CHUNK_def Let_def)

declare grow_capacity.simps [simp del]

text \<open>
  The loop around \<open>fread\<close>: the bytes still in the stream, the buffer so far and its capacity. The
  buffer is NULL before the first bytes arrive.
\<close>

function read_stream_loop :: "string \<Rightarrow> string option \<Rightarrow> nat \<Rightarrow> string option \<times> nat" where
  "read_stream_loop stream buffer capacity =
     (let chunk = take CAPTURE_READ_CHUNK stream;
          used = (case buffer of None \<Rightarrow> 0 | Some b \<Rightarrow> length b);
          required = used + length chunk + 1;
          capacity' = (if chunk \<noteq> [] \<and> required > capacity
             then grow_capacity (if capacity = 0 then required else capacity) required else capacity);
          buffer' = (if chunk \<noteq> [] then Some ((case buffer of None \<Rightarrow> [] | Some b \<Rightarrow> b) @ chunk) else buffer)
      in if length chunk < CAPTURE_READ_CHUNK then (buffer', capacity')
         else read_stream_loop (drop CAPTURE_READ_CHUNK stream) buffer' capacity')"
  by pat_completeness auto
termination
  by (relation "measure (\<lambda>(stream, buffer, capacity). length stream)") (auto simp: CAPTURE_READ_CHUNK_def)

declare read_stream_loop.simps [simp del]

definition read_stream :: "capture \<Rightarrow> string \<Rightarrow> core_status + string" where
  "read_stream cap stream =
     (if \<not> cap_read cap then Inl STATUS_CAPTURE_ERROR
      else Inr (case fst (read_stream_loop stream None 0) of None \<Rightarrow> [] | Some b \<Rightarrow> b))"

section \<open>The adapter\<close>

definition core_execute ::
    "capture \<Rightarrow> 's engine option \<Rightarrow> core_request option \<Rightarrow> core_result \<Rightarrow> 's \<Rightarrow>
     (core_status \<times> core_result) option \<times> 's" where
  "core_execute cap engine request result0 st =
     (let result = core_result_reset result0 in
      case engine of
        None \<Rightarrow> (Some (populate_system_error result STATUS_ENGINE_NOT_CONFIGURED ''engine callback is not configured''), st)
      | Some run \<Rightarrow>
     (case request of
        None \<Rightarrow> (Some (populate_system_error result STATUS_INVALID_ARGUMENT ''request.sql must not be empty''), st)
      | Some rq \<Rightarrow>
      if req_sql rq = None \<or> c_str (the (req_sql rq)) = []
      then (Some (populate_system_error result STATUS_INVALID_ARGUMENT ''request.sql must not be empty''), st)
      else if \<not> cap_tmpfile cap
      then (Some (populate_system_error result STATUS_CAPTURE_ERROR ''failed to allocate capture stream''), st)
      else
     (case run rq AFFECTED_ROWS_UNKNOWN st of
        (None, st') \<Rightarrow> (None, st')
      | (Some answer, st') \<Rightarrow>
     (case read_stream cap (ans_output answer) of
        Inl status \<Rightarrow> (Some (populate_system_error result status ''failed to read captured engine output''), st')
      | Inr captured \<Rightarrow>
          (Some (STATUS_OK, result\<lparr>cr_ok := ans_ok answer, cr_affected_rows := ans_rows answer,
             cr_output_text := Some captured,
             cr_message := Some (if ans_message answer \<noteq> [] then ans_message answer
               else if ans_ok answer then ''ok'' else ''engine execution failed'')\<rparr>), st')))))"

section \<open>The SQL engine\<close>

definition failed_answer :: "int \<Rightarrow> string \<Rightarrow> engine_answer" where
  "failed_answer rows message =
     \<lparr>ans_ok = False, ans_rows = rows, ans_message = snprintf MESSAGE_CAPACITY message, ans_output = []\<rparr>"

definition week8_engine_run :: "db engine" where
  "week8_engine_run rq rows0 db0 =
     (if req_sql rq = None \<or> req_schema_path rq = None \<or> req_data_path rq = None
      then (Some \<lparr>ans_ok = False, ans_rows = rows0, ans_message = [], ans_output = []\<rparr>, db0)
      else case lex_sql (c_str (the (req_sql rq))) of
        Inl e \<Rightarrow> (Some (failed_answer 0 e), db0)
      | Inr tokens \<Rightarrow>
     (case parse_statement tokens of
        Inl (ParseMessage e) \<Rightarrow> (Some (failed_answer 0 e), db0)
      | Inl TokenOutOfBounds \<Rightarrow> (None, db0)
      | Inr stmt \<Rightarrow>
     (case execute_statement stmt (the (req_schema_path rq)) (the (req_data_path rq)) db0 of
        (Inl ArrayOverflow, db1) \<Rightarrow> (None, db1)
      | (Inl (Message e), db1) \<Rightarrow> (Some (failed_answer 0 e), db1)
      | (Inr ex, db1) \<Rightarrow>
          (Some \<lparr>ans_ok = True, ans_rows = int (ex_rows ex), ans_message = snprintf MESSAGE_CAPACITY (ex_message ex),
             ans_output = ex_output ex\<rparr>, db1))))"

definition week8_engine_reset :: "db \<Rightarrow> db" where
  "week8_engine_reset db0 = execution_runtime_reset db0"

section \<open>Captured output is read back completely\<close>

lemma grow_capacity_ge: "required \<le> grow_capacity new_capacity required"
proof (induction new_capacity required rule: grow_capacity.induct)
  case (1 new_capacity required)
  then show ?case by (subst grow_capacity.simps) (auto simp: Let_def)
qed

text \<open>The buffer always holds the bytes read and the terminator.\<close>

lemma read_stream_loop_all:
  assumes "case buffer of None \<Rightarrow> capacity = 0 | Some b \<Rightarrow> length b < capacity"
    and "read_stream_loop stream buffer capacity = (buffer', capacity')"
  shows "(case buffer' of None \<Rightarrow> [] | Some b \<Rightarrow> b) = (case buffer of None \<Rightarrow> [] | Some b \<Rightarrow> b) @ stream \<and>
    (case buffer' of None \<Rightarrow> capacity' = 0 | Some b \<Rightarrow> length b < capacity')"
  using assms
proof (induction stream buffer capacity rule: read_stream_loop.induct)
  case (1 stream buffer capacity)
  let ?chunk = "take CAPTURE_READ_CHUNK stream"
  let ?used = "case buffer of None \<Rightarrow> 0 | Some b \<Rightarrow> length b"
  let ?req = "?used + length ?chunk + 1"
  let ?cap = "if ?chunk \<noteq> [] \<and> ?req > capacity then grow_capacity (if capacity = 0 then ?req else capacity) ?req else capacity"
  let ?buf = "if ?chunk \<noteq> [] then Some ((case buffer of None \<Rightarrow> [] | Some b \<Rightarrow> b) @ ?chunk) else buffer"
  have room: "case ?buf of None \<Rightarrow> ?cap = 0 | Some b \<Rightarrow> length b < ?cap"
    using "1.prems"(1) grow_capacity_ge [of ?req "if capacity = 0 then ?req else capacity"]
    by (auto split: option.splits)
  show ?case
  proof (cases "length ?chunk < CAPTURE_READ_CHUNK")
    case True
    then have chunk: "?chunk = stream" by simp
    from "1.prems"(2) True have res: "?buf = buffer'" "?cap = capacity'"
      by (subst (asm) read_stream_loop.simps, simp only: Let_def if_True prod.inject)+
    from res(1) chunk have "(case buffer' of None \<Rightarrow> [] | Some b \<Rightarrow> b) = (case buffer of None \<Rightarrow> [] | Some b \<Rightarrow> b) @ stream"
      by (auto split: if_splits)
    with room show ?thesis unfolding res by simp
  next
    case False
    from "1.prems"(2) False have rec: "read_stream_loop (drop CAPTURE_READ_CHUNK stream) ?buf ?cap = (buffer', capacity')"
      by (subst (asm) read_stream_loop.simps, simp only: Let_def if_False)
    have "?chunk \<noteq> []" using False by (auto simp: CAPTURE_READ_CHUNK_def)
    then show ?thesis
      using "1.IH" [OF refl refl refl refl refl False room rec] by (simp split: option.splits)
  qed
qed

lemma read_stream_exact: "read_stream cap stream = (if cap_read cap then Inr stream else Inl STATUS_CAPTURE_ERROR)"
proof -
  obtain b c where r: "read_stream_loop stream None 0 = (b, c)" by fastforce
  from read_stream_loop_all [OF _ r] have "(case b of None \<Rightarrow> [] | Some b \<Rightarrow> b) = stream" by simp
  then show ?thesis using r by (simp add: read_stream_def)
qed

section \<open>The contract between the adapter and an engine\<close>

text \<open>
  What the adapter relies on: an engine never writes more than its message buffer holds.
\<close>

locale core_engine =
  fixes run :: "'s engine"
  assumes message_fits: "run rq rows0 st = (Some answer, st') \<Longrightarrow> length (ans_message answer) < MESSAGE_CAPACITY"
begin

lemma execute_message:
  assumes "core_execute cap (Some run) request result0 st = (Some (status, result), st')"
  shows "\<exists>m. cr_message result = Some m \<and> m \<noteq> [] \<and> length m < MESSAGE_CAPACITY"
  using assms message_fits
  by (auto simp: core_execute_def populate_system_error_def Let_def MESSAGE_CAPACITY_def
      split: option.splits if_splits sum.splits prod.splits)

end

lemma core_execute_answered:
  assumes "core_execute cap engine request result0 st = (Some (STATUS_OK, result), st')"
  shows "\<exists>run rq answer. engine = Some run \<and> request = Some rq \<and> run rq AFFECTED_ROWS_UNKNOWN st = (Some answer, st') \<and>
    cr_ok result = ans_ok answer \<and> cr_affected_rows result = ans_rows answer \<and>
    cr_output_text result = Some (ans_output answer)"
  using assms
  by (auto simp: core_execute_def populate_system_error_def read_stream_exact Let_def
      split: option.splits if_splits sum.splits prod.splits)

lemma core_execute_unanswered:
  assumes "core_execute cap engine request result0 st = (Some (status, result), st')" "status \<noteq> STATUS_OK"
  shows "\<not> cr_ok result \<and> cr_affected_rows result = AFFECTED_ROWS_UNKNOWN \<and> cr_output_text result = Some []"
  using assms
  by (auto simp: core_execute_def populate_system_error_def Let_def
      split: option.splits if_splits sum.splits prod.splits)

lemma week8_engine_message:
  assumes "week8_engine_run rq rows0 st = (Some answer, st')"
  shows "length (ans_message answer) < MESSAGE_CAPACITY"
  using assms length_snprintf [of MESSAGE_CAPACITY]
  by (auto simp: week8_engine_run_def failed_answer_def MESSAGE_CAPACITY_def
      split: if_splits sum.splits parse_failure.splits fault.splits prod.splits)

interpretation week8: core_engine week8_engine_run
  by unfold_locales (rule week8_engine_message)

section \<open>The SQL engine runs the statement its text denotes\<close>

lemma week8_engine_statement:
  assumes "lex_sql (c_str sql) = Inr tokens" "parse_statement tokens = Inr stmt"
    "execute_statement stmt schema_dir data_dir db0 = (Inr ex, db1)"
  shows "week8_engine_run \<lparr>req_sql = Some sql, req_schema_path = Some schema_dir, req_data_path = Some data_dir\<rparr> rows0 db0 =
    (Some \<lparr>ans_ok = True, ans_rows = int (ex_rows ex), ans_message = snprintf MESSAGE_CAPACITY (ex_message ex),
       ans_output = ex_output ex\<rparr>, db1)"
  using assms by (simp add: week8_engine_run_def)

lemma core_execute_statement:
  assumes "cap_tmpfile cap" "cap_read cap" "lex_sql (c_str sql) = Inr tokens" "parse_statement tokens = Inr stmt"
    "execute_statement stmt schema_dir data_dir db0 = (Inr ex, db1)"
    "ex_message ex \<noteq> []" "length (ex_message ex) < MESSAGE_CAPACITY" "c_str sql \<noteq> []"
  shows "core_execute cap (Some week8_engine_run)
      (Some \<lparr>req_sql = Some sql, req_schema_path = Some schema_dir, req_data_path = Some data_dir\<rparr>) result0 db0 =
    (Some (STATUS_OK, \<lparr>cr_ok = True, cr_affected_rows = int (ex_rows ex), cr_message = Some (ex_message ex),
       cr_output_text = Some (ex_output ex)\<rparr>), db1)"
  using assms week8_engine_statement [OF assms(3-5)]
  by (simp add: core_execute_def core_result_reset_def core_result_zero_def read_stream_exact snprintf_short)

section \<open>The theorem of the engine adapter\<close>

text \<open>
  C23 (engine adapter): whatever the SQL text, a call of the adapter that returns hands out a
  non-empty message shorter than the message buffer and an output text. With the status OK the
  result is what the engine answered, the captured output complete; with every other status the
  result is not ok, has an unknown number of rows and an empty output.
\<close>

theorem core_execute_contract:
  assumes "core_execute cap (Some week8_engine_run) request result0 db0 = (Some (status, result), db1)"
  shows "(\<exists>m. cr_message result = Some m \<and> m \<noteq> [] \<and> length m < MESSAGE_CAPACITY) \<and>
    (if status = STATUS_OK
     then \<exists>rq answer. request = Some rq \<and> week8_engine_run rq AFFECTED_ROWS_UNKNOWN db0 = (Some answer, db1) \<and>
       cr_ok result = ans_ok answer \<and> cr_affected_rows result = ans_rows answer \<and>
       cr_output_text result = Some (ans_output answer)
     else \<not> cr_ok result \<and> cr_affected_rows result = AFFECTED_ROWS_UNKNOWN \<and> cr_output_text result = Some [])"
proof (cases "status = STATUS_OK")
  case True
  with assms have "core_execute cap (Some week8_engine_run) request result0 db0 = (Some (STATUS_OK, result), db1)" by simp
  from core_execute_answered [OF this] True week8.execute_message [OF assms] show ?thesis by auto
next
  case False
  with core_execute_unanswered [OF assms] week8.execute_message [OF assms] show ?thesis by simp
qed

theorem core_execute_contract_witness:
  "\<exists>result db1. core_execute \<lparr>cap_tmpfile = True, cap_read = True\<rparr> (Some week8_engine_run)
       (Some \<lparr>req_sql = Some ''SELEC'', req_schema_path = Some ''s'', req_data_path = Some ''d''\<rparr>)
       core_result_zero \<lparr>db_fs = sample_fs, db_reg = registry_empty\<rparr> = (Some (STATUS_OK, result), db1) \<and>
     cr_message result \<noteq> None \<and> cr_output_text result \<noteq> None"
proof -
  let ?rq = "Some \<lparr>req_sql = Some ''SELEC'', req_schema_path = Some ''s'', req_data_path = Some ''d''\<rparr>"
  let ?run = "core_execute \<lparr>cap_tmpfile = True, cap_read = True\<rparr> (Some week8_engine_run) ?rq
    core_result_zero \<lparr>db_fs = sample_fs, db_reg = registry_empty\<rparr>"
  have "map_option fst (fst ?run) = Some STATUS_OK" by code_simp
  then obtain result where "?run = (Some (STATUS_OK, result), snd ?run)" by (cases "fst ?run") (auto simp: prod_eq_iff)
  from core_execute_contract [OF this] this show ?thesis by auto
qed

end
