(* ===== verification/Http_Protocol.thy ===== *)
theory Http_Protocol
  imports Util
begin

text \<open>
  The HTTP/1.x protocol layer of \<open>SERVER-HTTP/src/http_protocol.c\<close>: finding and parsing the head of
  a request, the probe that decides whether a request has arrived completely, and the construction
  of JSON responses. A buffer with its length is a list of bytes, a pair of pointers into it is the
  list of bytes between them. The character arrays of \<open>http_request\<close> are the C strings they hold, so
  a copied span ends at its first NUL. Error buffers have 256 bytes, as in every caller; allocation
  succeeds and pointer arguments are not NULL unless an argument is an \<^typ>\<open>'a option\<close>.
\<close>

section \<open>Scanning\<close>

definition CRLF :: string where
  "CRLF = [CR, LF]"

text \<open>The loops that look for a terminator compare it at every index of the span in turn.\<close>

definition starts_with :: "string \<Rightarrow> string \<Rightarrow> bool" where
  "starts_with pat s \<longleftrightarrow> take (length pat) s = pat"

fun find_first :: "string \<Rightarrow> string \<Rightarrow> nat option" where
  "find_first pat [] = None"
| "find_first pat (c # cs) = (if starts_with pat (c # cs) then Some 0 else map_option Suc (find_first pat cs))"

text \<open>The length of the head including the empty line that ends it.\<close>

definition http_find_header_end :: "string \<Rightarrow> nat option" where
  "http_find_header_end buffer = map_option (\<lambda>index. index + 4) (find_first (CRLF @ CRLF) buffer)"

text \<open>The index of the first line end in a span.\<close>

definition http_find_crlf :: "string \<Rightarrow> nat option" where
  "http_find_crlf span = find_first CRLF span"

definition http_ascii_equals_ignore_case :: "string \<Rightarrow> string \<Rightarrow> bool" where
  "http_ascii_equals_ignore_case left right \<longleftrightarrow>
     length left = length right \<and> list_all2 (\<lambda>l r. tolower l = tolower r) left right"

definition http_trim_span :: "string \<Rightarrow> string" where
  "http_trim_span span = rev (dropWhile isspace (rev (dropWhile isspace span)))"

definition ERROR_SIZE :: nat where
  "ERROR_SIZE = 256"

definition http_error :: "string \<Rightarrow> 'a outcome" where
  "http_error m = Inl (snprintf ERROR_SIZE m)"

definition http_copy_span :: "nat \<Rightarrow> string \<Rightarrow> string \<Rightarrow> string outcome" where
  "http_copy_span destination_size span field_name =
     (if span = [] then http_error (''missing '' @ field_name)
      else if length span \<ge> destination_size then http_error (field_name @ '' is too long'')
      else Inr (c_str span))"

text \<open>\<open>memchr\<close>: the bytes before the first occurrence of a character and those behind it.\<close>

definition memchr :: "char \<Rightarrow> string \<Rightarrow> (string \<times> string) option" where
  "memchr c span =
     (if c \<in> set span then Some (takeWhile (\<lambda>x. x \<noteq> c) span, tl (dropWhile (\<lambda>x. x \<noteq> c) span)) else None)"

section \<open>Requests\<close>

datatype http_probe_result = HTTP_PROBE_INVALID | HTTP_PROBE_INCOMPLETE | HTTP_PROBE_COMPLETE

record http_request =
  rq_method :: string
  rq_path :: string
  rq_version :: string
  rq_content_type :: string
  rq_debug_sleep_ms :: string
  rq_debug_sleep_ms_present :: bool
  rq_content_length :: nat
  rq_body :: "string option"

definition http_request_zero :: http_request where
  "http_request_zero = \<lparr>rq_method = [], rq_path = [], rq_version = [], rq_content_type = [],
     rq_debug_sleep_ms = [], rq_debug_sleep_ms_present = False, rq_content_length = 0, rq_body = None\<rparr>"

definition http_parse_request_line :: "string \<Rightarrow> http_request \<Rightarrow> http_request outcome" where
  "http_parse_request_line line request =
     (case memchr SPC line of
        None \<Rightarrow> http_error ''request line is missing the path token''
      | Some (method_span, rest) \<Rightarrow>
     (case memchr SPC rest of
        None \<Rightarrow> http_error ''request line is missing the HTTP version''
      | Some (path_span, version_span) \<Rightarrow>
     if memchr SPC version_span \<noteq> None then http_error ''request line has too many tokens''
     else
       sbind (http_copy_span 16 method_span ''HTTP method'') (\<lambda>meth.
       sbind (http_copy_span 128 path_span ''request path'') (\<lambda>path.
       sbind (http_copy_span 16 version_span ''HTTP version'') (\<lambda>version.
       if version \<noteq> ''HTTP/1.1'' \<and> version \<noteq> ''HTTP/1.0''
       then http_error (''unsupported HTTP version: '' @ version)
       else if char_at path 0 \<noteq> CHR ''/''
       then http_error (''request path must start with '' @ [SQUOTE] @ ''/'' @ [SQUOTE])
       else Inr (request\<lparr>rq_method := meth, rq_path := path, rq_version := version\<rparr>))))))"

fun content_length_loop :: "nat \<Rightarrow> string \<Rightarrow> nat outcome" where
  "content_length_loop parsed_value [] = Inr parsed_value"
| "content_length_loop parsed_value (c # cs) =
     (if \<not> isdigit c then http_error ''Content-Length must be a decimal number''
      else if parsed_value > (SIZE_MAX - digit_value c) div 10 then http_error ''Content-Length is too large''
      else content_length_loop (parsed_value * 10 + digit_value c) cs)"

definition http_parse_content_length :: "string \<Rightarrow> nat outcome" where
  "http_parse_content_length span =
     (let v = http_trim_span span in
      if v = [] then http_error ''Content-Length header is empty'' else content_length_loop 0 v)"

text \<open>The headers seen so far, which must not be repeated.\<close>

record seen_headers =
  saw_content_length :: bool
  saw_content_type :: bool
  saw_debug_sleep_ms :: bool

definition nothing_seen :: seen_headers where
  "nothing_seen = \<lparr>saw_content_length = False, saw_content_type = False, saw_debug_sleep_ms = False\<rparr>"

text \<open>One header with its trimmed name and value.\<close>

definition http_header_field ::
    "string \<Rightarrow> string \<Rightarrow> seen_headers \<Rightarrow> http_request \<Rightarrow> (seen_headers \<times> http_request) outcome" where
  "http_header_field name v seen request =
     (if http_ascii_equals_ignore_case name ''Content-Length'' then
        (if saw_content_length seen then http_error ''duplicate Content-Length header''
         else sbind (http_parse_content_length v) (\<lambda>n.
                Inr (seen\<lparr>saw_content_length := True\<rparr>, request\<lparr>rq_content_length := n\<rparr>)))
      else if http_ascii_equals_ignore_case name ''Content-Type'' then
        (if saw_content_type seen then http_error ''duplicate Content-Type header''
         else if v = [] then Inr (seen\<lparr>saw_content_type := True\<rparr>, request)
         else sbind (http_copy_span 64 v ''Content-Type'') (\<lambda>t.
                Inr (seen\<lparr>saw_content_type := True\<rparr>, request\<lparr>rq_content_type := t\<rparr>)))
      else if http_ascii_equals_ignore_case name ''X-Debug-Sleep-Ms'' then
        (if saw_debug_sleep_ms seen then http_error ''duplicate X-Debug-Sleep-Ms header''
         else sbind (http_copy_span 16 v ''X-Debug-Sleep-Ms'') (\<lambda>t.
                Inr (seen\<lparr>saw_debug_sleep_ms := True\<rparr>,
                     request\<lparr>rq_debug_sleep_ms := t, rq_debug_sleep_ms_present := True\<rparr>)))
      else if http_ascii_equals_ignore_case name ''Transfer-Encoding'' then
        http_error ''Transfer-Encoding is not supported''
      else Inr (seen, request))"

definition http_header_line ::
    "string \<Rightarrow> seen_headers \<Rightarrow> http_request \<Rightarrow> (seen_headers \<times> http_request) outcome" where
  "http_header_line line seen request =
     (case memchr (CHR '':'') line of
        None \<Rightarrow> http_error (''header is missing '' @ [SQUOTE] @ '':'' @ [SQUOTE] @ '' separator'')
      | Some (name_span, value_span) \<Rightarrow>
          (let name = http_trim_span name_span; v = http_trim_span value_span in
           if name = [] then http_error ''header name is empty''
           else http_header_field name v seen request))"

function http_headers_loop :: "string \<Rightarrow> seen_headers \<Rightarrow> http_request \<Rightarrow> http_request outcome" where
  "http_headers_loop text seen request =
     (if text = [] then Inr request
      else case http_find_crlf text of
        None \<Rightarrow> http_error ''header line is not terminated with CRLF''
      | Some n \<Rightarrow>
          if n = 0 then http_headers_loop (drop 2 text) seen request
          else (case http_header_line (take n text) seen request of
                  Inl e \<Rightarrow> Inl e
                | Inr (seen', request') \<Rightarrow> http_headers_loop (drop (n + 2) text) seen' request'))"
  by pat_completeness auto
termination
  by (relation "measure (\<lambda>(text, seen, request). length text)") auto

declare http_headers_loop.simps [simp del]

definition http_parse_headers :: "string \<Rightarrow> http_request \<Rightarrow> http_request outcome" where
  "http_parse_headers text request = http_headers_loop text nothing_seen request"

text \<open>
  The common part of the probe and of the parser: the head of the request and its length.
\<close>

definition http_parse_head :: "string \<Rightarrow> (nat \<times> http_request) outcome" where
  "http_parse_head buffer =
     (case http_find_header_end buffer of
        None \<Rightarrow> http_error ''request headers are incomplete''
      | Some header_length \<Rightarrow>
     (case http_find_crlf (take header_length buffer) of
        None \<Rightarrow> http_error ''request line is missing CRLF''
      | Some line_end \<Rightarrow>
          sbind (http_parse_request_line (take line_end buffer) http_request_zero) (\<lambda>request.
          sbind (http_parse_headers (drop (line_end + 2) (take (header_length - 2) buffer)) request) (\<lambda>request'.
          Inr (header_length, request')))))"

definition http_extract_head_metadata :: "string \<Rightarrow> (nat \<times> nat) outcome" where
  "http_extract_head_metadata buffer =
     sbind (http_parse_head buffer) (\<lambda>(header_length, request). Inr (header_length, rq_content_length request))"

definition HTTP_DEFAULT_MAX_REQUEST_BYTES :: nat where
  "HTTP_DEFAULT_MAX_REQUEST_BYTES = 65536"

text \<open>The result, the request length it reports and the message.\<close>

definition http_request_probe :: "string \<Rightarrow> nat \<Rightarrow> http_probe_result \<times> nat \<times> string" where
  "http_request_probe buffer max_request_bytes =
     (let effective_max = (if max_request_bytes = 0 then HTTP_DEFAULT_MAX_REQUEST_BYTES else max_request_bytes) in
      if length buffer > effective_max
      then (HTTP_PROBE_INVALID, 0, snprintf ERROR_SIZE ''request exceeds configured size limit'')
      else if http_find_header_end buffer = None then (HTTP_PROBE_INCOMPLETE, 0, [])
      else case http_extract_head_metadata buffer of
        Inl e \<Rightarrow> (HTTP_PROBE_INVALID, 0, e)
      | Inr (header_length, content_length) \<Rightarrow>
          if header_length > SIZE_MAX - content_length
          then (HTTP_PROBE_INVALID, 0, snprintf ERROR_SIZE ''request size overflows the platform limit'')
          else if header_length + content_length > effective_max
          then (HTTP_PROBE_INCOMPLETE, header_length + content_length, [])
          else if length buffer \<ge> header_length + content_length
          then (HTTP_PROBE_COMPLETE, header_length + content_length, [])
          else (HTTP_PROBE_INCOMPLETE, header_length + content_length, []))"

definition http_parse_request :: "string \<Rightarrow> http_request outcome" where
  "http_parse_request buffer =
     sbind (http_parse_head buffer) (\<lambda>(header_length, request).
       if rq_content_length request > length buffer - header_length
       then http_error ''request body is incomplete''
       else Inr (request\<lparr>rq_body := Some (take (rq_content_length request) (drop header_length buffer))\<rparr>))"

definition http_content_type_is_sql :: "string \<Rightarrow> bool" where
  "http_content_type_is_sql content_type =
     (if content_type = [] then True
      else let v = http_trim_span (takeWhile (\<lambda>c. c \<noteq> CHR '';'') content_type) in
        if v = [] then True
        else http_ascii_equals_ignore_case v ''text/plain'' \<or> http_ascii_equals_ignore_case v ''application/sql'')"

section \<open>Responses\<close>

definition hex_digit :: "nat \<Rightarrow> char" where
  "hex_digit d = char_of (if d < 10 then 48 + d else 87 + d)"

definition json_escape_char :: "char \<Rightarrow> string" where
  "json_escape_char c =
     (if c = DQUOTE then [BACKSLASH, DQUOTE]
      else if c = BACKSLASH then [BACKSLASH, BACKSLASH]
      else if c = CHR 0x08 then BACKSLASH # ''b''
      else if c = CHR 0x0C then BACKSLASH # ''f''
      else if c = LF then BACKSLASH # ''n''
      else if c = CR then BACKSLASH # ''r''
      else if c = TAB then BACKSLASH # ''t''
      else if byte c < 32 then BACKSLASH # ''u00'' @ [hex_digit (byte c div 16), hex_digit (byte c mod 16)]
      else [c])"

definition http_json_escape :: "string option \<Rightarrow> string" where
  "http_json_escape input = concat (map json_escape_char (case input of None \<Rightarrow> [] | Some s \<Rightarrow> c_str s))"

definition http_reason_phrase :: "int \<Rightarrow> string" where
  "http_reason_phrase status_code =
     (if status_code = 200 then ''OK''
      else if status_code = 400 then ''Bad Request''
      else if status_code = 404 then ''Not Found''
      else if status_code = 405 then ''Method Not Allowed''
      else if status_code = 413 then ''Payload Too Large''
      else if status_code = 415 then ''Unsupported Media Type''
      else if status_code = 500 then ''Internal Server Error''
      else ''Internal Server Error'')"

text \<open>\<open>snprintf\<close> reports a length it cannot represent as a negative number.\<close>

definition printed :: "string \<Rightarrow> string \<Rightarrow> string outcome" where
  "printed text failure = (if int (length text) > INT_MAX then http_error failure else Inr text)"

definition response_text :: "int \<Rightarrow> string \<Rightarrow> string" where
  "response_text status_code json_body =
     ''HTTP/1.1 '' @ show_int status_code @ '' '' @ http_reason_phrase status_code @ CRLF @
     ''Content-Type: application/json'' @ CRLF @
     ''Content-Length: '' @ show_nat (length json_body) @ CRLF @
     ''Connection: close'' @ CRLF @ CRLF @ json_body"

definition http_wrap_json_response :: "int \<Rightarrow> string \<Rightarrow> string outcome" where
  "http_wrap_json_response status_code json_body =
     printed (response_text status_code json_body) ''failed to calculate HTTP response size''"

definition json_member :: "string \<Rightarrow> string \<Rightarrow> string" where
  "json_member name v = [DQUOTE] @ name @ [DQUOTE] @ '':'' @ v"

definition json_text :: "string \<Rightarrow> string" where
  "json_text escaped = [DQUOTE] @ escaped @ [DQUOTE]"

definition json_object :: "string list \<Rightarrow> string" where
  "json_object members =
     ''{'' @ (case members of [] \<Rightarrow> [] | m # ms \<Rightarrow> m @ concat (map (\<lambda>x. '','' @ x) ms)) @ ''}''"

definition http_build_health_response :: "string outcome" where
  "http_build_health_response =
     http_wrap_json_response 200
       (json_object [json_member ''ok'' ''true'', json_member ''path'' (json_text ''/health''),
          json_member ''status_code'' ''200'', json_member ''message'' (json_text ''server is healthy'')])"

definition query_json ::
    "bool \<Rightarrow> int \<Rightarrow> string option \<Rightarrow> string option \<Rightarrow> string option \<Rightarrow> int \<Rightarrow> string option \<Rightarrow> string" where
  "query_json ok status_code path error_code message affected_rows output_text =
     (let p = json_text (http_json_escape path); m = json_text (http_json_escape message);
          out = json_text (http_json_escape output_text)
      in if \<not> ok then
           json_object [json_member ''ok'' ''false'', json_member ''path'' p,
             json_member ''status_code'' (show_int status_code),
             json_member ''error_code'' (json_text (http_json_escape
               (case error_code of None \<Rightarrow> Some ''query_failed'' | Some e \<Rightarrow> Some e))),
             json_member ''message'' m, json_member ''affected_rows'' (show_int affected_rows),
             json_member ''output_text'' out]
         else
           json_object [json_member ''ok'' ''true'', json_member ''path'' p,
             json_member ''status_code'' (show_int status_code), json_member ''message'' m,
             json_member ''affected_rows'' (show_int affected_rows), json_member ''output_text'' out])"

definition http_build_query_response ::
    "bool \<Rightarrow> int \<Rightarrow> string option \<Rightarrow> string option \<Rightarrow> string option \<Rightarrow> int \<Rightarrow> string option \<Rightarrow> string outcome" where
  "http_build_query_response ok status_code path error_code message affected_rows output_text =
     sbind (printed (query_json ok status_code path error_code message affected_rows output_text)
              ''failed to calculate query JSON payload size'')
       (http_wrap_json_response status_code)"

definition error_json :: "int \<Rightarrow> string option \<Rightarrow> string option \<Rightarrow> string option \<Rightarrow> string" where
  "error_json status_code path error_code message =
     json_object [json_member ''ok'' ''false'', json_member ''path'' (json_text (http_json_escape path)),
       json_member ''status_code'' (show_int status_code),
       json_member ''error_code'' (json_text (http_json_escape
         (case error_code of None \<Rightarrow> Some ''internal_error'' | Some e \<Rightarrow> Some e))),
       json_member ''message'' (json_text (http_json_escape message))]"

definition http_build_error_response :: "int \<Rightarrow> string option \<Rightarrow> string option \<Rightarrow> string option \<Rightarrow> string outcome" where
  "http_build_error_response status_code path error_code message =
     sbind (printed (error_json status_code path error_code message) ''failed to calculate error JSON payload size'')
       (http_wrap_json_response status_code)"

section \<open>The head is determined by the bytes up to its end\<close>

lemma starts_with_append: "starts_with pat s \<longleftrightarrow> (\<exists>t. s = pat @ t)"
  unfolding starts_with_def by (metis append_take_drop_id append_eq_conv_conj)

lemma find_first_Some:
  "find_first pat s = Some n \<Longrightarrow> \<exists>t. s = take n s @ pat @ t \<and> n + length pat \<le> length s"
proof (induction s arbitrary: n)
  case (Cons c cs)
  show ?case
  proof (cases "starts_with pat (c # cs)")
    case True
    with Cons.prems show ?thesis by (auto simp: starts_with_append) (metis le_add1 length_Cons length_append)
  next
    case False
    with Cons show ?thesis by auto
  qed
qed simp

lemma find_first_bounds: "find_first pat s = Some n \<Longrightarrow> n + length pat \<le> length s"
  using find_first_Some by blast

text \<open>The first occurrence in a prefix of the text is that of the text, if it lies in the prefix.\<close>

lemma find_first_append:
  "find_first pat s = Some n \<Longrightarrow> find_first pat (s @ t) = Some n"
proof (induction s arbitrary: n)
  case (Cons c cs)
  show ?case
  proof (cases "starts_with pat (c # cs)")
    case True
    then have "starts_with pat ((c # cs) @ t)" unfolding starts_with_append by (metis append.assoc)
    with True Cons.prems show ?thesis by simp
  next
    case False
    then obtain m where m: "find_first pat cs = Some m" "n = Suc m" using Cons.prems by auto
    have "length pat \<le> length (c # cs)" using find_first_bounds [OF m(1)] by simp
    then have "\<not> starts_with pat ((c # cs) @ t)" using False unfolding starts_with_def take_append by simp
    with Cons.IH [OF m(1)] m(2) show ?thesis by simp
  qed
qed simp

lemma starts_with_prefix: "starts_with pat (take k s) \<Longrightarrow> starts_with pat s"
  unfolding starts_with_append by (metis append.assoc append_take_drop_id)

lemma find_first_take_in:
  "find_first pat s = Some n \<Longrightarrow> n + length pat \<le> k \<Longrightarrow> pat \<noteq> [] \<Longrightarrow> find_first pat (take k s) = Some n"
proof (induction s arbitrary: n k)
  case (Cons c cs)
  then obtain j where k: "k = Suc j" by (cases k) auto
  show ?case
  proof (cases "starts_with pat (c # cs)")
    case True
    then have "starts_with pat (take k (c # cs))" using Cons.prems by (simp add: starts_with_def min_def)
    with True Cons.prems k show ?thesis by simp
  next
    case False
    then obtain m where m: "find_first pat cs = Some m" "n = Suc m" using Cons.prems by auto
    have "\<not> starts_with pat (c # take j cs)" using False starts_with_prefix [of pat k "c # cs"] k by auto
    with Cons.IH [OF m(1), of j] Cons.prems m(2) k show ?thesis by simp
  qed
qed simp

lemma find_first_take:
  assumes "find_first pat s = Some n" "pat \<noteq> []"
  shows "find_first pat (take k s) = (if n + length pat \<le> k then Some n else None)"
proof (cases "n + length pat \<le> k")
  case True
  then show ?thesis using find_first_take_in [OF assms(1)] assms(2) by simp
next
  case False
  have "m = n \<and> m + length pat \<le> k" if m: "find_first pat (take k s) = Some m" for m
    using find_first_append [OF m, of "drop k s"] find_first_bounds [OF m] assms(1) by simp
  with False show ?thesis by (cases "find_first pat (take k s)") auto
qed

lemma http_find_header_end_bounds: "http_find_header_end s = Some n \<Longrightarrow> 4 \<le> n \<and> n \<le> length s"
  by (auto simp: http_find_header_end_def CRLF_def dest!: find_first_bounds)

lemma http_find_header_end_take:
  "http_find_header_end s = Some n \<Longrightarrow> http_find_header_end (take k s) = (if n \<le> k then Some n else None)"
  by (auto simp: http_find_header_end_def CRLF_def find_first_take)

lemma http_find_header_end_append:
  "http_find_header_end s = Some n \<Longrightarrow> http_find_header_end (s @ t) = Some n"
  by (auto simp: http_find_header_end_def find_first_append)

lemma http_find_crlf_bounds: "http_find_crlf s = Some n \<Longrightarrow> n + 2 \<le> length s"
  by (auto simp: http_find_crlf_def CRLF_def dest!: find_first_bounds)

lemma http_parse_head_take:
  assumes "http_find_header_end s = Some n" "n \<le> k"
  shows "http_parse_head (take k s) = http_parse_head s"
proof -
  have "take n (take k s) = take n s" "take (n - 2) (take k s) = take (n - 2) s"
    using assms(2) by (simp_all add: min_absorb1)
  moreover have "take l (take k s) = take l s" if "http_find_crlf (take n s) = Some l" for l
    using http_find_crlf_bounds [OF that] assms(2) by (simp add: min_absorb1)
  ultimately show ?thesis
    using http_find_header_end_take [OF assms(1), of k] assms
    by (simp add: http_parse_head_def split: option.splits)
qed

lemma http_parse_head_length:
  "http_parse_head s = Inr (n, rq) \<Longrightarrow> http_find_header_end s = Some n"
  by (auto simp: http_parse_head_def sbind_Inr_iff http_error_def split: option.splits)

section \<open>Content lengths\<close>

lemma digits_value_Cons_mono: "digits_value ds \<le> digits_value (ds @ es)"
proof (induction es rule: rev_induct)
  case (snoc e es)
  have "digits_value (ds @ es @ [e]) = 10 * digits_value (ds @ es) + digit_value e"
    using digits_value_snoc [of "ds @ es" e] by simp
  with snoc show ?case by simp
qed simp

lemma digit_value_le: "isdigit c \<Longrightarrow> digit_value c \<le> 9"
  by (auto simp: isdigit_def digit_value_def)

lemma content_length_check:
  assumes "isdigit c"
  shows "n > (SIZE_MAX - digit_value c) div 10 \<longleftrightarrow> 10 * n + digit_value c > SIZE_MAX"
proof -
  have "d \<le> 9 \<Longrightarrow> n > (18446744073709551615 - d) div 10 \<longleftrightarrow> 10 * n + d > 18446744073709551615" for d :: nat
    by linarith
  then show ?thesis using digit_value_le [OF assms] by (simp add: SIZE_MAX_def)
qed

lemma content_length_loop_Inr:
  "digits_value ds \<le> SIZE_MAX \<Longrightarrow>
   content_length_loop (digits_value ds) cs = Inr n \<longleftrightarrow>
   list_all isdigit cs \<and> n = digits_value (ds @ cs) \<and> n \<le> SIZE_MAX"
proof (induction cs arbitrary: ds)
  case (Cons c cs)
  show ?case
  proof (cases "isdigit c")
    case True
    have v: "digits_value (ds @ [c]) = digits_value ds * 10 + digit_value c" by simp
    show ?thesis
    proof (cases "digits_value (ds @ [c]) > SIZE_MAX")
      case True
      have "digits_value (ds @ [c]) \<le> digits_value ((ds @ [c]) @ cs)" by (rule digits_value_Cons_mono)
      then show ?thesis
        using True \<open>isdigit c\<close> content_length_check [OF \<open>isdigit c\<close>, of "digits_value ds"] by (auto simp: http_error_def)
    next
      case False
      then show ?thesis
        using Cons.IH [of "ds @ [c]"] \<open>isdigit c\<close> content_length_check [OF \<open>isdigit c\<close>, of "digits_value ds"] v
        by (simp add: mult.commute)
    qed
  next
    case False
    then show ?thesis by (simp add: http_error_def)
  qed
qed auto

lemma content_length_loop_fits:
  "content_length_loop 0 cs = Inr n \<longleftrightarrow> list_all isdigit cs \<and> n = digits_value cs \<and> n \<le> SIZE_MAX"
  using content_length_loop_Inr [of "[]" cs n] by (simp add: digits_value_def)

section \<open>What a parsed request is\<close>

text \<open>The invariant of the request structure while it is filled in.\<close>

definition request_fits :: "http_request \<Rightarrow> bool" where
  "request_fits rq \<longleftrightarrow> length (rq_method rq) < 16 \<and> length (rq_path rq) < 128 \<and> length (rq_version rq) < 16 \<and>
     length (rq_content_type rq) < 64 \<and> length (rq_debug_sleep_ms rq) < 16 \<and>
     rq_content_length rq \<le> SIZE_MAX \<and>
     NUL \<notin> set (rq_method rq @ rq_path rq @ rq_version rq @ rq_content_type rq @ rq_debug_sleep_ms rq)"

definition request_line_ok :: "http_request \<Rightarrow> bool" where
  "request_line_ok rq \<longleftrightarrow> char_at (rq_path rq) 0 = CHR ''/'' \<and> rq_version rq \<in> {''HTTP/1.1'', ''HTTP/1.0''}"

lemma length_c_str_le: "length (c_str s) \<le> length s"
  by (simp add: c_str_def length_takeWhile_le)

lemma http_copy_span_Inr:
  "http_copy_span n span name = Inr t \<longleftrightarrow> span \<noteq> [] \<and> length span < n \<and> t = c_str span"
  by (auto simp: http_copy_span_def http_error_def)

lemma http_copy_span_fits:
  "http_copy_span n span name = Inr t \<Longrightarrow> length t < n \<and> NUL \<notin> set t"
  using length_c_str_le [of span] by (auto simp: http_copy_span_Inr)

lemma request_zero_fits: "request_fits http_request_zero"
  by (simp add: request_fits_def http_request_zero_def)

lemma http_parse_request_line_fits:
  "http_parse_request_line line rq = Inr rq' \<Longrightarrow> request_fits rq \<Longrightarrow> request_fits rq' \<and> request_line_ok rq'"
  by (auto simp: http_parse_request_line_def sbind_Inr_iff http_error_def request_fits_def request_line_ok_def
      dest!: http_copy_span_fits split: option.splits if_splits)

lemma http_header_field_keeps:
  assumes "http_header_field name v seen rq = Inr (seen', rq')" "request_fits rq"
  shows "request_fits rq' \<and> rq_method rq' = rq_method rq \<and> rq_path rq' = rq_path rq \<and>
    rq_version rq' = rq_version rq \<and> rq_body rq' = rq_body rq"
  using assms
  by (auto simp: http_header_field_def http_parse_content_length_def sbind_Inr_iff http_error_def request_fits_def
      content_length_loop_fits Let_def dest!: http_copy_span_fits split: if_splits)

lemma http_header_line_field:
  "http_header_line line seen rq = Inr r \<Longrightarrow> \<exists>name v. http_header_field name v seen rq = Inr r"
  by (fastforce simp: http_header_line_def http_error_def Let_def split: option.splits if_splits)

lemma http_headers_loop_keeps:
  "http_headers_loop hs seen rq = Inr rq' \<Longrightarrow> request_fits rq \<Longrightarrow>
   request_fits rq' \<and> rq_method rq' = rq_method rq \<and> rq_path rq' = rq_path rq \<and>
   rq_version rq' = rq_version rq \<and> rq_body rq' = rq_body rq"
proof (induction hs seen rq arbitrary: rq' rule: http_headers_loop.induct)
  case (1 hs seen rq)
  show ?case
  proof (cases "hs = []")
    case True
    with "1.prems" show ?thesis by (simp add: http_headers_loop.simps [of "[]"])
  next
    case False
    then obtain n where n: "http_find_crlf hs = Some n"
      using "1.prems"(1) by (auto simp: http_headers_loop.simps [of hs] http_error_def split: option.splits)
    show ?thesis
    proof (cases "n = 0")
      case True
      then have "http_headers_loop (drop 2 hs) seen rq = Inr rq'"
        using "1.prems"(1) False n by (subst (asm) http_headers_loop.simps) simp
      from "1.IH"(1) [OF False n True this "1.prems"(2)] show ?thesis .
    next
      case neq: False
      from "1.prems"(1) False n neq obtain seen1 rq1 where
        line: "http_header_line (take n hs) seen rq = Inr (seen1, rq1)" and
        rec: "http_headers_loop (drop (n + 2) hs) seen1 rq1 = Inr rq'"
        by (auto simp: http_headers_loop.simps [of hs] split: sum.splits)
      obtain name v where "http_header_field name v seen rq = Inr (seen1, rq1)"
        using http_header_line_field [OF line] by blast
      from http_header_field_keeps [OF this "1.prems"(2)] "1.IH"(2) [OF False n neq line refl rec]
      show ?thesis by simp
    qed
  qed
qed

lemma http_parse_head_fits:
  assumes "http_parse_head s = Inr (n, rq)"
  shows "request_fits rq" "request_line_ok rq"
proof -
  from assms obtain line rq0 hs where "http_parse_request_line line http_request_zero = Inr rq0"
    "http_parse_headers hs rq0 = Inr rq"
    by (auto simp: http_parse_head_def sbind_Inr_iff http_error_def split: option.splits)
  with http_parse_request_line_fits [OF _ request_zero_fits] http_headers_loop_keeps
  show "request_fits rq" "request_line_ok rq"
    by (fastforce simp: http_parse_headers_def request_line_ok_def)+
qed

section \<open>Framing\<close>

definition effective_max :: "nat \<Rightarrow> nat" where
  "effective_max m = (if m = 0 then HTTP_DEFAULT_MAX_REQUEST_BYTES else m)"

lemma probe_complete:
  assumes "http_request_probe buffer m = (HTTP_PROBE_COMPLETE, n, e)"
  obtains h rq where "http_parse_head buffer = Inr (h, rq)" "n = h + rq_content_length rq"
    "n \<le> length buffer" "length buffer \<le> effective_max m" "h \<le> SIZE_MAX - rq_content_length rq" "n \<le> effective_max m"
  using assms
  by (auto simp: http_request_probe_def http_extract_head_metadata_def effective_max_def Let_def
      split: if_splits sum.splits prod.splits)
    (auto simp: sbind_Inr_iff)

lemma probe_prefix:
  assumes "http_request_probe buffer m = (HTTP_PROBE_COMPLETE, n, e)"
  shows "\<exists>r. http_request_probe (take k buffer) m = (if k < n then HTTP_PROBE_INCOMPLETE else HTTP_PROBE_COMPLETE, r, []) \<and>
    r \<le> n \<and> (n \<le> k \<longrightarrow> r = n) \<and> e = [] \<and> n \<le> length buffer \<and> length buffer \<le> effective_max m"
proof -
  obtain h rq where p: "http_parse_head buffer = Inr (h, rq)" "n = h + rq_content_length rq"
    "n \<le> length buffer" "length buffer \<le> effective_max m" "h \<le> SIZE_MAX - rq_content_length rq" "n \<le> effective_max m"
    using probe_complete [OF assms] by blast
  have e: "e = []"
    using assms by (auto simp: http_request_probe_def Let_def split: if_splits sum.splits prod.splits)
  have h: "http_find_header_end buffer = Some h" by (rule http_parse_head_length [OF p(1)])
  have short: "length (take k buffer) \<le> effective_max m" using p(4) by simp
  show ?thesis
  proof (cases "h \<le> k")
    case True
    have "http_request_probe (take k buffer) m =
        (if k < n then HTTP_PROBE_INCOMPLETE else HTTP_PROBE_COMPLETE, n, [])"
      using short p(2,3,5,6) http_parse_head_take [OF h True] p(1) http_find_header_end_take [OF h, of k] True
      by (auto simp: http_request_probe_def http_extract_head_metadata_def Let_def effective_max_def split: if_splits)
    then show ?thesis using e p(3,4) by simp
  next
    case False
    have "http_request_probe (take k buffer) m = (HTTP_PROBE_INCOMPLETE, 0, [])"
      using short http_find_header_end_take [OF h, of k] False
      by (auto simp: http_request_probe_def Let_def effective_max_def split: if_splits)
    then show ?thesis using False p(2-4) e by simp
  qed
qed

lemma parse_framed:
  assumes "http_request_probe buffer m = (HTTP_PROBE_COMPLETE, n, e)"
  shows "is_ok (http_parse_request (take n buffer))"
proof -
  obtain h rq where p: "http_parse_head buffer = Inr (h, rq)" "n = h + rq_content_length rq" "n \<le> length buffer"
    using probe_complete [OF assms] by blast
  with http_parse_head_take [OF http_parse_head_length [OF p(1)], of n] show ?thesis
    by (simp add: http_parse_request_def)
qed

section \<open>Heads made of lines\<close>

text \<open>Lines without carriage returns, each ended by CRLF: the head ends at the first empty line.\<close>

definition head_line :: "string \<Rightarrow> bool" where
  "head_line l \<longleftrightarrow> l \<noteq> [] \<and> CR \<notin> set l"

lemma CR_LF: "CR \<noteq> LF"
  by simp

lemma find_first_skip:
  assumes "CR \<notin> set l" "pat \<noteq> []" "hd pat = CR"
  shows "find_first pat (l @ s) = map_option ((+) (length l)) (find_first pat s)"
  using assms
proof (induction l)
  case Nil
  then show ?case by (cases "find_first pat s") simp_all
next
  case (Cons c l)
  then have "\<not> starts_with pat (c # l @ s)" by (auto simp: starts_with_append neq_Nil_conv)
  with Cons show ?case by (simp add: option.map_comp comp_def)
qed

lemma http_find_crlf_line: "CR \<notin> set l \<Longrightarrow> http_find_crlf (l @ CRLF @ s) = Some (length l)"
  by (simp add: http_find_crlf_def find_first_skip CRLF_def starts_with_def)

lemma find_header_lines:
  assumes "\<forall>l \<in> set ls. head_line l" "ls \<noteq> []"
  shows "find_first (CRLF @ CRLF) (concat (map (\<lambda>l. l @ CRLF) ls) @ CRLF @ body) =
    Some (length (concat (map (\<lambda>l. l @ CRLF) ls)) - 2)"
  using assms
proof (induction ls)
  case (Cons l ls)
  have l: "l \<noteq> []" "CR \<notin> set l" using Cons.prems by (simp_all add: head_line_def)
  let ?rest = "concat (map (\<lambda>l. l @ CRLF) ls) @ CRLF @ body"
  have skip: "find_first (CRLF @ CRLF) (l @ CRLF @ ?rest) = map_option ((+) (length l)) (find_first (CRLF @ CRLF) (CRLF @ ?rest))"
    by (rule find_first_skip [OF l(2)]) (simp_all add: CRLF_def)
  show ?case
  proof (cases ls)
    case Nil
    then show ?thesis using skip by (simp add: CRLF_def starts_with_def)
  next
    case (Cons k ks)
    then obtain c cs where k: "k = c # cs" "c \<noteq> CR" using Cons.prems by (cases k) (auto simp: head_line_def)
    have two: "length (concat (map (\<lambda>l. l @ CRLF) ls)) \<ge> 2" using Cons by (simp add: CRLF_def)
    have "find_first (CRLF @ CRLF) (CRLF @ ?rest) = map_option Suc (map_option Suc (find_first (CRLF @ CRLF) ?rest))"
      using Cons k by (simp add: CRLF_def starts_with_def)
    then show ?thesis using skip Cons.IH Cons.prems Cons two by (simp add: CRLF_def)
  qed
qed simp

lemma http_find_header_end_lines:
  assumes "\<forall>l \<in> set ls. head_line l" "ls \<noteq> []"
  shows "http_find_header_end (concat (map (\<lambda>l. l @ CRLF) ls) @ CRLF @ body) =
    Some (length (concat (map (\<lambda>l. l @ CRLF) ls)) + 2)"
proof -
  have "length (concat (map (\<lambda>l. l @ CRLF) ls)) \<ge> 2" using assms(2) by (cases ls) (simp_all add: CRLF_def)
  then show ?thesis using find_header_lines [OF assms, of body] by (simp add: http_find_header_end_def)
qed

lemma take_head: "take (length xs + 2) (xs @ CRLF @ ys) = xs @ CRLF"
  by (simp add: CRLF_def)

lemma drop_head: "drop (length xs + 2) (xs @ CRLF @ ys) = ys"
  by (simp add: CRLF_def)

lemma http_parse_head_lines:
  assumes "\<forall>l \<in> set (l # ls). head_line l"
  shows "http_parse_head (concat (map (\<lambda>l. l @ CRLF) (l # ls)) @ CRLF @ body) =
    sbind (http_parse_request_line l http_request_zero) (\<lambda>rq.
    sbind (http_parse_headers (concat (map (\<lambda>l. l @ CRLF) ls)) rq) (\<lambda>rq'.
    Inr (length (concat (map (\<lambda>l. l @ CRLF) (l # ls))) + 2, rq')))"
proof -
  let ?hs = "concat (map (\<lambda>l. l @ CRLF) (l # ls))" and ?tail = "concat (map (\<lambda>l. l @ CRLF) ls)"
  let ?r = "?hs @ CRLF @ body"
  have h: "http_find_header_end ?r = Some (length ?hs + 2)" by (rule http_find_header_end_lines [OF assms]) simp
  have "take (length ?hs + 2) ?r = ?hs @ CRLF" by (rule take_head)
  then have "take (length ?hs + 2) ?r = l @ CRLF @ ?tail @ CRLF" by simp
  then have c: "http_find_crlf (take (length ?hs + 2) ?r) = Some (length l)"
    using http_find_crlf_line [of l "?tail @ CRLF"] assms by (simp add: head_line_def)
  have l: "take (length l) ?r = l" by simp
  have "take (length ?hs + 2 - 2) ?r = ?hs" by simp
  then have t: "drop (length l + 2) (take (length ?hs + 2 - 2) ?r) = ?tail" by (simp only:) (simp add: CRLF_def)
  show ?thesis unfolding http_parse_head_def h option.case c l t ..
qed

section \<open>Requests as a client writes them\<close>

text \<open>
  A request with a body, as the documentation shows it, and the conditions under which its parts
  are the tokens of the grammar.
\<close>

definition render_request :: "string \<Rightarrow> string \<Rightarrow> string \<Rightarrow> string \<Rightarrow> string" where
  "render_request meth path content_type body =
     concat (map (\<lambda>l. l @ CRLF) [meth @ '' '' @ path @ '' HTTP/1.1'', ''Content-Type: '' @ content_type,
       ''Content-Length: '' @ show_nat (length body)]) @ CRLF @ body"

definition token_ok :: "nat \<Rightarrow> string \<Rightarrow> bool" where
  "token_ok n t \<longleftrightarrow> t \<noteq> [] \<and> length t < n \<and> CR \<notin> set t \<and> NUL \<notin> set t \<and> SPC \<notin> set t"

definition header_value_ok :: "nat \<Rightarrow> string \<Rightarrow> bool" where
  "header_value_ok n v \<longleftrightarrow> v \<noteq> [] \<and> length v < n \<and> CR \<notin> set v \<and> NUL \<notin> set v \<and>
     \<not> isspace (hd v) \<and> \<not> isspace (last v)"

lemma http_trim_span_eq: "http_trim_span = trim_whitespace"
  by (simp add: http_trim_span_def trim_whitespace_def fun_eq_iff)

lemma memchr_split: "c \<notin> set xs \<Longrightarrow> memchr c (xs @ c # ys) = Some (xs, ys)"
  by (simp add: memchr_def takeWhile_append dropWhile_append)

lemma memchr_None [simp]: "c \<notin> set xs \<Longrightarrow> memchr c xs = None"
  by (simp add: memchr_def)

lemma parse_rendered_line:
  assumes "token_ok 16 meth" "token_ok 128 path" "hd path = CHR ''/''"
  shows "http_parse_request_line (meth @ '' '' @ path @ '' HTTP/1.1'') rq =
    Inr (rq\<lparr>rq_method := meth, rq_path := path, rq_version := ''HTTP/1.1''\<rparr>)"
proof -
  have "memchr SPC (meth @ '' '' @ path @ '' HTTP/1.1'') = Some (meth, path @ '' HTTP/1.1'')"
    "memchr SPC (path @ '' HTTP/1.1'') = Some (path, ''HTTP/1.1'')"
    using memchr_split [of SPC meth "path @ '' HTTP/1.1''"] memchr_split [of SPC path "''HTTP/1.1''"] assms
    by (simp_all add: token_ok_def)
  moreover have "memchr SPC ''HTTP/1.1'' = None" by simp
  moreover have "http_copy_span 16 meth ''HTTP method'' = Inr meth" "http_copy_span 128 path ''request path'' = Inr path"
    using assms by (simp_all add: http_copy_span_Inr token_ok_def c_str_id)
  moreover have "http_copy_span 16 ''HTTP/1.1'' ''HTTP version'' = Inr ''HTTP/1.1''" by code_simp
  moreover have "char_at path 0 = CHR ''/''" using assms by (simp add: char_at_def hd_conv_nth token_ok_def)
  ultimately show ?thesis by (simp add: http_parse_request_line_def)
qed

lemma header_line_split:
  assumes "CHR '':'' \<notin> set name" "name \<noteq> []" "\<not> isspace (hd name)" "\<not> isspace (last name)"
    and "v = [] \<or> \<not> isspace (hd v) \<and> \<not> isspace (last v)"
  shows "http_header_line (name @ '': '' @ v) seen rq = http_header_field name v seen rq"
proof -
  have "memchr (CHR '':'') (name @ '': '' @ v) = Some (name, SPC # v)"
    using memchr_split [OF assms(1), of "SPC # v"] by simp
  moreover have "http_trim_span (SPC # v) = v" "http_trim_span name = name"
    using trim_whitespace_id [of v] trim_whitespace_id [of name] assms
    by (simp_all add: http_trim_span_eq trim_whitespace_def isspace_def byte_def)
  ultimately show ?thesis using assms(2) by (simp add: http_header_line_def)
qed

lemma headers_loop_line:
  assumes "head_line l" "http_header_line l seen rq = Inr (seen', rq')"
  shows "http_headers_loop (l @ CRLF @ rest) seen rq = http_headers_loop rest seen' rq'"
  using assms http_find_crlf_line [of l rest]
  by (subst http_headers_loop.simps) (simp add: head_line_def CRLF_def)

lemma header_names:
  "http_ascii_equals_ignore_case ''Content-Type'' ''Content-Length'' = False"
  "http_ascii_equals_ignore_case ''Content-Type'' ''Content-Type'' = True"
  "http_ascii_equals_ignore_case ''Content-Length'' ''Content-Length'' = True"
  by code_simp+

lemma field_content_type:
  assumes "header_value_ok 64 v"
  shows "http_header_line (''Content-Type: '' @ v) nothing_seen rq =
    Inr (nothing_seen\<lparr>saw_content_type := True\<rparr>, rq\<lparr>rq_content_type := v\<rparr>)"
proof -
  have "http_header_line (''Content-Type'' @ '': '' @ v) nothing_seen rq = http_header_field ''Content-Type'' v nothing_seen rq"
    using assms by (intro header_line_split) (simp_all add: header_value_ok_def ctype_defs)
  moreover have "http_copy_span 64 v ''Content-Type'' = Inr v"
    using assms by (simp add: http_copy_span_Inr header_value_ok_def c_str_id)
  ultimately show ?thesis
    using assms header_names by (simp add: http_header_field_def nothing_seen_def header_value_ok_def)
qed

lemma show_nat_trimmed: "\<not> isspace (hd (show_nat n)) \<and> \<not> isspace (last (show_nat n))"
  using show_nat_digits [of "hd (show_nat n)" n] show_nat_digits [of "last (show_nat n)" n] isdigit_not_isspace by simp

lemma parse_content_length_show:
  "n \<le> SIZE_MAX \<Longrightarrow> http_parse_content_length (show_nat n) = Inr n"
  using trim_whitespace_id [of "show_nat n"] show_nat_trimmed [of n] show_nat_digits
  by (simp add: http_parse_content_length_def http_trim_span_eq content_length_loop_fits list_all_iff)

lemma field_content_length:
  assumes "n \<le> SIZE_MAX" "\<not> saw_content_length seen"
  shows "http_header_line (''Content-Length: '' @ show_nat n) seen rq =
    Inr (seen\<lparr>saw_content_length := True\<rparr>, rq\<lparr>rq_content_length := n\<rparr>)"
proof -
  have "http_header_line (''Content-Length'' @ '': '' @ show_nat n) seen rq = http_header_field ''Content-Length'' (show_nat n) seen rq"
    using show_nat_trimmed [of n] by (intro header_line_split) (simp_all add: ctype_defs)
  then show ?thesis using assms header_names by (simp add: http_header_field_def parse_content_length_show)
qed

definition rendered :: "string \<Rightarrow> string \<Rightarrow> string \<Rightarrow> string \<Rightarrow> http_request" where
  "rendered meth path content_type body =
     \<lparr>rq_method = meth, rq_path = path, rq_version = ''HTTP/1.1'', rq_content_type = content_type,
      rq_debug_sleep_ms = [], rq_debug_sleep_ms_present = False, rq_content_length = length body, rq_body = Some body\<rparr>"

definition renderable :: "string \<Rightarrow> string \<Rightarrow> string \<Rightarrow> string \<Rightarrow> bool" where
  "renderable meth path content_type body \<longleftrightarrow> token_ok 16 meth \<and> token_ok 128 path \<and> hd path = CHR ''/'' \<and>
     header_value_ok 64 content_type \<and> length body \<le> SIZE_MAX"

lemma parse_head_rendered:
  assumes "renderable meth path ct body"
  shows "http_parse_head (render_request meth path ct body) =
    Inr (length (render_request meth path ct body) - length body, (rendered meth path ct body)\<lparr>rq_body := None\<rparr>)"
proof -
  let ?l1 = "meth @ '' '' @ path @ '' HTTP/1.1''" and ?l2 = "''Content-Type: '' @ ct"
    and ?l3 = "''Content-Length: '' @ show_nat (length body)"
  let ?hs = "concat (map (\<lambda>l. l @ CRLF) [?l1, ?l2, ?l3])" and ?r = "render_request meth path ct body"
  have "CR \<notin> set (show_nat (length body))" using show_nat_digits [of CR "length body"] by (auto simp: ctype_defs)
  then have lines: "\<forall>l \<in> set [?l1, ?l2, ?l3]. head_line l"
    using assms by (simp add: renderable_def token_ok_def header_value_ok_def head_line_def)
  have r: "?r = ?hs @ CRLF @ body" by (simp only: render_request_def)
  have len: "length ?hs + 2 = length ?r - length body" by (simp add: r CRLF_def)
  have "http_headers_loop (?l2 @ CRLF @ (?l3 @ CRLF @ [])) nothing_seen rq =
      http_headers_loop (?l3 @ CRLF @ []) (nothing_seen\<lparr>saw_content_type := True\<rparr>) (rq\<lparr>rq_content_type := ct\<rparr>)" for rq
    using lines assms by (intro headers_loop_line field_content_type) (simp_all add: renderable_def)
  moreover have "http_headers_loop (?l3 @ CRLF @ []) (nothing_seen\<lparr>saw_content_type := True\<rparr>) rq =
      http_headers_loop [] (nothing_seen\<lparr>saw_content_type := True, saw_content_length := True\<rparr>)
        (rq\<lparr>rq_content_length := length body\<rparr>)" for rq
    using lines assms by (intro headers_loop_line field_content_length) (simp_all add: renderable_def nothing_seen_def)
  ultimately have "http_headers_loop (?l2 @ CRLF @ ?l3 @ CRLF @ []) nothing_seen rq =
      Inr (rq\<lparr>rq_content_type := ct, rq_content_length := length body\<rparr>)" for rq
    by (simp only: http_headers_loop.simps [of "[]"] simp_thms if_True)
  then have hs: "http_parse_headers (concat (map (\<lambda>l. l @ CRLF) [?l2, ?l3])) rq =
      Inr (rq\<lparr>rq_content_type := ct, rq_content_length := length body\<rparr>)" for rq
    by (simp add: http_parse_headers_def)
  have line: "http_parse_request_line ?l1 http_request_zero =
      Inr (http_request_zero\<lparr>rq_method := meth, rq_path := path, rq_version := ''HTTP/1.1''\<rparr>)"
    using assms by (intro parse_rendered_line) (simp_all add: renderable_def)
  show ?thesis
    unfolding r http_parse_head_lines [OF lines] line sbind.simps hs
    by (simp add: rendered_def http_request_zero_def CRLF_def)
qed

lemma parse_rendered:
  assumes "renderable meth path ct body"
  shows "http_parse_request (render_request meth path ct body) = Inr (rendered meth path ct body)"
proof -
  let ?r = "render_request meth path ct body"
  obtain xs where "?r = xs @ body" unfolding render_request_def by (metis append.assoc)
  then have "drop (length ?r - length body) ?r = body" "length body \<le> length ?r" by simp_all
  then show ?thesis using parse_head_rendered [OF assms] by (simp add: http_parse_request_def rendered_def)
qed

lemma probe_rendered:
  assumes "renderable meth path ct body" "length (render_request meth path ct body) \<le> effective_max m" "effective_max m \<le> SIZE_MAX"
  shows "http_request_probe (render_request meth path ct body) m =
    (HTTP_PROBE_COMPLETE, length (render_request meth path ct body), [])"
proof -
  let ?r = "render_request meth path ct body"
  have len: "length body \<le> length ?r" by (simp add: render_request_def)
  have "http_find_header_end ?r \<noteq> None" using http_parse_head_length [OF parse_head_rendered [OF assms(1)]] by simp
  then show ?thesis
    using parse_head_rendered [OF assms(1)] assms(2,3) len
    by (auto simp: http_request_probe_def http_extract_head_metadata_def rendered_def Let_def effective_max_def
        split: if_splits)
qed

section \<open>JSON strings\<close>

text \<open>
  A reference decoder for the characters between the quotes of a JSON string. It rejects raw
  quotes and control characters; of the escapes of code points it decodes those below 256.
\<close>

definition hex_value :: "char \<Rightarrow> nat option" where
  "hex_value c = (if isdigit c then Some (byte c - 48)
     else if 97 \<le> byte c \<and> byte c \<le> 102 then Some (byte c - 87)
     else if 65 \<le> byte c \<and> byte c \<le> 70 then Some (byte c - 55) else None)"

definition simple_escape :: "char \<Rightarrow> char option" where
  "simple_escape e = map_of [(DQUOTE, DQUOTE), (BACKSLASH, BACKSLASH), (CHR ''/'', CHR ''/''), (CHR ''b'', CHR 0x08),
     (CHR ''f'', CHR 0x0C), (CHR ''n'', LF), (CHR ''r'', CR), (CHR ''t'', TAB)] e"

definition code_escape :: "string \<Rightarrow> char option" where
  "code_escape ds = (case ds of
       [a, b, c, d] \<Rightarrow> (if a = CHR ''0'' \<and> b = CHR ''0'' then
          (case (hex_value c, hex_value d) of (Some x, Some y) \<Rightarrow> Some (char_of (16 * x + y)) | _ \<Rightarrow> None) else None)
     | _ \<Rightarrow> None)"

function json_decode :: "string \<Rightarrow> string option" where
  "json_decode [] = Some []"
| "json_decode (c # cs) =
     (if c = BACKSLASH then
        (case cs of
           [] \<Rightarrow> None
         | e # rest \<Rightarrow>
             if e = CHR ''u'' then
               (case code_escape (take 4 rest) of
                  None \<Rightarrow> None | Some x \<Rightarrow> map_option ((#) x) (json_decode (drop 4 rest)))
             else (case simple_escape e of
                  None \<Rightarrow> None | Some x \<Rightarrow> map_option ((#) x) (json_decode rest)))
      else if c = DQUOTE \<or> byte c < 32 then None
      else map_option ((#) c) (json_decode cs))"
  by pat_completeness auto
termination
  by (relation "measure length") auto

lemma hex_value_hex_digit: "d < 16 \<Longrightarrow> hex_value (hex_digit d) = Some d"
  by (auto simp: hex_value_def hex_digit_def isdigit_def byte_char_of)

lemma json_decode_escape_char:
  assumes "c \<noteq> NUL"
  shows "json_decode (json_escape_char c @ s) = map_option ((#) c) (json_decode s)"
proof (cases "c \<in> {DQUOTE, BACKSLASH, CHR 0x08, CHR 0x0C, LF, CR, TAB}")
  case True
  then show ?thesis by (auto simp: json_escape_char_def simple_escape_def)
next
  case False
  show ?thesis
  proof (cases "byte c < 32")
    case True
    have "16 * (byte c div 16) + byte c mod 16 = byte c" by simp
    then have "code_escape [CHR ''0'', CHR ''0'', hex_digit (byte c div 16), hex_digit (byte c mod 16)] = Some c"
      using True by (simp add: code_escape_def hex_value_hex_digit)
    with False True show ?thesis by (auto simp: json_escape_char_def)
  next
    case ge: False
    with False show ?thesis by (auto simp: json_escape_char_def)
  qed
qed

lemma json_decode_escape: "NUL \<notin> set s \<Longrightarrow> json_decode (concat (map json_escape_char s)) = Some s"
  by (induction s) (auto simp: json_decode_escape_char simp del: json_decode.simps(2))

section \<open>Properties of the protocol layer\<close>

text \<open>
  C19 (well-formed requests): every request the parser accepts fits the fixed arrays of its structure
  with room for the terminator, has a path that starts with a slash and a supported version, and its
  body is the part of the buffer behind the head, of exactly the announced length.
\<close>

theorem http_parse_request_typed:
  assumes "http_parse_request buffer = Inr rq"
  shows "request_fits rq \<and> request_line_ok rq \<and>
    (\<exists>n body. http_find_header_end buffer = Some n \<and> rq_body rq = Some body \<and>
       length body = rq_content_length rq \<and> body = take (rq_content_length rq) (drop n buffer))"
proof -
  from assms obtain n rq0 where h: "http_parse_head buffer = Inr (n, rq0)"
    and len: "rq_content_length rq0 \<le> length buffer - n"
    and rq: "rq = rq0\<lparr>rq_body := Some (take (rq_content_length rq0) (drop n buffer))\<rparr>"
    by (auto simp: http_parse_request_def sbind_Inr_iff http_error_def split: if_splits)
  have "request_fits rq" "request_line_ok rq"
    using http_parse_head_fits [OF h] rq by (simp_all add: request_fits_def request_line_ok_def)
  with http_parse_head_length [OF h] len rq show ?thesis by simp
qed

theorem http_parse_request_typed_witness:
  "request_fits (rendered ''POST'' ''/query'' ''text/plain'' ''SELECT'') \<and>
   request_line_ok (rendered ''POST'' ''/query'' ''text/plain'' ''SELECT'')"
proof -
  have "renderable ''POST'' ''/query'' ''text/plain'' ''SELECT''"
    by (simp add: renderable_def token_ok_def header_value_ok_def SIZE_MAX_def ctype_defs)
  from http_parse_request_typed [OF parse_rendered [OF this]] show ?thesis by blast
qed

text \<open>
  C20 (framing): once the probe has seen a complete request of \<open>n\<close> bytes, the answer does not depend
  on how the bytes arrived. On every shorter prefix of the buffer the probe asks for more, on every
  prefix that contains the request it reports the same length, and the parser accepts the first \<open>n\<close>
  bytes.
\<close>

theorem http_probe_framing:
  assumes "http_request_probe buffer m = (HTTP_PROBE_COMPLETE, n, e)"
  shows "fst (http_request_probe (take k buffer) m) =
      (if k < n then HTTP_PROBE_INCOMPLETE else HTTP_PROBE_COMPLETE) \<and>
    (n \<le> k \<longrightarrow> http_request_probe (take k buffer) m = (HTTP_PROBE_COMPLETE, n, e)) \<and>
    is_ok (http_parse_request (take n buffer))"
  using probe_prefix [OF assms, of k] parse_framed [OF assms] by auto

theorem http_probe_framing_witness:
  "fst (http_request_probe (take 20 (render_request ''POST'' ''/query'' ''text/plain'' ''SELECT'')) 0) = HTTP_PROBE_INCOMPLETE \<and>
   is_ok (http_parse_request (render_request ''POST'' ''/query'' ''text/plain'' ''SELECT''))"
proof -
  let ?r = "render_request ''POST'' ''/query'' ''text/plain'' ''SELECT''"
  have ok: "renderable ''POST'' ''/query'' ''text/plain'' ''SELECT''"
    by (simp add: renderable_def token_ok_def header_value_ok_def SIZE_MAX_def ctype_defs)
  have len: "20 < length ?r" "length ?r \<le> effective_max 0" "effective_max 0 \<le> SIZE_MAX"
    by (simp_all add: render_request_def CRLF_def effective_max_def HTTP_DEFAULT_MAX_REQUEST_BYTES_def SIZE_MAX_def
        show_nat.simps)
  from http_probe_framing [OF probe_rendered [OF ok len(2,3)], of 20] len(1) show ?thesis by simp
qed

text \<open>
  Content length: the number read from a Content-Length value is that of its decimal digits
  without any wrap-around; the value is accepted exactly when, after trimming, it is a non-empty
  string of digits whose number fits a \<open>size_t\<close>.
\<close>

theorem http_content_length_exact:
  "http_parse_content_length v = Inr n \<longleftrightarrow>
   trim_whitespace v \<noteq> [] \<and> list_all isdigit (trim_whitespace v) \<and>
   n = digits_value (trim_whitespace v) \<and> n \<le> SIZE_MAX"
  by (auto simp: http_parse_content_length_def http_trim_span_eq content_length_loop_fits http_error_def Let_def)

text \<open>
  C21 (requests round trip): a request with a body written in the documented form is accepted by the
  probe as soon as it has arrived, and parsing it gives back its method, path, content type and body.
\<close>

theorem http_request_round_trip:
  assumes "renderable meth path ct body" "length (render_request meth path ct body) \<le> effective_max m"
    and "effective_max m \<le> SIZE_MAX"
  shows "http_request_probe (render_request meth path ct body) m =
      (HTTP_PROBE_COMPLETE, length (render_request meth path ct body), []) \<and>
    http_parse_request (render_request meth path ct body) = Inr (rendered meth path ct body)"
  using probe_rendered [OF assms] parse_rendered [OF assms(1)] by blast

theorem http_request_round_trip_witness:
  "http_parse_request (render_request ''POST'' ''/query'' ''text/plain'' ''SELECT'') =
   Inr (rendered ''POST'' ''/query'' ''text/plain'' ''SELECT'')"
proof -
  have ok: "renderable ''POST'' ''/query'' ''text/plain'' ''SELECT''"
    by (simp add: renderable_def token_ok_def header_value_ok_def SIZE_MAX_def ctype_defs)
  have "length (render_request ''POST'' ''/query'' ''text/plain'' ''SELECT'') \<le> effective_max 0" "effective_max 0 \<le> SIZE_MAX"
    by (simp_all add: render_request_def CRLF_def effective_max_def HTTP_DEFAULT_MAX_REQUEST_BYTES_def SIZE_MAX_def
        show_nat.simps)
  from http_request_round_trip [OF ok this] show ?thesis by blast
qed

text \<open>
  C22 (JSON strings): a JSON decoder reads every string the server escapes back as the original
  C string, whatever quotes, backslashes or control characters it holds.
\<close>

theorem http_json_escape_round_trip:
  "json_decode (http_json_escape (Some s)) = Some (c_str s)"
  by (simp add: http_json_escape_def json_decode_escape)

text \<open>
  Responses are framed: whatever the status and the body, the first empty line of a response
  ends its head, what follows is exactly the body, and the head announces the length of the body.
\<close>

theorem http_response_framed:
  assumes "http_wrap_json_response status body = Inr r"
  shows "\<exists>h before after. http_find_header_end r = Some h \<and> drop h r = body \<and>
    take h r = before @ ''Content-Length: '' @ show_nat (length body) @ CRLF @ after"
proof -
  let ?l1 = "''HTTP/1.1 '' @ show_int status @ '' '' @ http_reason_phrase status"
    and ?l2 = "''Content-Type: application/json''" and ?l3 = "''Content-Length: '' @ show_nat (length body)"
    and ?l4 = "''Connection: close''"
  let ?ls = "[?l1, ?l2, ?l3, ?l4]"
  let ?hs = "concat (map (\<lambda>l. l @ CRLF) ?ls)"
  have r: "r = ?hs @ CRLF @ body"
    using assms by (simp add: http_wrap_json_response_def printed_def response_text_def http_error_def split: if_splits)
  have "CR \<notin> set (show_nat n)" for n using show_nat_digits [of CR n] by (auto simp: ctype_defs)
  then have "\<forall>l \<in> set ?ls. head_line l"
    by (simp add: head_line_def show_int_def http_reason_phrase_def)
  then have h: "http_find_header_end r = Some (length ?hs + 2)"
    unfolding r by (intro http_find_header_end_lines) simp_all
  have d: "drop (length ?hs + 2) r = body" unfolding r using drop_head .
  have t: "take (length ?hs + 2) r = ?hs @ CRLF" unfolding r by (rule take_head)
  have "?hs @ CRLF = (?l1 @ CRLF @ ?l2 @ CRLF) @ ''Content-Length: '' @ show_nat (length body) @ CRLF @
      (?l4 @ CRLF @ CRLF)" by simp
  with h d t show ?thesis by metis
qed

theorem http_response_framed_witness:
  "\<exists>h before after. http_find_header_end (response_text 200 ''{}'') = Some h \<and> drop h (response_text 200 ''{}'') = ''{}'' \<and>
    take h (response_text 200 ''{}'') = before @ ''Content-Length: '' @ show_nat (length ''{}'') @ CRLF @ after"
proof -
  have "http_wrap_json_response 200 ''{}'' = Inr (response_text 200 ''{}'')"
    by (simp add: http_wrap_json_response_def printed_def response_text_def CRLF_def INT_MAX_def
        http_reason_phrase_def show_int_def show_nat.simps)
  from http_response_framed [OF this] show ?thesis .
qed

end
