(* ===== verification/Http_Server.thy ===== *)
theory Http_Server
  imports Http_Protocol "HOL-Library.While_Combinator" "HOL-Library.Word"
begin

text \<open>
  The handling of one client connection, \<open>SERVER-HTTP/src/http_server.c\<close>: receiving a request into a
  growing buffer, routing it to the health check or to the query executor, sending the response and
  closing the socket. The peer and the kernel behind \<open>recv\<close> and \<open>send\<close> are scripts, the results of
  the successive calls. When a script is used up, \<open>recv\<close> reports that the peer has closed the
  connection and \<open>send\<close> takes everything. Sleeping for the debug header takes time but changes no
  state. Allocation succeeds.
\<close>

section \<open>The socket of a client\<close>

datatype recv_result = Received string | RecvInterrupted | RecvFailed

datatype send_result = Accepted nat | SendInterrupted | SendFailed

record client =
  cl_recv :: "recv_result list"
  cl_send :: "send_result list"
  cl_sent :: string
  cl_open :: bool

text \<open>\<open>recv\<close> with room for a number of bytes: what does not fit stays in the stream.\<close>

fun socket_recv :: "nat \<Rightarrow> recv_result list \<Rightarrow> recv_result \<times> recv_result list" where
  "socket_recv room [] = (Received [], [])"
| "socket_recv room (Received bytes # script) =
     (Received (take room bytes), if length bytes \<le> room then script else Received (drop room bytes) # script)"
| "socket_recv room (e # script) = (e, script)"

text \<open>The loop of \<open>http_send_all\<close> over the bytes still to send and those the socket has taken.\<close>

fun send_loop :: "string \<Rightarrow> send_result list \<Rightarrow> string \<Rightarrow> bool \<times> send_result list \<times> string" where
  "send_loop rest [] sent = (True, [], sent @ rest)"
| "send_loop rest (e # script) sent =
     (if rest = [] then (True, e # script, sent)
      else case e of
        SendInterrupted \<Rightarrow> send_loop rest script sent
      | SendFailed \<Rightarrow> (False, script, sent)
      | Accepted n \<Rightarrow> if n = 0 then (False, script, sent)
          else send_loop (drop n rest) script (sent @ take n rest))"

definition http_send_all :: "string \<Rightarrow> client \<Rightarrow> bool \<times> client" where
  "http_send_all buffer c =
     (case send_loop buffer (cl_send c) (cl_sent c) of
        (success, script, sent) \<Rightarrow> (success, c\<lparr>cl_send := script, cl_sent := sent\<rparr>))"

definition http_close_client :: "client \<Rightarrow> client" where
  "http_close_client c = c\<lparr>cl_open := False\<rparr>"

section \<open>Traces, request numbers and the log\<close>

record http_request_trace =
  tr_req_id :: "64 word"
  tr_worker_index :: int
  tr_status_code :: int
  tr_content_length :: nat
  tr_method :: string
  tr_path :: string
  tr_debug_sleep_ms :: string

definition http_request_trace_init :: http_request_trace where
  "http_request_trace_init = \<lparr>tr_req_id = 0, tr_worker_index = - 1, tr_status_code = 0, tr_content_length = 0,
     tr_method = [], tr_path = [], tr_debug_sleep_ms = []\<rparr>"

text \<open>The counter of the module and the lines written to standard output.\<close>

record http_globals =
  hg_request_sequence :: "64 word"
  hg_stdout :: "string list"

definition http_next_request_id :: "http_globals \<Rightarrow> 64 word \<times> http_globals" where
  "http_next_request_id g = (hg_request_sequence g + 1, g\<lparr>hg_request_sequence := hg_request_sequence g + 1\<rparr>)"

definition http_trace_set_status :: "http_request_trace option \<Rightarrow> int \<Rightarrow> http_request_trace option" where
  "http_trace_set_status trace status_code = map_option (\<lambda>t. t\<lparr>tr_status_code := status_code\<rparr>) trace"

definition http_trace_set_worker_index :: "http_request_trace option \<Rightarrow> int \<Rightarrow> http_request_trace option" where
  "http_trace_set_worker_index trace worker_index =
     (if worker_index < 0 then trace else map_option (\<lambda>t. t\<lparr>tr_worker_index := worker_index\<rparr>) trace)"

definition http_trace_copy_request :: "http_request_trace option \<Rightarrow> http_request \<Rightarrow> http_request_trace option" where
  "http_trace_copy_request trace request =
     map_option (\<lambda>t. t\<lparr>tr_content_length := rq_content_length request,
       tr_method := snprintf 16 (rq_method request), tr_path := snprintf 128 (rq_path request),
       tr_debug_sleep_ms := (if rq_debug_sleep_ms_present request then snprintf 16 (rq_debug_sleep_ms request) else [])\<rparr>) trace"

definition dash_if_empty :: "string \<Rightarrow> string" where
  "dash_if_empty s = (if s = [] then ''-'' else s)"

text \<open>
  The names of the two events are UTF-8 text in the source; the line is given by its parts. The
  worker index of the calling thread is an argument.
\<close>

definition http_log_request_event ::
    "int \<Rightarrow> 64 word \<Rightarrow> string \<Rightarrow> http_request option \<Rightarrow> http_request_trace option \<Rightarrow> int \<Rightarrow> http_globals \<Rightarrow> http_globals" where
  "http_log_request_event current_worker req_id event request trace status_code g =
     (let meth = (case request of None \<Rightarrow> ''-'' | Some r \<Rightarrow> dash_if_empty (rq_method r));
          path = (case request of None \<Rightarrow> ''-'' | Some r \<Rightarrow> dash_if_empty (rq_path r));
          debug_sleep_ms = (case request of None \<Rightarrow> ''-''
            | Some r \<Rightarrow> if rq_debug_sleep_ms_present r then dash_if_empty (rq_debug_sleep_ms r) else ''-'');
          content_length = (case request of None \<Rightarrow> 0 | Some r \<Rightarrow> rq_content_length r);
          worker_index = (case trace of None \<Rightarrow> current_worker
            | Some t \<Rightarrow> if tr_worker_index t \<ge> 0 then tr_worker_index t else - 1);
          status_text = (if status_code > 0 then snprintf 16 (show_int status_code) else ''-'');
          worker_text = (if worker_index \<ge> 0 then snprintf 16 (show_int worker_index) else ''-'')
      in g\<lparr>hg_stdout := hg_stdout g @
           [''[HTTP] | req_id='' @ show_nat (unat req_id) @ '' | event='' @ event @ '' | thread='' @ worker_text @
            '' | method='' @ meth @ '' | path='' @ path @ '' | status='' @ status_text @
            '' | bytes='' @ show_nat content_length @ '' | debug_sleep_ms='' @ debug_sleep_ms @ '' |'' @ [LF]]\<rparr>)"

definition EVENT_RECEIVED :: string where
  "EVENT_RECEIVED = map char_of [0xEC, 0x9A, 0x94, 0xEC, 0xB2, 0xAD, 0x20, 0xEC, 0x88, 0x98, 0xEC, 0x8B, 0xA0 :: nat]"

definition EVENT_ANSWERED :: string where
  "EVENT_ANSWERED = map char_of [0xEC, 0x9D, 0x91, 0xEB, 0x8B, 0xB5, 0x20, 0xEC, 0x99, 0x84, 0xEB, 0xA3, 0x8C :: nat]"

section \<open>Checks on a request\<close>

definition http_text_is_blank :: "string option \<Rightarrow> bool" where
  "http_text_is_blank body = (case body of None \<Rightarrow> True | Some s \<Rightarrow> list_all isspace (c_str s))"

definition HTTP_DEBUG_SLEEP_MAX_MS :: nat where
  "HTTP_DEBUG_SLEEP_MAX_MS = 10000"

fun debug_sleep_loop :: "nat \<Rightarrow> string \<Rightarrow> nat outcome" where
  "debug_sleep_loop parsed_value [] = Inr parsed_value"
| "debug_sleep_loop parsed_value (c # cs) =
     (if \<not> isdigit c then
        http_error (''X-Debug-Sleep-Ms must be an integer between 0 and '' @ show_nat HTTP_DEBUG_SLEEP_MAX_MS)
      else if parsed_value > (HTTP_DEBUG_SLEEP_MAX_MS - digit_value c) div 10 then
        http_error (''X-Debug-Sleep-Ms must be between 0 and '' @ show_nat HTTP_DEBUG_SLEEP_MAX_MS @ '' milliseconds'')
      else debug_sleep_loop (parsed_value * 10 + digit_value c) cs)"

definition http_parse_debug_sleep_ms :: "http_request \<Rightarrow> nat outcome" where
  "http_parse_debug_sleep_ms request =
     (if \<not> rq_debug_sleep_ms_present request then Inr 0
      else if rq_debug_sleep_ms request = [] then
        http_error (''X-Debug-Sleep-Ms must be an integer between 0 and '' @ show_nat HTTP_DEBUG_SLEEP_MAX_MS)
      else debug_sleep_loop 0 (rq_debug_sleep_ms request))"

section \<open>Routing\<close>

record http_query_result =
  qr_ok :: bool
  qr_affected_rows :: int
  qr_message :: "string option"
  qr_output_text :: "string option"

text \<open>
  The executor callback works on a state of its own. It fails with a message or fills a result; the
  outer \<open>None\<close> is a run that leaves the bounds of an array. Its companion that frees the strings of
  the result has no visible effect.
\<close>

type_synonym 's query_executor = "string \<Rightarrow> 's \<Rightarrow> (string + http_query_result) option \<times> 's"

definition http_write_error_response :: "int \<Rightarrow> string \<Rightarrow> string \<Rightarrow> string \<Rightarrow> client \<Rightarrow> bool \<times> client" where
  "http_write_error_response status_code path error_code message c =
     (case http_build_error_response status_code (Some path) (Some error_code) (Some message) of
        Inl _ \<Rightarrow> (False, c)
      | Inr text \<Rightarrow> http_send_all text c)"

definition http_write_health_response :: "client \<Rightarrow> bool \<times> client" where
  "http_write_health_response c =
     (case http_build_health_response of Inl _ \<Rightarrow> (False, c) | Inr text \<Rightarrow> http_send_all text c)"

definition http_write_query_response ::
    "bool \<Rightarrow> int \<Rightarrow> string \<Rightarrow> string option \<Rightarrow> string \<Rightarrow> int \<Rightarrow> string option \<Rightarrow> client \<Rightarrow> bool \<times> client" where
  "http_write_query_response ok status_code path error_code message affected_rows output_text c =
     (case http_build_query_response ok status_code (Some path) error_code (Some message) affected_rows output_text of
        Inl _ \<Rightarrow> (False, c)
      | Inr text \<Rightarrow> http_send_all text c)"

text \<open>
  The result of a routed request: whether the response was sent, its status, and the client.
\<close>

definition http_return_error_response ::
    "int \<Rightarrow> string \<Rightarrow> string \<Rightarrow> string \<Rightarrow> client \<Rightarrow> bool \<times> int \<times> client" where
  "http_return_error_response status_code path error_code message c =
     (case http_write_error_response status_code path error_code message c of (sent, c') \<Rightarrow> (sent, status_code, c'))"

definition http_return_health_response :: "client \<Rightarrow> bool \<times> int \<times> client" where
  "http_return_health_response c = (case http_write_health_response c of (sent, c') \<Rightarrow> (sent, 200, c'))"

definition http_return_query_response ::
    "bool \<Rightarrow> int \<Rightarrow> string \<Rightarrow> string option \<Rightarrow> string \<Rightarrow> int \<Rightarrow> string option \<Rightarrow> client \<Rightarrow> bool \<times> int \<times> client" where
  "http_return_query_response ok status_code path error_code message affected_rows output_text c =
     (case http_write_query_response ok status_code path error_code message affected_rows output_text c of
        (sent, c') \<Rightarrow> (sent, status_code, c'))"

definition http_route_request ::
    "'s query_executor option \<Rightarrow> http_request \<Rightarrow> client \<Rightarrow> 's \<Rightarrow> (bool \<times> int \<times> client) option \<times> 's" where
  "http_route_request execute_query request c st =
     (let path = rq_path request;
          answer = (\<lambda>status code message. (Some (http_return_error_response status path code message c), st))
      in if path = ''/health'' then
        (if rq_method request \<noteq> ''GET'' then answer 405 ''method_not_allowed'' ''GET is required for /health''
         else if rq_content_length request \<noteq> 0 then answer 400 ''invalid_body'' ''/health does not accept a request body''
         else (Some (http_return_health_response c), st))
      else if path = ''/query'' then
        (if rq_method request \<noteq> ''POST'' then answer 405 ''method_not_allowed'' ''POST is required for /query''
         else if \<not> http_content_type_is_sql (rq_content_type request)
         then answer 415 ''unsupported_media_type'' ''/query expects a raw SQL body''
         else if rq_content_length request = 0 \<or> http_text_is_blank (rq_body request)
         then answer 400 ''invalid_body'' ''request body must contain a SQL statement''
         else case execute_query of
           None \<Rightarrow> answer 500 ''missing_dependency'' ''query executor callback is not configured''
         | Some run \<Rightarrow>
        (case http_parse_debug_sleep_ms request of
           Inl e \<Rightarrow> answer 400 ''invalid_header'' e
         | Inr debug_sleep_ms \<Rightarrow>
        (case run (c_str (the (rq_body request))) st of
           (None, st') \<Rightarrow> (None, st')
         | (Some (Inl e), st') \<Rightarrow>
             (Some (http_return_error_response 500 path ''query_execution_failed''
                (if e = [] then ''query execution callback failed'' else e) c), st')
         | (Some (Inr r), st') \<Rightarrow>
             if \<not> qr_ok r then
               (Some (http_return_query_response False 400 path (Some ''query_failed'')
                  (case qr_message r of None \<Rightarrow> ''query execution failed'' | Some m \<Rightarrow> m)
                  (qr_affected_rows r) (qr_output_text r) c), st')
             else
               (Some (http_return_query_response True 200 path None
                  (case qr_message r of None \<Rightarrow> ''query completed'' | Some m \<Rightarrow> m)
                  (qr_affected_rows r) (qr_output_text r) c), st'))))
      else answer 404 ''path_not_found'' ''unsupported endpoint'')"

section \<open>Receiving a request\<close>

definition HTTP_RECEIVE_CHUNK_BYTES :: nat where
  "HTTP_RECEIVE_CHUNK_BYTES = 4096"

text \<open>The loop state is the new capacity and whether the loop has been left with \<open>break\<close>.\<close>

definition http_grow_capacity :: "nat \<Rightarrow> nat \<Rightarrow> nat \<Rightarrow> nat" where
  "http_grow_capacity new_capacity minimum_capacity maximum_capacity =
     fst (while (\<lambda>(n, stop). \<not> stop \<and> n < minimum_capacity)
       (\<lambda>(n, stop). if n \<ge> maximum_capacity then (maximum_capacity, True)
          else if n > maximum_capacity div 2 then (maximum_capacity, False) else (n * 2, False))
       (new_capacity, False))"

definition http_grow_buffer :: "nat \<Rightarrow> nat \<Rightarrow> nat \<Rightarrow> nat option" where
  "http_grow_buffer capacity minimum_capacity maximum_capacity =
     (let new_capacity = http_grow_capacity (if capacity = 0 then HTTP_RECEIVE_CHUNK_BYTES else capacity)
            minimum_capacity maximum_capacity
      in if new_capacity < minimum_capacity then None else Some new_capacity)"

text \<open>
  What the receive loop ends with: an error response, a connection closed before the first byte, or
  a buffer that holds a complete request of the given length.
\<close>

datatype receive_outcome = Refused int string string | ClosedEarly | Complete string nat

fun event_size :: "recv_result \<Rightarrow> nat" where
  "event_size (Received bytes) = Suc (length bytes)"
| "event_size _ = 1"

definition script_size :: "recv_result list \<Rightarrow> nat" where
  "script_size script = sum_list (map event_size script)"

lemma socket_recv_size:
  "socket_recv room script = (r, script') \<Longrightarrow> r \<noteq> Received [] \<Longrightarrow> script_size script' < script_size script"
  by (induction room script rule: socket_recv.induct) (auto simp: script_size_def split: if_splits)

function http_receive_loop :: "nat \<Rightarrow> recv_result list \<Rightarrow> string \<Rightarrow> nat \<Rightarrow> receive_outcome \<times> recv_result list" where
  "http_receive_loop max_request_bytes script buffer capacity =
     (case http_grow_buffer capacity (length buffer + 1) max_request_bytes of
        None \<Rightarrow>
          (if length buffer \<ge> max_request_bytes
           then Refused 413 ''payload_too_large'' ''request exceeds the configured size limit''
           else Refused 500 ''allocation_failed'' ''failed to allocate the request buffer'', script)
      | Some capacity' \<Rightarrow>
     (case socket_recv (capacity' - length buffer) script of
        (RecvInterrupted, script') \<Rightarrow> http_receive_loop max_request_bytes script' buffer capacity'
      | (RecvFailed, script') \<Rightarrow> (Refused 500 ''read_failed'' ''failed to read the client request'', script')
      | (Received bytes, script') \<Rightarrow>
          if bytes = [] then
            (if buffer = [] then ClosedEarly
             else Refused 400 ''incomplete_request'' ''client closed the connection before the request completed'', script')
          else
            (case http_request_probe (buffer @ bytes) max_request_bytes of
               (probe_result, request_length, probe_error) \<Rightarrow>
                 if request_length > max_request_bytes
                 then (Refused 413 ''payload_too_large'' ''request exceeds the configured size limit'', script')
                 else if probe_result = HTTP_PROBE_INVALID then (Refused 400 ''invalid_request'' probe_error, script')
                 else if probe_result = HTTP_PROBE_COMPLETE then (Complete (buffer @ bytes) request_length, script')
                 else http_receive_loop max_request_bytes script' (buffer @ bytes) capacity')))"
  by pat_completeness auto
termination
  by (relation "measure (\<lambda>(m, script, buffer, capacity). script_size script)")
    (auto dest: socket_recv_size [OF sym])

declare http_receive_loop.simps [simp del]

section \<open>One client connection\<close>

text \<open>The trace at the start of a connection: the worker that handles it and the request number.\<close>

definition http_start_trace ::
    "int \<Rightarrow> http_request_trace option \<Rightarrow> http_globals \<Rightarrow> http_request_trace option \<times> http_globals" where
  "http_start_trace current_worker trace g =
     (case trace of
        None \<Rightarrow> (None, g)
      | Some t0 \<Rightarrow>
     (case if tr_worker_index t0 < 0 then http_trace_set_worker_index trace current_worker else trace of
        None \<Rightarrow> (None, g)
      | Some t \<Rightarrow>
          if tr_req_id t = 0
          then (case http_next_request_id g of (n, g') \<Rightarrow> (Some (t\<lparr>tr_req_id := n\<rparr>), g'))
          else (Some t, g)))"

text \<open>A parsed request is traced, logged, routed and answered.\<close>

definition http_answer_request ::
    "int \<Rightarrow> 's query_executor option \<Rightarrow> http_request_trace option \<Rightarrow> http_request \<Rightarrow> client \<Rightarrow> http_globals \<Rightarrow> 's \<Rightarrow>
     (bool \<times> http_request_trace option \<times> client \<times> http_globals) option \<times> 's" where
  "http_answer_request current_worker execute_query trace request c g st =
     (let trace1 = http_trace_copy_request trace request;
          (req_id, g1) = (case trace1 of Some t \<Rightarrow> (tr_req_id t, g) | None \<Rightarrow> http_next_request_id g);
          g2 = http_log_request_event current_worker req_id EVENT_RECEIVED (Some request) trace1 0 g1
      in case http_route_request execute_query request c st of
           (None, st') \<Rightarrow> (None, st')
         | (Some (success, status, c'), st') \<Rightarrow>
             (let trace2 = http_trace_set_status trace1 status
              in (Some (success, trace2, c',
                    http_log_request_event current_worker req_id EVENT_ANSWERED (Some request) trace2 status g2), st')))"

definition http_refuse ::
    "http_request_trace option \<Rightarrow> int \<Rightarrow> string \<Rightarrow> string \<Rightarrow> client \<Rightarrow> http_globals \<Rightarrow> 's \<Rightarrow>
     (bool \<times> http_request_trace option \<times> client \<times> http_globals) option \<times> 's" where
  "http_refuse trace status code message c g st =
     (Some (False, http_trace_set_status trace status, snd (http_write_error_response status [] code message c), g), st)"

text \<open>Every path ends at the label \<open>cleanup\<close>, where the socket is closed.\<close>

definition http_cleanup ::
    "(bool \<times> http_request_trace option \<times> client \<times> http_globals) option \<times> 's \<Rightarrow>
     (bool \<times> http_request_trace option \<times> client \<times> http_globals) option \<times> 's" where
  "http_cleanup = apfst (map_option (\<lambda>(success, trace, c, g). (success, trace, http_close_client c, g)))"

definition http_server_handle_client ::
    "int \<Rightarrow> nat option \<Rightarrow> 's query_executor option \<Rightarrow> http_request_trace option \<Rightarrow> client \<Rightarrow> http_globals \<Rightarrow> 's \<Rightarrow>
     (bool \<times> http_request_trace option \<times> client \<times> http_globals) option \<times> 's" where
  "http_server_handle_client current_worker config execute_query trace0 c g0 st =
     (let (trace, g) = http_start_trace current_worker trace0 g0;
          max_request_bytes = (case config of Some m \<Rightarrow> if m > 0 then m else HTTP_DEFAULT_MAX_REQUEST_BYTES
            | None \<Rightarrow> HTTP_DEFAULT_MAX_REQUEST_BYTES);
          (outcome, script) = http_receive_loop max_request_bytes (cl_recv c) [] 0;
          c1 = c\<lparr>cl_recv := script\<rparr>
      in http_cleanup
          (case outcome of
             Refused status code message \<Rightarrow> http_refuse trace status code message c1 g st
           | ClosedEarly \<Rightarrow> (Some (True, trace, c1, g), st)
           | Complete buffer request_length \<Rightarrow>
               (case http_parse_request (take request_length buffer) of
                  Inl e \<Rightarrow> http_refuse trace 400 ''invalid_request'' e c1 g st
                | Inr request \<Rightarrow> http_answer_request current_worker execute_query trace request c1 g st)))"

section \<open>Sending\<close>

text \<open>The client has received a prefix of the response, and all of it when the sending succeeded.\<close>

definition responded :: "client \<Rightarrow> bool \<Rightarrow> int \<Rightarrow> client \<Rightarrow> bool" where
  "responded c success status c' \<longleftrightarrow>
     (\<exists>body k. cl_sent c' = cl_sent c @ take k (response_text status body) \<and>
        (success \<longrightarrow> cl_sent c' = cl_sent c @ response_text status body))"

lemma send_loop_sent:
  "send_loop rest script sent = (success, script', sent') \<Longrightarrow>
   (\<exists>k. sent' = sent @ take k rest) \<and> (success \<longrightarrow> sent' = sent @ rest)"
proof (induction rest script sent arbitrary: sent' rule: send_loop.induct)
  case (1 rest sent)
  then show ?case by (auto intro: exI [of _ "length rest"])
next
  case (2 rest e script sent)
  show ?case
  proof (cases "rest = []")
    case True
    with 2 show ?thesis by simp
  next
    case rest: False
    show ?thesis
    proof (cases e)
      case (Accepted n)
      show ?thesis
      proof (cases "n = 0")
        case True
        with 2 rest Accepted show ?thesis by (auto intro: exI [of _ 0])
      next
        case False
        then obtain k where k: "sent' = (sent @ take n rest) @ take k (drop n rest)" "success \<longrightarrow> sent' = sent @ rest"
          using "2.IH"(1) [OF rest Accepted False] "2.prems" rest Accepted by fastforce
        then have "sent' = sent @ take (n + k) rest" by (simp add: take_add)
        with k(2) show ?thesis by blast
      qed
    next
      case SendInterrupted
      with "2.IH"(2) [OF rest SendInterrupted] "2.prems" rest show ?thesis by simp
    next
      case SendFailed
      with 2 rest show ?thesis by (auto intro: exI [of _ 0])
    qed
  qed
qed

lemma http_send_all_responded:
  assumes "http_send_all (response_text status body) c = (success, c')"
  shows "responded c success status c'"
proof -
  obtain script sent where l: "send_loop (response_text status body) (cl_send c) (cl_sent c) = (success, script, sent)"
    and c': "c' = c\<lparr>cl_send := script, cl_sent := sent\<rparr>"
    using assms unfolding http_send_all_def by (cases "send_loop (response_text status body) (cl_send c) (cl_sent c)") simp
  from send_loop_sent [OF l] show ?thesis unfolding responded_def c' by auto
qed

lemma responded_failed: "responded c success status c' \<Longrightarrow> responded c False status c'"
  by (auto simp: responded_def)

lemma not_responded: "responded c False status c"
  by (auto simp: responded_def intro: exI [of _ 0])

lemma wrapped_text: "http_wrap_json_response status body = Inr r \<Longrightarrow> r = response_text status body"
  by (simp add: http_wrap_json_response_def printed_def http_error_def split: if_splits)

lemma built_text:
  "http_build_error_response status path code message = Inr r \<Longrightarrow> \<exists>body. r = response_text status body"
  "http_build_query_response ok status path code' message rows out = Inr r \<Longrightarrow> \<exists>body. r = response_text status body"
  "http_build_health_response = Inr r \<Longrightarrow> \<exists>body. r = response_text 200 body"
  unfolding http_build_error_response_def http_build_query_response_def http_build_health_response_def
  by (auto simp: sbind_Inr_iff dest: wrapped_text)

lemma write_error_responded:
  "http_write_error_response status path code message c = (success, c') \<Longrightarrow> responded c success status c'"
  by (auto simp: http_write_error_response_def not_responded split: sum.splits
      dest!: built_text(1) intro: http_send_all_responded)

lemma returned_responded:
  "http_return_error_response status path code message c = (success, status', c') \<Longrightarrow> responded c success status' c'"
  "http_return_health_response c = (success, status', c') \<Longrightarrow> responded c success status' c'"
  "http_return_query_response ok status path code' message rows out c = (success, status', c') \<Longrightarrow>
     responded c success status' c'"
  unfolding http_return_error_response_def http_return_health_response_def http_return_query_response_def
    http_write_health_response_def http_write_query_response_def
  by (auto simp: not_responded split: sum.splits prod.splits dest!: built_text(2,3)
      intro: http_send_all_responded write_error_responded)

lemma route_responded:
  assumes "http_route_request run rq c st = (Some (success, status, c'), st')"
  shows "responded c success status c'"
  using assms
  by (auto simp: http_route_request_def Let_def split: if_splits option.splits sum.splits prod.splits
      intro: returned_responded)

section \<open>Receiving\<close>

lemma http_grow_capacity_ok:
  assumes "0 < n"
  shows "n \<le> http_grow_capacity n lo hi \<and> (lo \<le> http_grow_capacity n lo hi) \<and> http_grow_capacity n lo hi \<le> max n hi \<or>
    http_grow_capacity n lo hi = hi \<and> hi < lo \<and> n < lo"
proof -
  let ?P = "\<lambda>(x, stop). n \<le> x \<and> x \<le> max n hi \<and> \<not> stop \<and> (x \<noteq> n \<longrightarrow> n < lo) \<or> stop \<and> x = hi \<and> hi < lo \<and> n < lo"
  let ?b = "\<lambda>(x, stop). \<not> stop \<and> x < lo"
  let ?c = "\<lambda>(x, stop :: bool). if x \<ge> hi then (hi, True) else if x > hi div 2 then (hi, False) else (x * 2, False)"
  let ?Q = "\<lambda>(x, stop :: bool). n \<le> x \<and> lo \<le> x \<and> x \<le> max n hi \<or> x = hi \<and> hi < lo \<and> n < lo"
  have "?Q (while ?b ?c (n, False))"
  proof (rule while_rule [where P = ?P and r = "measure (\<lambda>(x, stop). if stop then 0 else Suc (hi - x))"])
    show "?P (?c s)" if "?P s" "?b s" for s
      using that by (cases s) (auto simp: max_def split: if_splits)
    show "(?c s, s) \<in> measure (\<lambda>(x, stop). if stop then 0 else Suc (hi - x))" if "?P s" "?b s" for s
      using that assms by (cases s) auto
  qed auto
  then show ?thesis by (auto simp: http_grow_capacity_def split: prod.splits)
qed

lemma http_grow_buffer_Some:
  assumes "lo \<le> hi"
  obtains capacity' where "http_grow_buffer capacity lo hi = Some capacity'" "lo \<le> capacity'"
proof -
  have "0 < (if capacity = 0 then HTTP_RECEIVE_CHUNK_BYTES else capacity)" by (simp add: HTTP_RECEIVE_CHUNK_BYTES_def)
  from http_grow_capacity_ok [OF this, of lo hi] assms that show ?thesis
    by (auto simp: http_grow_buffer_def Let_def)
qed

text \<open>The 500 of the receive loop is reserved for a failing allocation: the size limit gives a 413.\<close>

lemma http_grow_buffer_None:
  assumes "http_grow_buffer capacity (length buffer + 1) hi = None"
  shows "hi \<le> length buffer"
  using assms http_grow_buffer_Some [of "length buffer + 1" hi capacity] by (metis Suc_eq_plus1 not_less_eq_eq option.distinct(1))

text \<open>A script that delivers a stream of bytes, in any portions and with any interruptions.\<close>

definition delivers :: "recv_result list \<Rightarrow> bool" where
  "delivers script \<longleftrightarrow> list_all (\<lambda>e. e \<noteq> RecvFailed \<and> e \<noteq> Received []) script"

definition stream_of :: "recv_result list \<Rightarrow> string" where
  "stream_of script = concat (map (\<lambda>e. case e of Received bytes \<Rightarrow> bytes | _ \<Rightarrow> []) script)"

lemma socket_recv_delivers:
  assumes "delivers script" "stream_of script \<noteq> []" "0 < room"
  shows "\<exists>r script'. socket_recv room script = (r, script') \<and> delivers script' \<and>
    (r = RecvInterrupted \<and> stream_of script' = stream_of script \<or>
     (\<exists>bytes. r = Received bytes \<and> bytes \<noteq> [] \<and> stream_of script = bytes @ stream_of script'))"
proof (cases script)
  case Nil
  with assms show ?thesis by (simp add: stream_of_def)
next
  case (Cons e rest)
  with assms show ?thesis by (cases e) (auto simp: delivers_def stream_of_def)
qed

lemma http_receive_interrupted:
  assumes "http_grow_buffer capacity (length buffer + 1) m = Some capacity'"
    "socket_recv (capacity' - length buffer) script = (RecvInterrupted, script')"
  shows "http_receive_loop m script buffer capacity = http_receive_loop m script' buffer capacity'"
  using assms by (subst http_receive_loop.simps) simp

lemma http_receive_bytes:
  assumes "http_grow_buffer capacity (length buffer + 1) m = Some capacity'"
    "socket_recv (capacity' - length buffer) script = (Received bytes, script')" "bytes \<noteq> []"
    "http_request_probe (buffer @ bytes) m = (r, l, e)" "\<not> m < l" "r \<noteq> HTTP_PROBE_INVALID"
  shows "http_receive_loop m script buffer capacity =
    (if r = HTTP_PROBE_COMPLETE then (Complete (buffer @ bytes) l, script')
     else http_receive_loop m script' (buffer @ bytes) capacity')"
  using assms by (subst http_receive_loop.simps) simp

text \<open>
  A stream that holds a complete request is received up to the end of the request at least, however
  it is cut into portions.
\<close>

lemma http_receive_loop_complete:
  assumes "delivers script" "http_request_probe stream m = (HTTP_PROBE_COMPLETE, n, e)" "0 < m"
    "stream = buffer @ stream_of script" "length buffer < n"
  shows "\<exists>k script'. http_receive_loop m script buffer capacity = (Complete (take k stream) n, script') \<and> n \<le> k"
  using assms
proof (induction m script buffer capacity rule: http_receive_loop.induct)
  case (1 m script buffer capacity)
  note probe = probe_prefix [OF "1.prems"(2)]
  have max: "effective_max m = m" using "1.prems"(3) by (simp add: effective_max_def)
  have n: "n \<le> length stream" "length stream \<le> m" using probe [of 0] max by auto
  then have "length buffer + 1 \<le> m" using "1.prems"(5) by simp
  from http_grow_buffer_Some [OF this, of capacity] obtain capacity' where
    grow: "http_grow_buffer capacity (length buffer + 1) m = Some capacity'" "length buffer + 1 \<le> capacity'" .
  have "stream_of script \<noteq> []" using n "1.prems"(4,5) by auto
  from socket_recv_delivers [OF "1.prems"(1) this, of "capacity' - length buffer"] grow(2) obtain r script' where
    recv: "socket_recv (capacity' - length buffer) script = (r, script')" "delivers script'"
    and r: "r = RecvInterrupted \<and> stream_of script' = stream_of script \<or>
      (\<exists>bytes. r = Received bytes \<and> bytes \<noteq> [] \<and> stream_of script = bytes @ stream_of script')" by auto
  from r show ?case
  proof
    assume "r = RecvInterrupted \<and> stream_of script' = stream_of script"
    then have r: "r = RecvInterrupted" and s: "stream_of script' = stream_of script" by simp_all
    from "1.IH"(2) [OF grow(1) recv(1) [symmetric] r recv(2) "1.prems"(2,3) _ "1.prems"(5)] "1.prems"(4) s
    show ?thesis using http_receive_interrupted [OF grow(1)] recv(1) r by simp
  next
    assume "\<exists>bytes. r = Received bytes \<and> bytes \<noteq> [] \<and> stream_of script = bytes @ stream_of script'"
    then obtain bytes where r: "r = Received bytes" and b: "bytes \<noteq> []" "stream_of script = bytes @ stream_of script'" by blast
    let ?k = "length (buffer @ bytes)"
    have k: "take ?k stream = buffer @ bytes" using "1.prems"(4) b(2) by simp
    from probe [of ?k] k obtain l where p: "http_request_probe (buffer @ bytes) m =
        (if ?k < n then HTTP_PROBE_INCOMPLETE else HTTP_PROBE_COMPLETE, l, [])" "l \<le> n" "n \<le> ?k \<longrightarrow> l = n" by auto
    have l: "\<not> m < l" using p(2) n by simp
    note step = http_receive_bytes [OF grow(1) recv(1) [unfolded r] b(1) p(1) l]
    show ?thesis
    proof (cases "?k < n")
      case True
      have "\<exists>k script''. http_receive_loop m script' (buffer @ bytes) capacity' = (Complete (take k stream) n, script'') \<and> n \<le> k"
        using "1.IH"(1) [OF grow(1) recv(1) [symmetric] r b(1) p(1) [symmetric] refl l] True recv(2) "1.prems"(2-4) b(2) by simp
      then show ?thesis using step True by simp
    next
      case False
      then have "n \<le> ?k" "l = n" using p(3) by simp_all
      then show ?thesis using step False k by (intro exI [of _ ?k]) simp
    qed
  qed
qed

section \<open>The answer to a request does not depend on what is left in the stream\<close>

definition with_recv :: "recv_result list \<Rightarrow> client \<Rightarrow> client" where
  "with_recv script c = c\<lparr>cl_recv := script\<rparr>"

lemma send_all_with_recv:
  "http_send_all t (with_recv script c) = apsnd (with_recv script) (http_send_all t c)"
  by (simp add: http_send_all_def with_recv_def split: prod.splits)

lemma built_with_recv:
  "(case built of Inl e \<Rightarrow> (False, with_recv script c) | Inr t \<Rightarrow> http_send_all t (with_recv script c)) =
   apsnd (with_recv script) (case built of Inl e \<Rightarrow> (False, c) | Inr t \<Rightarrow> http_send_all t c)"
  by (cases built) (simp_all add: send_all_with_recv)

lemma write_with_recv:
  "http_write_error_response status path code message (with_recv script c) =
     apsnd (with_recv script) (http_write_error_response status path code message c)"
  "http_write_health_response (with_recv script c) = apsnd (with_recv script) (http_write_health_response c)"
  "http_write_query_response ok status path code' message rows out (with_recv script c) =
     apsnd (with_recv script) (http_write_query_response ok status path code' message rows out c)"
  unfolding http_write_error_response_def http_write_health_response_def http_write_query_response_def
  by (rule built_with_recv)+

lemma return_with_recv:
  "http_return_error_response status path code message (with_recv script c) =
     apsnd (apsnd (with_recv script)) (http_return_error_response status path code message c)"
  "http_return_health_response (with_recv script c) = apsnd (apsnd (with_recv script)) (http_return_health_response c)"
  "http_return_query_response ok status path code' message rows out (with_recv script c) =
     apsnd (apsnd (with_recv script)) (http_return_query_response ok status path code' message rows out c)"
  unfolding http_return_error_response_def http_return_health_response_def http_return_query_response_def
  by (simp_all add: write_with_recv split: prod.splits)

lemma route_with_recv:
  "http_route_request run rq (with_recv script c) st =
   apfst (map_option (apsnd (apsnd (with_recv script)))) (http_route_request run rq c st)"
  by (simp add: http_route_request_def Let_def return_with_recv split: option.splits sum.splits prod.splits)

text \<open>What the client and the callers can see of a handled connection.\<close>

definition visible ::
    "(bool \<times> http_request_trace option \<times> client \<times> http_globals) option \<times> 's \<Rightarrow>
     (bool \<times> http_request_trace option \<times> string \<times> bool \<times> http_globals) option \<times> 's" where
  "visible r = apfst (map_option (\<lambda>(success, trace, c, g). (success, trace, cl_sent c, cl_open c, g))) r"

lemma visible_close:
  "visible (http_cleanup r) = apfst (map_option (\<lambda>(success, trace', t, b, g'). (success, trace', t, False, g'))) (visible r)"
  by (cases r; cases "fst r") (auto simp: visible_def http_cleanup_def http_close_client_def)

definition result_with_recv ::
    "recv_result list \<Rightarrow> (bool \<times> http_request_trace option \<times> client \<times> http_globals) option \<times> 's \<Rightarrow>
     (bool \<times> http_request_trace option \<times> client \<times> http_globals) option \<times> 's" where
  "result_with_recv script = apfst (map_option (apsnd (apsnd (apfst (with_recv script)))))"

lemma visible_with_recv [simp]: "visible (result_with_recv script r) = visible r"
  by (cases r; cases "fst r") (auto simp: visible_def result_with_recv_def with_recv_def)

lemma answer_with_recv:
  "http_answer_request w run trace rq (with_recv script c) g st = result_with_recv script (http_answer_request w run trace rq c g st)"
  by (simp add: http_answer_request_def result_with_recv_def route_with_recv Let_def split: prod.splits option.splits)

lemma refuse_with_recv:
  "http_refuse trace status code message (with_recv script c) g st =
   result_with_recv script (http_refuse trace status code message c g st)"
  by (simp add: http_refuse_def result_with_recv_def write_with_recv)

definition limit_of :: "nat option \<Rightarrow> nat" where
  "limit_of config = effective_max (case config of None \<Rightarrow> 0 | Some m \<Rightarrow> m)"

lemma limit_of_eq:
  "(case config of Some m \<Rightarrow> if m > 0 then m else HTTP_DEFAULT_MAX_REQUEST_BYTES
     | None \<Rightarrow> HTTP_DEFAULT_MAX_REQUEST_BYTES) = limit_of config"
  by (auto simp: limit_of_def effective_max_def split: option.splits)

lemma limit_of_pos: "0 < limit_of config"
  by (auto simp: limit_of_def effective_max_def HTTP_DEFAULT_MAX_REQUEST_BYTES_def split: option.splits)

definition complete_request :: "nat option \<Rightarrow> recv_result list \<Rightarrow> nat \<Rightarrow> bool" where
  "complete_request config script n \<longleftrightarrow> delivers script \<and>
     (\<exists>e. http_request_probe (stream_of script) (limit_of config) = (HTTP_PROBE_COMPLETE, n, e))"

lemma complete_request_received:
  assumes "complete_request config script n"
  obtains k script' where "http_receive_loop (limit_of config) script [] 0 = (Complete (take k (stream_of script)) n, script')"
    "n \<le> k"
proof -
  obtain e where "http_request_probe (stream_of script) (limit_of config) = (HTTP_PROBE_COMPLETE, n, e)" "delivers script"
    using assms by (auto simp: complete_request_def)
  note p = this
  obtain h rq where "http_parse_head (stream_of script) = Inr (h, rq)" "n = h + rq_content_length rq"
    using probe_complete [OF p(1)] by blast
  then have "0 < n" using http_find_header_end_bounds [OF http_parse_head_length] by fastforce
  with http_receive_loop_complete [OF p(2,1) limit_of_pos, of "[]" 0] that show ?thesis by auto
qed

text \<open>
  The handling of a complete request: it depends on the first \<open>n\<close> bytes of the stream only.
\<close>

lemma handle_client_visible:
  assumes "complete_request config script n" "complete_request config script' n"
    "take n (stream_of script) = take n (stream_of script')"
  shows "visible (http_server_handle_client w config run trace (with_recv script c) g st) =
    visible (http_server_handle_client w config run trace (with_recv script' c) g st)"
proof -
  obtain k1 s1 where r1: "http_receive_loop (limit_of config) script [] 0 = (Complete (take k1 (stream_of script)) n, s1)" "n \<le> k1"
    using complete_request_received [OF assms(1)] .
  obtain k2 s2 where r2: "http_receive_loop (limit_of config) script' [] 0 = (Complete (take k2 (stream_of script')) n, s2)" "n \<le> k2"
    using complete_request_received [OF assms(2)] .
  have t: "take n (take k1 (stream_of script)) = take n (stream_of script')"
    "take n (take k2 (stream_of script')) = take n (stream_of script')"
    using r1(2) r2(2) assms(3) by (simp_all add: min_def)
  have c: "(with_recv script c)\<lparr>cl_recv := s\<rparr> = with_recv s c" "cl_recv (with_recv script c) = script" for script s
    by (simp_all add: with_recv_def)
  show ?thesis
    unfolding http_server_handle_client_def limit_of_eq c r1(1) r2(1) Let_def prod.case receive_outcome.case t
    by (simp add: visible_close answer_with_recv refuse_with_recv visible_with_recv split: sum.splits prod.splits)
qed

lemma start_trace_Some: "\<exists>t' g'. http_start_trace w (Some t) g = (Some t', g')"
  by (simp add: http_start_trace_def http_trace_set_worker_index_def http_next_request_id_def)

lemma handle_client_routed:
  assumes "complete_request config script n" "http_parse_request (take n (stream_of script)) = Inr rq"
    "http_route_request run rq c st = (Some (success, status, c'), st')"
  shows "\<exists>t' c'' g'. http_server_handle_client w config run (Some t) (with_recv script c) g st =
      (Some (success, Some t', c'', g'), st') \<and>
    tr_status_code t' = status \<and> cl_sent c'' = cl_sent c' \<and> \<not> cl_open c''"
proof -
  obtain k s where r: "http_receive_loop (limit_of config) script [] 0 = (Complete (take k (stream_of script)) n, s)" "n \<le> k"
    using complete_request_received [OF assms(1)] .
  have t: "take n (take k (stream_of script)) = take n (stream_of script)" using r(2) by (simp add: min_def)
  have c: "(with_recv script c)\<lparr>cl_recv := s\<rparr> = with_recv s c" "cl_recv (with_recv script c) = script"
    by (simp_all add: with_recv_def)
  obtain t1 g1 where t1: "http_start_trace w (Some t) g = (Some t1, g1)" using start_trace_Some by blast
  have route: "http_route_request run rq (with_recv s c) st = (Some (success, status, with_recv s c'), st')"
    by (simp add: route_with_recv assms(3))
  have sent: "cl_sent (with_recv s c') = cl_sent c'" by (simp add: with_recv_def)
  show ?thesis
    unfolding http_server_handle_client_def limit_of_eq c r(1) Let_def prod.case receive_outcome.case t assms(2) sum.case t1
    by (simp add: http_answer_request_def route http_cleanup_def http_trace_copy_request_def Let_def
        http_trace_set_status_def http_close_client_def sent)
qed

section \<open>The interface of the query executor\<close>

text \<open>
  The server relies on its executor callback for everything that concerns the database: whatever
  invariant every call of the callback keeps, the handling of a connection keeps too.
\<close>

locale query_service =
  fixes run :: "'s query_executor" and inv :: "'s \<Rightarrow> bool"
  assumes run_keeps: "inv st \<Longrightarrow> run sql st = (r, st') \<Longrightarrow> inv st'"
begin

lemma route_keeps: "inv st \<Longrightarrow> http_route_request (Some run) rq c st = (r, st') \<Longrightarrow> inv st'"
  by (auto simp: http_route_request_def Let_def split: if_splits sum.splits prod.splits option.splits dest: run_keeps)

lemma handle_client_keeps:
  assumes "inv st" "http_server_handle_client w config (Some run) trace c g st = (r, st')"
  shows "inv st'"
  using assms
  by (auto simp: http_server_handle_client_def http_cleanup_def http_refuse_def http_answer_request_def Let_def
      split: receive_outcome.splits sum.splits prod.splits option.splits dest: route_keeps)

end

section \<open>Every connection is answered once and closed\<close>

lemma handle_client_responded:
  assumes "http_server_handle_client w config run (Some t) c g st = (Some (success, trace', c', g'), st')"
  shows "\<not> cl_open c' \<and> (\<exists>t'. trace' = Some t' \<and>
    (responded c success (tr_status_code t') c' \<or> success \<and> cl_sent c' = cl_sent c \<and> st' = st))"
proof -
  obtain t1 g1 where t1: "http_start_trace w (Some t) g = (Some t1, g1)"
    using start_trace_Some by blast
  have sent: "responded (c\<lparr>cl_recv := s\<rparr>) b i c'' \<longleftrightarrow> responded c b i c''"
    "responded c b i (http_close_client c'') \<longleftrightarrow> responded c b i c''" for s b i c''
    by (simp_all add: responded_def http_close_client_def)
  have refuse: "responded c False i (snd (http_write_error_response i path code m (c\<lparr>cl_recv := s\<rparr>)))" for i path code m s
    using write_error_responded [of i path code m "c\<lparr>cl_recv := s\<rparr>"] responded_failed sent(1)
    by (metis prod.collapse)
  show ?thesis
    using assms t1 refuse sent
    by (auto simp: http_server_handle_client_def http_cleanup_def http_refuse_def http_answer_request_def
        http_trace_set_status_def http_trace_copy_request_def Let_def http_close_client_def
        split: receive_outcome.splits sum.splits prod.splits option.splits dest!: route_responded)
qed

section \<open>The theorems of the connection handler\<close>

text \<open>
  C12 (portions of a request): when the bytes of a connection hold a complete request of \<open>n\<close> bytes,
  the outcome does not depend on how they are cut into portions, on interrupted calls of \<open>recv\<close>, or
  on bytes behind the request. The success flag, the trace, the bytes sent, the log and the effect
  on the database are the same for every delivery of the same first \<open>n\<close> bytes.
\<close>

theorem handle_client_portions:
  assumes "complete_request config (cl_recv c) n" "complete_request config script n"
    "take n (stream_of (cl_recv c)) = take n (stream_of script)"
  shows "visible (http_server_handle_client w config run trace c g st) =
    visible (http_server_handle_client w config run trace (c\<lparr>cl_recv := script\<rparr>) g st)"
  using handle_client_visible [OF assms, of w run trace c] by (simp add: with_recv_def)

theorem handle_client_portions_witness:
  "visible (http_server_handle_client 0 None (None :: unit query_executor option) None
      \<lparr>cl_recv = [Received (take 5 (render_request ''POST'' ''/query'' ''text/plain'' ''SELECT'')), RecvInterrupted,
         Received (drop 5 (render_request ''POST'' ''/query'' ''text/plain'' ''SELECT''))],
       cl_send = [], cl_sent = [], cl_open = True\<rparr> \<lparr>hg_request_sequence = 0, hg_stdout = []\<rparr> ()) =
   visible (http_server_handle_client 0 None (None :: unit query_executor option) None
      \<lparr>cl_recv = [Received (render_request ''POST'' ''/query'' ''text/plain'' ''SELECT'')],
       cl_send = [], cl_sent = [], cl_open = True\<rparr> \<lparr>hg_request_sequence = 0, hg_stdout = []\<rparr> ())"
proof -
  let ?r = "render_request ''POST'' ''/query'' ''text/plain'' ''SELECT''"
  define r where "r = ?r"
  have ok: "renderable ''POST'' ''/query'' ''text/plain'' ''SELECT''"
    by (simp add: renderable_def token_ok_def header_value_ok_def SIZE_MAX_def ctype_defs)
  have len: "5 < length r" "length r \<le> effective_max (limit_of None)" "effective_max (limit_of None) \<le> SIZE_MAX"
    by (simp_all add: r_def render_request_def CRLF_def effective_max_def limit_of_def HTTP_DEFAULT_MAX_REQUEST_BYTES_def
        SIZE_MAX_def show_nat.simps)
  have probe: "http_request_probe r (limit_of None) = (HTTP_PROBE_COMPLETE, length r, [])"
    unfolding r_def using probe_rendered [OF ok] len(2,3) unfolding r_def by blast
  have script: "complete_request None [Received (take 5 r), RecvInterrupted, Received (drop 5 r)] (length r)"
    "complete_request None [Received r] (length r)"
    using probe len(1) by (auto simp: complete_request_def delivers_def stream_of_def)
  let ?c = "\<lparr>cl_recv = [Received (take 5 r), RecvInterrupted, Received (drop 5 r)], cl_send = [], cl_sent = [], cl_open = True\<rparr>"
  show ?thesis
    using handle_client_portions [of None ?c "length r" "[Received r]" 0 "None :: unit query_executor option" None] script
    unfolding r_def by (simp add: stream_of_def)
qed



end
