(* ===== verification/Query_Runtime.thy ===== *)
theory Query_Runtime
  imports Engine Http_Server Lock_Manager
begin

text \<open>
  The query executor that \<open>SERVER-RUNTIME/src/db_server_runtime.c\<close> installs in the HTTP server, and
  the composition of the layers: a query that arrives over HTTP is lexed, parsed and executed by the
  engine, under the lock of the pool. \<open>runtime_execute_query\<close> is the code between acquiring and
  releasing the lock; the threads that contend for the lock are a transition system over that of the
  lock manager.
\<close>

section \<open>The executor callback\<close>

definition clamp_affected_rows :: "int \<Rightarrow> int" where
  "clamp_affected_rows affected_rows =
     (if affected_rows > INT_MAX then INT_MAX else if affected_rows < INT_MIN then INT_MIN else affected_rows)"

definition runtime_execute_query :: "capture \<Rightarrow> string \<Rightarrow> string \<Rightarrow> db query_executor" where
  "runtime_execute_query cap schema_dir data_dir sql db0 =
     (case core_execute cap (Some week8_engine_run)
        (Some \<lparr>req_sql = Some sql, req_schema_path = Some schema_dir, req_data_path = Some data_dir\<rparr>)
        core_result_zero db0 of
        (None, db1) \<Rightarrow> (None, db1)
      | (Some (status, core_result), db1) \<Rightarrow>
          if status \<noteq> STATUS_OK
          then (Some (Inl (snprintf ERROR_SIZE
                  (case cr_message core_result of None \<Rightarrow> core_status_string status | Some m \<Rightarrow> m))), db1)
          else (Some (Inr \<lparr>qr_ok = cr_ok core_result, qr_affected_rows = clamp_affected_rows (cr_affected_rows core_result),
                  qr_message = cr_message core_result, qr_output_text = cr_output_text core_result\<rparr>), db1))"

definition runtime_cleanup_query_result :: "http_query_result \<Rightarrow> http_query_result" where
  "runtime_cleanup_query_result r = r\<lparr>qr_message := None, qr_output_text := None, qr_affected_rows := 0, qr_ok := False\<rparr>"

section \<open>Threads that execute queries\<close>

text \<open>
  A thread that holds the lock starts a query on the state it finds and stores the state the query
  leaves when it is done. In between other threads may run; a thread does not release the lock while
  its query is running. The answers are recorded in the order in which the queries end.
\<close>

record 's query_system =
  qy_lock :: lock_state
  qy_state :: 's
  qy_run :: "nat \<Rightarrow> (string \<times> 's) option"
  qy_done :: "(string \<times> (string + http_query_result)) list"

inductive query_step :: "'s query_executor \<Rightarrow> 's query_system \<Rightarrow> 's query_system \<Rightarrow> bool" for run where
  query_lock: "lock_step (qy_lock s) l \<Longrightarrow>
    \<forall>t. qy_run s t \<noteq> None \<longrightarrow> ls_phase l t = ls_phase (qy_lock s) t \<Longrightarrow>
    query_step run s (s\<lparr>qy_lock := l\<rparr>)"
| query_begin: "holds (qy_lock s) t \<Longrightarrow> qy_run s t = None \<Longrightarrow>
    query_step run s (s\<lparr>qy_run := (qy_run s)(t := Some (sql, qy_state s))\<rparr>)"
| query_end: "qy_run s t = Some (sql, st) \<Longrightarrow> run sql st = (Some answer, st') \<Longrightarrow>
    query_step run s (s\<lparr>qy_state := st', qy_run := (qy_run s)(t := None), qy_done := qy_done s @ [(sql, answer)]\<rparr>)"

definition query_init :: "lock_policy \<Rightarrow> 's \<Rightarrow> 's query_system \<Rightarrow> bool" where
  "query_init policy st0 s \<longleftrightarrow>
     lock_init policy (qy_lock s) \<and> qy_state s = st0 \<and> qy_run s = (\<lambda>_. None) \<and> qy_done s = []"

text \<open>The queries one after the other, with their answers.\<close>

fun serial :: "'s query_executor \<Rightarrow> 's \<Rightarrow> (string \<times> (string + http_query_result)) list \<Rightarrow> 's \<Rightarrow> bool" where
  "serial run st [] st' \<longleftrightarrow> st' = st"
| "serial run st ((sql, answer) # qs) st' \<longleftrightarrow> fst (run sql st) = Some answer \<and> serial run (snd (run sql st)) qs st'"

lemma serial_append:
  "serial run st (qs @ [(sql, answer)]) st' \<longleftrightarrow> (\<exists>st1. serial run st qs st1 \<and> run sql st1 = (Some answer, st'))"
  by (induction run st qs st' rule: serial.induct) (auto simp: prod_eq_iff)

definition query_inv :: "'s query_executor \<Rightarrow> 's \<Rightarrow> 's query_system \<Rightarrow> bool" where
  "query_inv run st0 s \<longleftrightarrow> lock_inv (qy_lock s) \<and> policy_inv SERIAL_ALL (qy_lock s) \<and>
     (\<forall>t sql st. qy_run s t = Some (sql, st) \<longrightarrow> holds (qy_lock s) t \<and> st = qy_state s) \<and>
     serial run st0 (qy_done s) (qy_state s)"

lemma serial_all_holder:
  assumes "lock_inv l" "policy_inv SERIAL_ALL l" "holds l t" "holds l u"
  shows "t = u"
  using assms single_writer [OF assms(1)] by (auto simp: policy_inv_def holds_def)

lemma query_step_inv: "query_step run s s' \<Longrightarrow> query_inv run st0 s \<Longrightarrow> query_inv run st0 s'"
proof (induction rule: query_step.induct)
  case (query_lock s l)
  have old: "lock_inv (qy_lock s)" "policy_inv SERIAL_ALL (qy_lock s)" using query_lock(3) by (simp_all add: query_inv_def)
  have "lock_inv l" by (rule rwlock.inv_step [OF old(1) query_lock(1)])
  moreover have "policy_inv SERIAL_ALL l" by (rule policy_inv_step [OF query_lock(1) old(2)])
  moreover have "holds l t" if run: "qy_run s t = Some (sql, st)" for t sql st
  proof -
    have "holds (qy_lock s) t" using query_lock(3) run by (simp add: query_inv_def)
    moreover have "ls_phase l t = ls_phase (qy_lock s) t" using query_lock(2) run by simp
    ultimately show ?thesis by (simp add: holds_def)
  qed
  ultimately show ?case using query_lock(3) by (auto simp: query_inv_def)
next
  case (query_begin s t sql)
  then show ?case by (auto simp: query_inv_def)
next
  case (query_end s t sql st answer st')
  have inv: "lock_inv (qy_lock s)" "policy_inv SERIAL_ALL (qy_lock s)" "serial run st0 (qy_done s) (qy_state s)"
    using query_end(3) by (simp_all add: query_inv_def)
  have holder: "holds (qy_lock s) u \<and> st1 = qy_state s" if "qy_run s u = Some (sql1, st1)" for u sql1 st1
    using query_end(3) that by (simp add: query_inv_def)
  have t: "holds (qy_lock s) t" "st = qy_state s" using holder [OF query_end(1)] by simp_all
  have alone: "((qy_run s)(t := None)) u = None" for u
  proof (cases "qy_run s u")
    case (Some r)
    then have "holds (qy_lock s) u" using holder [of u "fst r" "snd r"] by simp
    from serial_all_holder [OF inv(1,2) t(1) this] show ?thesis by simp
  qed simp
  have "serial run st0 (qy_done s @ [(sql, answer)]) st'"
    unfolding serial_append using inv(3) query_end(2) t(2) by blast
  with inv(1,2) alone show ?case by (simp add: query_inv_def)
qed

interpretation queries: invariant_system "query_init SERIAL_ALL st0" "query_step run" "query_inv run st0"
proof
  show "query_inv run st0 s" if "query_init SERIAL_ALL st0 s" for s
    using that lock_init_inv by (auto simp: query_init_def query_inv_def policy_inv_def lock_init_def lock_manager_init_def)
qed (rule query_step_inv)

section \<open>Queries write table files only\<close>

definition tables_only :: "string \<Rightarrow> filesystem \<Rightarrow> db \<Rightarrow> bool" where
  [state_defs]: "tables_only data_dir fs db \<longleftrightarrow> (\<forall>p. (\<forall>name. p \<noteq> table_path data_dir name) \<longrightarrow> db_fs db p = fs p)"

lemma append_row_frame:
  "append_row_csv fs data_dir table vs = (r, fs') \<Longrightarrow> \<forall>name. p \<noteq> table_path data_dir name \<Longrightarrow> fs' p = fs p"
  by (auto simp: append_row_csv_def Let_def split: sum.splits)

lemma execute_insert_frame:
  "execute_insert stmt schema_dir data_dir db0 = (r, db1) \<Longrightarrow> tables_only data_dir (db_fs db0) db1"
  by (auto simp: execute_insert_def tables_only_def split: sum.splits prod.splits if_splits dest: append_row_frame)

lemma execute_select_frame: "execute_select stmt schema_dir data_dir db0 = (r, db1) \<Longrightarrow> db_fs db1 = db_fs db0"
  by (auto simp: execute_select_def execute_index_select_def
      split: sum.splits prod.splits if_splits option.splits)

lemma execute_statement_frame:
  "execute_statement stmt schema_dir data_dir db0 = (r, db1) \<Longrightarrow> tables_only data_dir (db_fs db0) db1"
  by (cases stmt) (auto simp: execute_statement_def tables_only_def execute_insert_frame [unfolded tables_only_def]
      dest: execute_select_frame)

lemma week8_engine_frame:
  "week8_engine_run \<lparr>req_sql = sql, req_schema_path = schema, req_data_path = Some data_dir\<rparr> rows0 db0 = (r, db1) \<Longrightarrow>
   tables_only data_dir (db_fs db0) db1"
  by (auto simp: week8_engine_run_def split: if_splits sum.splits parse_failure.splits fault.splits prod.splits
      dest: execute_statement_frame) (simp_all add: tables_only_def)

lemma core_execute_frame:
  "core_execute cap (Some week8_engine_run) (Some \<lparr>req_sql = sql, req_schema_path = schema, req_data_path = Some data_dir\<rparr>)
     result0 db0 = (r, db1) \<Longrightarrow> tables_only data_dir (db_fs db0) db1"
  by (auto simp: core_execute_def Let_def split: if_splits option.splits sum.splits prod.splits dest: week8_engine_frame)
    (simp_all add: tables_only_def)

lemma runtime_execute_query_frame:
  assumes "tables_only data_dir fs db0" "runtime_execute_query cap schema_dir data_dir sql db0 = (r, db1)"
  shows "tables_only data_dir fs db1"
proof -
  have "tables_only data_dir (db_fs db0) db1"
    using assms(2) by (auto simp: runtime_execute_query_def split: option.splits prod.splits if_splits dest: core_execute_frame)
  with assms(1) show ?thesis by (simp add: tables_only_def)
qed

interpretation runtime_files: query_service "runtime_execute_query cap schema_dir data_dir" "tables_only data_dir fs"
  by unfold_locales (rule runtime_execute_query_frame)

section \<open>Statements as request bodies\<close>

lemma render_tokens_NUL:
  assumes "list_all lexable ts"
  shows "NUL \<notin> set (render_tokens ts)"
proof -
  have "NUL \<notin> set (render_token t)" if "lexable t" for t
    using that
    by (cases t; cases "fst t")
      (auto simp: lexable_def render_token_def escape_quotes_def list_all_iff is_identifier_continue_def ctype_defs
        simple_token_type_def split: list.splits if_splits)
  with assms show ?thesis by (auto simp: render_tokens_def list_all_iff)
qed

lemma show_statement_text: "printable s \<Longrightarrow> c_str (show_statement s) = show_statement s"
  unfolding show_statement_def by (intro c_str_id render_tokens_NUL printable_lexable)

lemma show_insert_not_blank: "\<exists>xs. show_statement (Insert stmt) = CHR ''I'' # xs"
  by (simp add: show_statement_def render_tokens_def render_token_def)

lemma query_statement:
  assumes "cap_tmpfile cap" "cap_read cap" "proper_statement s" "printable s"
    "execute_statement s schema_dir data_dir db0 = (Inr ex, db1)" "ex_message ex \<noteq> []"
    "length (ex_message ex) < MESSAGE_CAPACITY" "int (ex_rows ex) \<le> INT_MAX" "show_statement s \<noteq> []"
  shows "runtime_execute_query cap schema_dir data_dir (show_statement s) db0 =
    (Some (Inr \<lparr>qr_ok = True, qr_affected_rows = int (ex_rows ex), qr_message = Some (ex_message ex),
       qr_output_text = Some (ex_output ex)\<rparr>), db1)"
proof -
  obtain tokens where lexed: "lex_sql (c_str (show_statement s)) = Inr tokens" "parse_statement tokens = Inr s"
    using show_statement_parsed [OF assms(3,4)] show_statement_text [OF assms(4)] by auto
  from core_execute_statement [OF assms(1,2) lexed assms(5-7)] assms(8,9) show_statement_text [OF assms(4)]
  show ?thesis by (simp add: runtime_execute_query_def clamp_affected_rows_def range_defs)
qed

section \<open>A query over HTTP\<close>

text \<open>A connection over which the text of a statement arrives as the body of a POST.\<close>

definition query_posted :: "string \<Rightarrow> recv_result list \<Rightarrow> bool" where
  "query_posted sql script \<longleftrightarrow> delivers script \<and> renderable ''POST'' ''/query'' ''text/plain'' sql \<and>
     stream_of script = render_request ''POST'' ''/query'' ''text/plain'' sql \<and>
     length (stream_of script) \<le> HTTP_DEFAULT_MAX_REQUEST_BYTES"

lemma query_posted_complete:
  assumes "query_posted sql script"
  shows "complete_request (Some HTTP_DEFAULT_MAX_REQUEST_BYTES) script (length (stream_of script))"
    "http_parse_request (take (length (stream_of script)) (stream_of script)) = Inr (rendered ''POST'' ''/query'' ''text/plain'' sql)"
proof -
  have max: "effective_max (limit_of (Some HTTP_DEFAULT_MAX_REQUEST_BYTES)) = HTTP_DEFAULT_MAX_REQUEST_BYTES"
    by (simp add: limit_of_def effective_max_def)
  have "HTTP_DEFAULT_MAX_REQUEST_BYTES \<le> SIZE_MAX" by (simp add: HTTP_DEFAULT_MAX_REQUEST_BYTES_def SIZE_MAX_def)
  then show "complete_request (Some HTTP_DEFAULT_MAX_REQUEST_BYTES) script (length (stream_of script))"
    using assms probe_rendered [of "''POST''" "''/query''" "''text/plain''" sql "limit_of (Some HTTP_DEFAULT_MAX_REQUEST_BYTES)"]
    by (auto simp: complete_request_def query_posted_def max)
  show "http_parse_request (take (length (stream_of script)) (stream_of script)) = Inr (rendered ''POST'' ''/query'' ''text/plain'' sql)"
    using assms parse_rendered by (simp add: query_posted_def)
qed

lemma text_plain_is_sql: "http_content_type_is_sql ''text/plain''"
  by code_simp

lemma route_query:
  assumes "run sql st = (Some (Inr \<lparr>qr_ok = True, qr_affected_rows = rows, qr_message = Some m, qr_output_text = Some out\<rparr>), st')"
    "NUL \<notin> set sql" "\<not> list_all isspace sql"
  shows "http_route_request (Some run) (rendered ''POST'' ''/query'' ''text/plain'' sql) c st =
    (Some (http_return_query_response True 200 ''/query'' None m rows (Some out) c), st')"
  using assms text_plain_is_sql
  by (auto simp: http_route_request_def rendered_def http_text_is_blank_def http_parse_debug_sleep_ms_def c_str_id Let_def)

lemma query_response_sent:
  assumes "cl_send c = []" "int (length (response_text 200 body)) \<le> INT_MAX"
    "body = query_json True 200 (Some path) None (Some m) rows out"
  shows "http_return_query_response True 200 path None m rows out c =
    (True, 200, c\<lparr>cl_sent := cl_sent c @ response_text 200 body\<rparr>)"
proof -
  have "length body \<le> length (response_text 200 body)" by (simp add: response_text_def)
  then have "http_build_query_response True 200 (Some path) None (Some m) rows out = Inr (response_text 200 body)"
    using assms(2,3) by (simp add: http_build_query_response_def printed_def http_wrap_json_response_def)
  then show ?thesis using assms(1)
    by (simp add: http_return_query_response_def http_write_query_response_def http_send_all_def)
qed

text \<open>The response to a successful INSERT.\<close>

definition insert_response :: string where
  "insert_response = response_text 200 (query_json True 200 (Some ''/query'') None (Some ''INSERT 1'') 1 (Some []))"

lemma insert_response_fits: "int (length insert_response) \<le> INT_MAX"
  by code_simp

lemma insert_over_http:
  assumes "cap_tmpfile cap" "cap_read cap" "proper_statement (Insert stmt)" "printable (Insert stmt)"
    "query_posted (show_statement (Insert stmt)) script" "cl_send c = []"
    "execute_statement (Insert stmt) schema_dir data_dir db0 = (Inr \<lparr>ex_rows = 1, ex_message = ''INSERT 1'', ex_output = []\<rparr>, db1)"
  shows "\<exists>t' c' g'. http_server_handle_client w (Some HTTP_DEFAULT_MAX_REQUEST_BYTES)
      (Some (runtime_execute_query cap schema_dir data_dir)) (Some t) (with_recv script c) g db0 =
      (Some (True, Some t', c', g'), db1) \<and> tr_status_code t' = 200 \<and> cl_sent c' = cl_sent c @ insert_response \<and> \<not> cl_open c'"
proof -
  let ?sql = "show_statement (Insert stmt)"
  let ?run = "runtime_execute_query cap schema_dir data_dir"
  obtain xs where xs: "?sql = CHR ''I'' # xs" using show_insert_not_blank by blast
  have sql: "NUL \<notin> set ?sql" "\<not> list_all isspace ?sql"
    using show_statement_text [OF assms(4)] NUL_notin_c_str [of ?sql] by (simp, simp add: xs ctype_defs)
  have "?run ?sql db0 =
    (Some (Inr \<lparr>qr_ok = True, qr_affected_rows = 1, qr_message = Some ''INSERT 1'', qr_output_text = Some []\<rparr>), db1)"
    using query_statement [OF assms(1-4,7)] xs by (simp add: MESSAGE_CAPACITY_def range_defs)
  from route_query [of ?run ?sql db0, OF this sql, of c] query_response_sent [OF assms(6) insert_response_fits [unfolded insert_response_def] refl]
  have "http_route_request (Some ?run) (rendered ''POST'' ''/query'' ''text/plain'' ?sql) c db0 =
      (Some (True, 200, c\<lparr>cl_sent := cl_sent c @ insert_response\<rparr>), db1)"
    by (simp add: insert_response_def)
  from handle_client_routed [OF query_posted_complete [OF assms(5)] this, of w t g] show ?thesis by auto
qed

section \<open>The theorems of the composed layers\<close>

text \<open>
  C1 (INSERT over HTTP): a POST of the text of a valid INSERT, in whatever portions it arrives, is
  answered with status 200, one affected row and the message \<open>INSERT 1\<close>; the connection is closed,
  and when the client reads the answer the row has been appended to the table, no other file has
  changed and the index is consistent with the new file.
\<close>

theorem insert_over_http_stores_row:
  assumes "cap_tmpfile cap" "cap_read cap" "proper_statement (Insert stmt)" "printable (Insert stmt)"
    "query_posted (show_statement (Insert stmt)) (cl_recv c)" "cl_send c = []" "cl_sent c = []"
    "load_schema (db_fs db0) schema_dir data_dir (ins_table stmt) = Inr sch"
    "distinct (sch_columns sch)" "valid_insert stmt sch" "one_line_row (insert_row stmt sch)"
    "registry_ok (db_fs db0) data_dir (db_reg db0)" "\<not> reg_force (db_reg db0)"
    "table_rows (db_fs db0) data_dir (sch_storage sch) rows" "int (length rows) + 1 < INT_MAX"
  shows "\<exists>t' c' g' db1 offset. http_server_handle_client w (Some HTTP_DEFAULT_MAX_REQUEST_BYTES)
      (Some (runtime_execute_query cap schema_dir data_dir)) (Some t) c g db0 = (Some (True, Some t', c', g'), db1) \<and>
    cl_sent c' = response_text 200 (query_json True 200 (Some ''/query'') None (Some ''INSERT 1'') 1 (Some [])) \<and>
    \<not> cl_open c' \<and> tr_status_code t' = 200 \<and>
    table_rows (db_fs db1) data_dir (sch_storage sch) (rows @ [(offset, map csv_stored (insert_row stmt sch))]) \<and>
    registry_ok (db_fs db1) data_dir (db_reg db1) \<and>
    (\<forall>p. p \<noteq> table_path data_dir (sch_storage sch) \<longrightarrow> db_fs db1 p = db_fs db0 p)"
proof -
  obtain offset db1 where ex: "execute_statement (Insert stmt) schema_dir data_dir db0 =
      (Inr \<lparr>ex_rows = 1, ex_message = ''INSERT 1'', ex_output = []\<rparr>, db1)"
    and db1: "table_rows (db_fs db1) data_dir (sch_storage sch) (rows @ [(offset, map csv_stored (insert_row stmt sch))])"
      "registry_ok (db_fs db1) data_dir (db_reg db1)" "grown (db_fs db0) (db_fs db1) data_dir (sch_storage sch)"
    using execute_insert_ok [OF assms(8-15)] by (auto simp: execute_statement_def)
  have c: "with_recv (cl_recv c) c = c" by (simp add: with_recv_def)
  from insert_over_http [OF assms(1-6) ex, of w t g] db1 assms(7) show ?thesis
    unfolding c insert_response_def grown_def by auto
qed

theorem insert_over_http_stores_row_witness:
  "\<exists>t' c' g' db1 offset. http_server_handle_client 0 (Some HTTP_DEFAULT_MAX_REQUEST_BYTES)
      (Some (runtime_execute_query \<lparr>cap_tmpfile = True, cap_read = True\<rparr> ''s'' ''d'')) (Some http_request_trace_init)
      \<lparr>cl_recv = [Received (render_request ''POST'' ''/query'' ''text/plain''
          (show_statement (Insert \<lparr>ins_table = ''t'', ins_columns = [''age''], ins_values = [''7'']\<rparr>)))],
        cl_send = [], cl_sent = [], cl_open = True\<rparr>
      \<lparr>hg_request_sequence = 0, hg_stdout = []\<rparr> \<lparr>db_fs = sample_fs, db_reg = registry_empty\<rparr> = (Some (True, Some t', c', g'), db1) \<and>
    cl_sent c' = response_text 200 (query_json True 200 (Some ''/query'') None (Some ''INSERT 1'') 1 (Some [])) \<and>
    table_rows (db_fs db1) ''d'' (sch_storage sample_schema) ([(9, [''kim'', ''3''])] @ [(offset, [[], ''7''])])"
proof -
  let ?stmt = "\<lparr>ins_table = ''t'', ins_columns = [''age''], ins_values = [''7'']\<rparr>"
  let ?sql = "show_statement (Insert ?stmt)"
  have "?sql = ''INSERT INTO t ( age ) VALUES ( '' @ [SQUOTE] @ ''7'' @ [SQUOTE] @ '' ) ; ''" by code_simp
  moreover have "proper_statement (Insert ?stmt)" "printable (Insert ?stmt)" by code_simp+
  moreover have "valid_insert ?stmt sample_schema" "one_line_row (insert_row ?stmt sample_schema)"
    "map csv_stored (insert_row ?stmt sample_schema) = [[], ''7'']" by code_simp+
  moreover have "query_posted (''INSERT INTO t ( age ) VALUES ( '' @ [SQUOTE] @ ''7'' @ [SQUOTE] @ '' ) ; '')
      [Received (render_request ''POST'' ''/query'' ''text/plain''
        (''INSERT INTO t ( age ) VALUES ( '' @ [SQUOTE] @ ''7'' @ [SQUOTE] @ '' ) ; ''))]"
    by (simp add: query_posted_def delivers_def stream_of_def renderable_def token_ok_def header_value_ok_def SIZE_MAX_def
        ctype_defs render_request_def CRLF_def HTTP_DEFAULT_MAX_REQUEST_BYTES_def show_nat.simps)
  ultimately show ?thesis
    using insert_over_http_stores_row [of "\<lparr>cap_tmpfile = True, cap_read = True\<rparr>" ?stmt
        "\<lparr>cl_recv = [Received (render_request ''POST'' ''/query'' ''text/plain'' ?sql)],
          cl_send = [], cl_sent = [], cl_open = True\<rparr>"
        "\<lparr>db_fs = sample_fs, db_reg = registry_empty\<rparr>" "''s''" "''d''" sample_schema "[(9, [''kim'', ''3''])]" 0
        http_request_trace_init "\<lparr>hg_request_sequence = 0, hg_stdout = []\<rparr>"] sample_db
    by (auto simp: range_defs)
qed

text \<open>
  C2 (queries are serialized): the runtime runs every query under the lock with the policy
  \<open>SERIAL_ALL\<close>. In every reachable state of any number of threads, the database and the answers given
  so far are those of running the finished queries one after the other, in the order in which they
  ended; a running query works on the current database.
\<close>

theorem queries_serialized:
  assumes "reachable (query_init SERIAL_ALL db0) (query_step (runtime_execute_query cap schema_dir data_dir)) s"
  shows "serial (runtime_execute_query cap schema_dir data_dir) db0 (qy_done s) (qy_state s) \<and>
    (\<forall>t sql db. qy_run s t = Some (sql, db) \<longrightarrow> db = qy_state s)"
  using queries.reachable_inv [OF assms] by (simp add: query_inv_def)

theorem queries_serialized_witness:
  "\<exists>s :: db query_system. qy_run s 1 = Some (''SELECT'', \<lparr>db_fs = sample_fs, db_reg = registry_empty\<rparr>) \<and>
    serial (runtime_execute_query \<lparr>cap_tmpfile = True, cap_read = True\<rparr> ''s'' ''d'')
      \<lparr>db_fs = sample_fs, db_reg = registry_empty\<rparr> (qy_done s) (qy_state s)"
proof -
  let ?run = "runtime_execute_query \<lparr>cap_tmpfile = True, cap_read = True\<rparr> ''s'' ''d''"
  let ?db = "\<lparr>db_fs = sample_fs, db_reg = registry_empty\<rparr>"
  let ?m = "lock_manager_init SERIAL_ALL"
  let ?s0 = "\<lparr>qy_lock = \<lparr>ls_lock = ?m, ls_phase = (\<lambda>_. Idle)\<rparr>, qy_state = ?db, qy_run = (\<lambda>_. None), qy_done = []\<rparr>"
  let ?l = "\<lparr>ls_lock = enter_write (announce_writer ?m), ls_phase = (\<lambda>_. Idle)(1 := Writing)\<rparr>"
  let ?s1 = "?s0\<lparr>qy_lock := ?l\<rparr>"
  let ?s2 = "?s1\<lparr>qy_run := (qy_run ?s1)(1 := Some (''SELECT'', qy_state ?s1))\<rparr>"
  let ?R = "reachable (query_init SERIAL_ALL ?db) (query_step ?run)"
  have "?R ?s0" by (rule reach_init) (simp add: query_init_def lock_init_def)
  moreover have "lock_step (qy_lock ?s0) ?l"
    using write_enter [where mode = MODE_WRITE and m = ?m and ph = "\<lambda>_. Idle" and t = 1]
    by (simp add: effective_lock_mode_def lock_manager_init_def lock_updates)
  then have "query_step ?run ?s0 ?s1" by (rule query_lock) simp
  moreover have "query_step ?run ?s1 ?s2" by (rule query_begin) (simp_all add: holds_def)
  ultimately have "?R ?s2" by (meson reach_step)
  from queries_serialized [OF this] show ?thesis by (intro exI [of _ ?s2]) simp
qed



end
