(* ===== verification/Runtime_Config.thy ===== *)
theory Runtime_Config
  imports Files "HOL-Library.Sublist"
begin

text \<open>
  The configuration of the server, \<open>SERVER-RUNTIME/src/runtime_config.c\<close>: path handling, the search
  for the root of the repository, the overrides from the environment and from the command line, and
  the final checks. The environment is a function from names to values, \<open>getcwd\<close> an optional
  string, \<open>stat\<close> a lookup in the file system. The error buffer has the 256 bytes of its caller. The
  search for the repository root is a loop that need not end; \<open>None\<close> is a run that does not return.
\<close>

section \<open>The configuration\<close>

record server_config =
  cfg_port :: int
  cfg_worker_count :: int
  cfg_show_help :: bool
  cfg_program_path :: string
  cfg_working_directory :: string
  cfg_repo_root :: string
  cfg_schema_dir :: string
  cfg_data_dir :: string

record override_state =
  ov_port_set :: bool
  ov_worker_count_set :: bool
  ov_repo_root_set :: bool
  ov_schema_dir_set :: bool
  ov_data_dir_set :: bool

definition SERVER_RUNTIME_PATH_MAX :: nat where
  "SERVER_RUNTIME_PATH_MAX = 1024"

definition SERVER_RUNTIME_DEFAULT_PORT :: int where
  "SERVER_RUNTIME_DEFAULT_PORT = 8080"

definition SERVER_RUNTIME_DEFAULT_WORKER_COUNT :: int where
  "SERVER_RUNTIME_DEFAULT_WORKER_COUNT = 4"

definition config_error :: "string \<Rightarrow> 'a outcome" where
  "config_error m = Inl (snprintf 256 m)"

definition no_overrides :: override_state where
  "no_overrides = \<lparr>ov_port_set = False, ov_worker_count_set = False, ov_repo_root_set = False,
     ov_schema_dir_set = False, ov_data_dir_set = False\<rparr>"

definition server_runtime_config_init :: server_config where
  "server_runtime_config_init = \<lparr>cfg_port = SERVER_RUNTIME_DEFAULT_PORT,
     cfg_worker_count = SERVER_RUNTIME_DEFAULT_WORKER_COUNT, cfg_show_help = False, cfg_program_path = [],
     cfg_working_directory = [], cfg_repo_root = [], cfg_schema_dir = [], cfg_data_dir = []\<rparr>"

section \<open>Values and paths\<close>

text \<open>Copying into a path buffer of the configuration.\<close>

definition copy_text :: "string \<Rightarrow> string outcome" where
  "copy_text source =
     (if length source \<ge> SERVER_RUNTIME_PATH_MAX then config_error (''path is too long: '' @ source) else Inr source)"

definition parse_int_value :: "string \<Rightarrow> int option" where
  "parse_int_value text =
     (if text = [] then None
      else let r = strtol text in
        if st_erange r \<or> \<not> st_converted r \<or> st_rest r \<noteq> [] then None
        else if st_value r < INT_MIN \<or> st_value r > INT_MAX then None
        else Some (st_value r))"

definition is_separator :: "char \<Rightarrow> bool" where
  "is_separator c \<longleftrightarrow> c = CHR ''/'' \<or> c = BACKSLASH"

definition path_is_absolute :: "string \<Rightarrow> bool" where
  "path_is_absolute path \<longleftrightarrow>
     path \<noteq> [] \<and>
     (is_separator (char_at path 0) \<or>
      char_at path 1 = CHR '':'' \<and> (char_at path 2 = NUL \<or> is_separator (char_at path 2)))"

function trim_trailing_separators :: "string \<Rightarrow> string" where
  "trim_trailing_separators path =
     (if length path > 1 \<and> is_separator (last path)
      then if length path = 3 \<and> path ! 1 = CHR '':'' then path else trim_trailing_separators (butlast path)
      else path)"
  by pat_completeness auto
termination by (relation "measure length") auto

declare trim_trailing_separators.simps [simp del]

definition join_path :: "string \<Rightarrow> string \<Rightarrow> string outcome" where
  "join_path left right =
     (let rest = dropWhile is_separator right;
          path = (if left \<noteq> [] \<and> \<not> is_separator (last left) then left @ ''/'' @ rest else left @ rest)
      in if length path \<ge> SERVER_RUNTIME_PATH_MAX
         then config_error (''path is too long while joining '' @ [SQUOTE] @ left @ [SQUOTE] @ '' and '' @ [SQUOTE] @ right @ [SQUOTE])
         else Inr path)"

definition directory_exists :: "filesystem \<Rightarrow> string \<Rightarrow> bool" where
  "directory_exists fs path \<longleftrightarrow> path \<noteq> [] \<and> (\<exists>es. fs path = Some (Directory es))"

definition file_exists :: "filesystem \<Rightarrow> string \<Rightarrow> bool" where
  "file_exists fs path \<longleftrightarrow> path \<noteq> [] \<and> fs path \<noteq> None"

lemma directory_exists_code [code]:
  "directory_exists fs path \<longleftrightarrow> path \<noteq> [] \<and> (case fs path of Some (Directory es) \<Rightarrow> True | _ \<Rightarrow> False)"
  by (auto simp: directory_exists_def split: option.splits fnode.splits)

definition get_current_working_directory :: "string option \<Rightarrow> string outcome" where
  "get_current_working_directory cwd =
     (case cwd of
        None \<Rightarrow> config_error ''failed to resolve current working directory''
      | Some path \<Rightarrow>
          if length path \<ge> SERVER_RUNTIME_PATH_MAX then config_error ''failed to resolve current working directory''
          else Inr (trim_trailing_separators path))"

text \<open>The second loop of \<open>parent_directory\<close>, which cuts separators off the prefix it has found.\<close>

function strip_separators :: "string \<Rightarrow> string" where
  "strip_separators path =
     (if length path > 1 \<and> is_separator (last path) then strip_separators (butlast path) else path)"
  by pat_completeness auto
termination by (relation "measure length") auto

declare strip_separators.simps [simp del]

text \<open>The result of \<open>parent_directory\<close> and the path it leaves in the buffer.\<close>

definition parent_directory :: "string \<Rightarrow> bool \<times> string" where
  "parent_directory path =
     (if path = [] then (False, path)
      else let p = trim_trailing_separators path;
               n = length (dropWhile (\<lambda>c. \<not> is_separator c) (rev p))
           in if n = 0 then (False, p)
              else if n = 3 \<and> p ! 1 = CHR '':'' then (False, take n p)
              else (True, strip_separators (take n p)))"

section \<open>The root of the repository\<close>

definition is_repo_root :: "filesystem \<Rightarrow> string \<Rightarrow> bool" where
  "is_repo_root fs candidate =
     (case join_path candidate ''PLAN.md'' of
        Inl _ \<Rightarrow> False
      | Inr plan \<Rightarrow> file_exists fs plan \<and>
     (case join_path candidate ''SERVER-RUNTIME'' of
        Inl _ \<Rightarrow> False
      | Inr runtime \<Rightarrow> directory_exists fs runtime \<and>
     (case join_path candidate ''week8-team7-db-api'' of
        Inl _ \<Rightarrow> False
      | Inr project \<Rightarrow> directory_exists fs project)))"

partial_function (option) find_root_loop :: "filesystem \<Rightarrow> string \<Rightarrow> string option option" where
  "find_root_loop fs current =
     (if current = [] then Some None
      else if is_repo_root fs current then Some (Some current)
      else if fst (parent_directory current) then find_root_loop fs (snd (parent_directory current))
      else Some None)"

definition find_repo_root_from_start :: "filesystem \<Rightarrow> string \<Rightarrow> string option option" where
  "find_repo_root_from_start fs start_path =
     (if start_path = [] then Some None
      else case copy_text start_path of
        Inl _ \<Rightarrow> Some None
      | Inr current \<Rightarrow> find_root_loop fs (trim_trailing_separators current))"

definition resolve_program_directory :: "string \<Rightarrow> string \<Rightarrow> string outcome" where
  "resolve_program_directory program_path working_directory =
     (if program_path = [] then Inr []
      else if \<not> list_ex is_separator program_path then Inr []
      else
        sbind (if path_is_absolute program_path then copy_text program_path
               else join_path working_directory program_path) (\<lambda>absolute_path.
        sbind (copy_text absolute_path) (\<lambda>program_directory.
        case parent_directory program_directory of (found, dir) \<Rightarrow> Inr (if found then dir else []))))"

definition resolve_repo_root :: "filesystem \<Rightarrow> server_config \<Rightarrow> server_config outcome option" where
  "resolve_repo_root fs config =
     (if cfg_repo_root config \<noteq> []
      then Some (Inr (config\<lparr>cfg_repo_root := trim_trailing_separators (cfg_repo_root config)\<rparr>))
      else case find_repo_root_from_start fs (cfg_working_directory config) of
        None \<Rightarrow> None
      | Some (Some root) \<Rightarrow> Some (Inr (config\<lparr>cfg_repo_root := root\<rparr>))
      | Some None \<Rightarrow>
     (case resolve_program_directory (cfg_program_path config) (cfg_working_directory config) of
        Inl e \<Rightarrow> Some (Inl e)
      | Inr program_directory \<Rightarrow>
          if program_directory = [] then Some (Inr config)
          else (case find_repo_root_from_start fs program_directory of
              None \<Rightarrow> None
            | Some (Some root) \<Rightarrow> Some (Inr (config\<lparr>cfg_repo_root := root\<rparr>))
            | Some None \<Rightarrow> Some (Inr config))))"

section \<open>Overrides\<close>

type_synonym configuration = "server_config \<times> override_state"

definition set_port :: "int \<Rightarrow> configuration \<Rightarrow> configuration" where
  "set_port port = (\<lambda>(config, state). (config\<lparr>cfg_port := port\<rparr>, state\<lparr>ov_port_set := True\<rparr>))"

definition set_worker_count :: "int \<Rightarrow> configuration \<Rightarrow> configuration" where
  "set_worker_count n = (\<lambda>(config, state). (config\<lparr>cfg_worker_count := n\<rparr>, state\<lparr>ov_worker_count_set := True\<rparr>))"

definition set_repo_root :: "string \<Rightarrow> configuration \<Rightarrow> configuration" where
  "set_repo_root path = (\<lambda>(config, state). (config\<lparr>cfg_repo_root := path\<rparr>, state\<lparr>ov_repo_root_set := True\<rparr>))"

definition set_schema_dir :: "string \<Rightarrow> configuration \<Rightarrow> configuration" where
  "set_schema_dir path = (\<lambda>(config, state). (config\<lparr>cfg_schema_dir := path\<rparr>, state\<lparr>ov_schema_dir_set := True\<rparr>))"

definition set_data_dir :: "string \<Rightarrow> configuration \<Rightarrow> configuration" where
  "set_data_dir path = (\<lambda>(config, state). (config\<lparr>cfg_data_dir := path\<rparr>, state\<lparr>ov_data_dir_set := True\<rparr>))"

definition apply_directory_override :: "string \<Rightarrow> string outcome" where
  "apply_directory_override path =
     (if path = [] then config_error ''empty directory path is not allowed'' else copy_text path)"

text \<open>A numeric setting, with the text that introduces the value in the error message.\<close>

definition override_number ::
    "(int \<Rightarrow> configuration \<Rightarrow> configuration) \<Rightarrow> string \<Rightarrow> string \<Rightarrow> configuration \<Rightarrow> configuration outcome" where
  "override_number upd what text cs =
     (case parse_int_value text of None \<Rightarrow> config_error (''invalid '' @ what @ '' value: '' @ text) | Some n \<Rightarrow> Inr (upd n cs))"

definition override_directory ::
    "(string \<Rightarrow> configuration \<Rightarrow> configuration) \<Rightarrow> string \<Rightarrow> configuration \<Rightarrow> configuration outcome" where
  "override_directory upd path cs = sbind (apply_directory_override path) (\<lambda>p. Inr (upd p cs))"

text \<open>A variable of the environment counts when it is set and not empty.\<close>

definition from_env ::
    "(string \<Rightarrow> string option) \<Rightarrow> string \<Rightarrow> (string \<Rightarrow> configuration \<Rightarrow> configuration outcome) \<Rightarrow>
     configuration \<Rightarrow> configuration outcome" where
  "from_env env name use cs =
     (case env name of None \<Rightarrow> Inr cs | Some v \<Rightarrow> if v = [] then Inr cs else use v cs)"

definition load_env_overrides :: "(string \<Rightarrow> string option) \<Rightarrow> configuration \<Rightarrow> configuration outcome" where
  "load_env_overrides env cs =
     sbind (from_env env ''DB_SERVER_PORT'' (override_number set_port ''DB_SERVER_PORT'') cs) (\<lambda>cs1.
     sbind (from_env env ''DB_SERVER_WORKERS'' (override_number set_worker_count ''DB_SERVER_WORKERS'') cs1) (\<lambda>cs2.
     sbind (from_env env ''DB_SERVER_REPO_ROOT'' (override_directory set_repo_root) cs2) (\<lambda>cs3.
     sbind (from_env env ''DB_SCHEMA_DIR'' (override_directory set_schema_dir) cs3) (\<lambda>cs4.
     from_env env ''DB_DATA_DIR'' (override_directory set_data_dir) cs4))))"

text \<open>The options that take a value, and how they use it.\<close>

definition option_use :: "string \<Rightarrow> (string \<Rightarrow> configuration \<Rightarrow> configuration outcome) option" where
  "option_use argument =
     (if argument = ''--port'' then Some (override_number set_port ''port'')
      else if argument = ''--workers'' \<or> argument = ''--worker-count''
      then Some (override_number set_worker_count ''worker count'')
      else if argument = ''--repo-root'' then Some (override_directory set_repo_root)
      else if argument = ''--schema-dir'' then Some (override_directory set_schema_dir)
      else if argument = ''--data-dir'' then Some (override_directory set_data_dir)
      else None)"

text \<open>
  The loop over the arguments behind the program name, with the number of positional arguments seen.
\<close>

fun cli_loop :: "string list \<Rightarrow> nat \<Rightarrow> configuration \<Rightarrow> (nat \<times> configuration) outcome" where
  "cli_loop [] positional_count cs = Inr (positional_count, cs)"
| "cli_loop (argument # rest) positional_count cs =
     (if argument = ''-h'' \<or> argument = ''--help''
      then cli_loop rest positional_count (apfst (\<lambda>config. config\<lparr>cfg_show_help := True\<rparr>) cs)
      else case option_use argument of
        Some use \<Rightarrow>
          (case rest of
             [] \<Rightarrow> config_error (''missing value after '' @ argument)
           | v # rest' \<Rightarrow> sbind (use v cs) (cli_loop rest' positional_count))
      | None \<Rightarrow>
          if char_at argument 0 = CHR ''-'' \<and> char_at argument 1 \<noteq> NUL
          then config_error (''unknown option: '' @ argument)
          else if positional_count = 0 then
            sbind (override_number set_port ''port'' argument cs) (cli_loop rest (positional_count + 1))
          else if positional_count = 1 then
            sbind (override_number set_worker_count ''worker count'' argument cs) (cli_loop rest (positional_count + 1))
          else config_error (''unexpected extra argument: '' @ argument))"

definition load_cli_overrides :: "string list \<Rightarrow> configuration \<Rightarrow> configuration outcome" where
  "load_cli_overrides argv cs = sbind (cli_loop (drop 1 argv) 0 cs) (\<lambda>(n, cs'). Inr cs')"

section \<open>Default paths, checks and loading\<close>

definition derive_default_paths :: "server_config \<Rightarrow> override_state \<Rightarrow> server_config outcome" where
  "derive_default_paths config state =
     (if cfg_repo_root config = [] then
        (if \<not> ov_schema_dir_set state \<or> \<not> ov_data_dir_set state
         then config_error (''failed to infer repo root; set DB_SERVER_REPO_ROOT or pass --repo-root/--schema-dir/--data-dir'')
         else Inr config)
      else
        sbind (join_path (cfg_repo_root config) ''week8-team7-db-api'') (\<lambda>project_root.
        sbind (if ov_schema_dir_set state then Inr config
               else sbind (join_path project_root ''schema'') (\<lambda>p. Inr (config\<lparr>cfg_schema_dir := p\<rparr>))) (\<lambda>config1.
        if ov_data_dir_set state then Inr config1
        else sbind (join_path project_root ''data'') (\<lambda>p. Inr (config1\<lparr>cfg_data_dir := p\<rparr>)))))"

definition validate_config :: "filesystem \<Rightarrow> server_config \<Rightarrow> unit outcome" where
  "validate_config fs config =
     (if cfg_port config < 1 \<or> cfg_port config > 65535 then config_error ''port must be between 1 and 65535''
      else if cfg_worker_count config < 1 then config_error ''worker count must be at least 1''
      else if cfg_schema_dir config = [] then config_error ''schema directory is not configured''
      else if cfg_data_dir config = [] then config_error ''data directory is not configured''
      else if \<not> directory_exists fs (cfg_schema_dir config)
      then config_error (''schema directory does not exist: '' @ cfg_schema_dir config)
      else if \<not> directory_exists fs (cfg_data_dir config)
      then config_error (''data directory does not exist: '' @ cfg_data_dir config)
      else if cfg_repo_root config \<noteq> [] \<and> \<not> directory_exists fs (cfg_repo_root config)
      then config_error (''repo root does not exist: '' @ cfg_repo_root config)
      else Inr ())"

text \<open>The part of the loading that reads the environment and the arguments.\<close>

definition read_overrides ::
    "string option \<Rightarrow> (string \<Rightarrow> string option) \<Rightarrow> string list \<Rightarrow> configuration outcome" where
  "read_overrides cwd env argv =
     sbind (case argv of [] \<Rightarrow> Inr server_runtime_config_init
            | program # _ \<Rightarrow> sbind (copy_text program) (\<lambda>p. Inr (server_runtime_config_init\<lparr>cfg_program_path := p\<rparr>))) (\<lambda>config.
     sbind (get_current_working_directory cwd) (\<lambda>dir.
     sbind (load_env_overrides env (config\<lparr>cfg_working_directory := dir\<rparr>, no_overrides)) (\<lambda>cs.
     load_cli_overrides argv cs)))"

definition server_runtime_config_load ::
    "filesystem \<Rightarrow> string option \<Rightarrow> (string \<Rightarrow> string option) \<Rightarrow> string list \<Rightarrow> server_config outcome option" where
  "server_runtime_config_load fs cwd env argv =
     (case read_overrides cwd env argv of
        Inl e \<Rightarrow> Some (Inl e)
      | Inr (config, state) \<Rightarrow>
          if cfg_show_help config then Some (Inr config)
          else (case resolve_repo_root fs config of
              None \<Rightarrow> None
            | Some (Inl e) \<Rightarrow> Some (Inl e)
            | Some (Inr config1) \<Rightarrow>
                Some (sbind (derive_default_paths config1 state) (\<lambda>config2.
                      sbind (validate_config fs config2) (\<lambda>_. Inr config2)))))"

text \<open>The lines of the usage text.\<close>

definition server_runtime_print_usage :: "string \<Rightarrow> string list" where
  "server_runtime_print_usage program_name =
     (let name = (if program_name \<noteq> [] then program_name else ''db_server'') in
      [''Usage: '' @ name @ '' <port> [worker_count] [options]'',
       ''       '' @ name @ '' [options]'',
       [],
       ''Options:'',
       ''  --port <port>            Override listen port (default: '' @ show_int SERVER_RUNTIME_DEFAULT_PORT @ '')'',
       ''  --workers <count>        Override worker count (default: '' @ show_int SERVER_RUNTIME_DEFAULT_WORKER_COUNT @ '')'',
       ''  --repo-root <path>       Root directory that contains PLAN.md and week8-team7-db-api/'',
       ''  --schema-dir <path>      Explicit schema directory'',
       ''  --data-dir <path>        Explicit data directory'',
       ''  -h, --help               Show this help message'',
       [],
       ''Environment:'',
       ''  DB_SERVER_PORT, DB_SERVER_WORKERS'',
       ''  DB_SERVER_REPO_ROOT, DB_SCHEMA_DIR, DB_DATA_DIR'',
       [],
       ''Default path resolution:'',
       ''  <repo_root>/week8-team7-db-api/schema'',
       ''  <repo_root>/week8-team7-db-api/data''])"

section \<open>Paths only get shorter on the way up\<close>

lemma trim_prefix: "prefix (trim_trailing_separators p) p"
proof (induction p rule: trim_trailing_separators.induct)
  case (1 p)
  then show ?case
    by (subst trim_trailing_separators.simps) (auto intro: prefix_order.trans [OF _ prefixeq_butlast])
qed

lemma trim_nonempty: "p \<noteq> [] \<Longrightarrow> trim_trailing_separators p \<noteq> []"
proof (induction p rule: trim_trailing_separators.induct)
  case (1 p)
  then show ?case by (subst trim_trailing_separators.simps) (auto simp: butlast_conv_take)
qed

lemma strip_prefix: "prefix (strip_separators p) p"
proof (induction p rule: strip_separators.induct)
  case (1 p)
  then show ?case by (subst strip_separators.simps) (auto intro: prefix_order.trans [OF _ prefixeq_butlast])
qed

lemma strip_nonempty: "p \<noteq> [] \<Longrightarrow> strip_separators p \<noteq> []"
proof (induction p rule: strip_separators.induct)
  case (1 p)
  then show ?case by (subst strip_separators.simps) (auto simp: butlast_conv_take)
qed

lemma parent_prefix: "prefix (snd (parent_directory p)) p"
  using trim_prefix [of p] strip_prefix
  by (auto simp: parent_directory_def Let_def intro: prefix_order.trans [OF _ trim_prefix] prefix_order.trans [OF strip_prefix] take_is_prefix)

text \<open>An absolute path of a POSIX system, whose second character is not the colon of a drive.\<close>

definition rooted :: "string \<Rightarrow> bool" where
  "rooted p \<longleftrightarrow> p \<noteq> [] \<and> is_separator (hd p) \<and> char_at p 1 \<noteq> CHR '':''"

lemma rooted_prefix: "rooted p \<Longrightarrow> prefix q p \<Longrightarrow> q \<noteq> [] \<Longrightarrow> rooted q"
  by (auto simp: rooted_def prefix_def char_at_def nth_append split: if_splits)

lemma parent_rooted:
  assumes "rooted p"
  shows "fst (parent_directory p)" "rooted (snd (parent_directory p))"
proof -
  let ?t = "trim_trailing_separators p"
  let ?n = "length (dropWhile (\<lambda>c. \<not> is_separator c) (rev ?t))"
  have t: "rooted ?t"
    using assms rooted_prefix [OF assms trim_prefix] trim_nonempty by (simp add: rooted_def)
  have "\<exists>c \<in> set (rev ?t). \<not> \<not> is_separator c" using t by (auto simp: rooted_def intro: bexI [of _ "hd ?t"])
  then have n: "?n \<noteq> 0" by (auto simp: dropWhile_eq_Nil_conv)
  have drive: "\<not> (?n = 3 \<and> ?t ! 1 = CHR '':'')"
  proof
    assume "?n = 3 \<and> ?t ! 1 = CHR '':''"
    then have "3 \<le> length ?t" using length_dropWhile_le [of "\<lambda>c. \<not> is_separator c" "rev ?t"] by simp
    with t \<open>?n = 3 \<and> ?t ! 1 = CHR '':''\<close> show False by (simp add: rooted_def char_at_def)
  qed
  have p: "p \<noteq> []" using assms by (simp add: rooted_def)
  show "fst (parent_directory p)" using n drive p by (simp add: parent_directory_def Let_def)
  have "snd (parent_directory p) = strip_separators (take ?n ?t)"
    unfolding parent_directory_def Let_def using n drive p by (simp only: if_False if_True snd_conv)
  moreover have "take ?n ?t \<noteq> []" using n t by (simp add: rooted_def)
  ultimately have "snd (parent_directory p) \<noteq> []" using strip_nonempty by metis
  then show "rooted (snd (parent_directory p))" using rooted_prefix [OF assms parent_prefix] by simp
qed

section \<open>The search for the root of the repository\<close>

definition parent :: "string \<Rightarrow> string" where
  "parent p = snd (parent_directory p)"

lemma find_root_found:
  assumes "rooted p" "is_repo_root fs ((parent ^^ n) p)"
  shows "\<exists>m \<le> n. find_root_loop fs p = Some (Some ((parent ^^ m) p)) \<and> is_repo_root fs ((parent ^^ m) p)"
  using assms
proof (induction n arbitrary: p)
  case 0
  then show ?case by (subst find_root_loop.simps) (simp add: rooted_def)
next
  case (Suc n)
  show ?case
  proof (cases "is_repo_root fs p")
    case True
    then show ?thesis using Suc.prems(1) by (intro exI [of _ 0]) (subst find_root_loop.simps, simp add: rooted_def)
  next
    case False
    have "is_repo_root fs ((parent ^^ n) (parent p))" using Suc.prems(2) by (simp add: funpow_swap1)
    with Suc.IH [OF parent_rooted(2) [OF Suc.prems(1), folded parent_def]] obtain m where
      m: "m \<le> n" "find_root_loop fs (parent p) = Some (Some ((parent ^^ m) (parent p)))" "is_repo_root fs ((parent ^^ m) (parent p))"
      by blast
    moreover have "find_root_loop fs p = find_root_loop fs (parent p)"
      using Suc.prems(1) False parent_rooted(1) [OF Suc.prems(1)]
      by (subst find_root_loop.simps) (simp add: rooted_def parent_def)
    ultimately show ?thesis by (intro exI [of _ "Suc m"]) (simp add: funpow_swap1)
  qed
qed

lemma find_root_returned:
  assumes "find_root_loop fs p = Some r"
  shows "rooted p \<longrightarrow> (\<exists>n. is_repo_root fs ((parent ^^ n) p))"
proof (rule find_root_loop.raw_induct [OF _ assms])
  fix loop :: "filesystem \<Rightarrow> string \<Rightarrow> string option option" and fs p r
  assume 1: "\<And>fs p r. loop fs p = Some r \<Longrightarrow> rooted p \<longrightarrow> (\<exists>n. is_repo_root fs ((parent ^^ n) p))"
    "(if p = [] then Some None else if is_repo_root fs p then Some (Some p)
      else if fst (parent_directory p) then loop fs (snd (parent_directory p)) else Some None) = Some r"
  show "rooted p \<longrightarrow> (\<exists>n. is_repo_root fs ((parent ^^ n) p))"
  proof
    assume p: "rooted p"
    show "\<exists>n. is_repo_root fs ((parent ^^ n) p)"
    proof (cases "is_repo_root fs p")
      case True
      then show ?thesis by (intro exI [of _ 0]) simp
    next
      case False
      then have "loop fs (parent p) = Some r"
        using 1(2) p parent_rooted(1) [OF p] by (simp add: rooted_def parent_def split: if_splits)
      from 1(1) [OF this] parent_rooted(2) [OF p, folded parent_def] obtain n where "is_repo_root fs ((parent ^^ n) (parent p))"
        by blast
      then show ?thesis by (intro exI [of _ "Suc n"]) (simp add: funpow_swap1)
    qed
  qed
qed

lemma find_root_prefix:
  assumes "find_root_loop fs p = Some (Some root)"
  shows "prefix root p"
proof -
  have "\<forall>root. r = Some root \<longrightarrow> prefix root p" if r: "find_root_loop fs p = Some r" for r
  proof (rule find_root_loop.raw_induct [OF _ r])
    fix loop :: "filesystem \<Rightarrow> string \<Rightarrow> string option option" and fs p r
    assume "\<And>fs p r. loop fs p = Some r \<Longrightarrow> \<forall>root. r = Some root \<longrightarrow> prefix root p"
      "(if p = [] then Some None else if is_repo_root fs p then Some (Some p)
        else if fst (parent_directory p) then loop fs (snd (parent_directory p)) else Some None) = Some r"
    note 1 = this
    show "\<forall>root. r = Some root \<longrightarrow> prefix root p"
      using 1(1) [of fs "snd (parent_directory p)" r] 1(2) prefix_order.trans [OF _ parent_prefix [of p]]
      by (auto split: if_splits)
  qed
  with assms show ?thesis by blast
qed

section \<open>Loaded configurations are well-formed\<close>

text \<open>Every path fits its buffer and the numbers fit an \<open>int\<close>.\<close>

definition config_fits :: "server_config \<Rightarrow> bool" where
  [state_defs]: "config_fits config \<longleftrightarrow>
     length (cfg_program_path config) < SERVER_RUNTIME_PATH_MAX \<and> length (cfg_working_directory config) < SERVER_RUNTIME_PATH_MAX \<and>
     length (cfg_repo_root config) < SERVER_RUNTIME_PATH_MAX \<and> length (cfg_schema_dir config) < SERVER_RUNTIME_PATH_MAX \<and>
     length (cfg_data_dir config) < SERVER_RUNTIME_PATH_MAX \<and> in_int (cfg_port config) \<and> in_int (cfg_worker_count config)"

lemmas setter_defs = set_port_def set_worker_count_def set_repo_root_def set_schema_dir_def set_data_dir_def

lemma copy_text_Inr: "copy_text s = Inr p \<longleftrightarrow> p = s \<and> length s < SERVER_RUNTIME_PATH_MAX"
  by (auto simp: copy_text_def config_error_def)

lemma join_path_fits: "join_path l r = Inr p \<Longrightarrow> length p < SERVER_RUNTIME_PATH_MAX"
  by (auto simp: join_path_def config_error_def Let_def split: if_splits)

lemma parse_int_value_strict: "parse_int_value = parse_int_strict"
  by (rule ext) (simp add: parse_int_value_def parse_int_strict_def)

lemma override_number_fits:
  assumes "override_number upd what v cs = Inr cs'" "config_fits (fst cs)" "upd = set_port \<or> upd = set_worker_count"
  shows "config_fits (fst cs')"
  using assms parse_int_strict_range [of v]
  by (cases cs) (auto simp: override_number_def config_error_def parse_int_value_strict setter_defs config_fits_def split: option.splits)

lemma override_directory_fits:
  assumes "override_directory upd v cs = Inr cs'" "config_fits (fst cs)"
    "upd = set_repo_root \<or> upd = set_schema_dir \<or> upd = set_data_dir"
  shows "config_fits (fst cs')"
  using assms
  by (cases cs) (auto simp: override_directory_def apply_directory_override_def config_error_def sbind_Inr_iff copy_text_Inr
      setter_defs config_fits_def split: if_splits)

lemmas override_fits = override_number_fits override_directory_fits

lemma from_env_fits:
  assumes "from_env env name use cs = Inr cs'" "config_fits (fst cs)"
    "\<And>v cs cs'. use v cs = Inr cs' \<Longrightarrow> config_fits (fst cs) \<Longrightarrow> config_fits (fst cs')"
  shows "config_fits (fst cs')"
  using assms by (auto simp: from_env_def split: option.splits if_splits)

lemma load_env_fits:
  assumes "load_env_overrides env cs = Inr cs'" "config_fits (fst cs)"
  shows "config_fits (fst cs')"
proof -
  obtain cs1 cs2 cs3 cs4 where
    "from_env env ''DB_SERVER_PORT'' (override_number set_port ''DB_SERVER_PORT'') cs = Inr cs1"
    "from_env env ''DB_SERVER_WORKERS'' (override_number set_worker_count ''DB_SERVER_WORKERS'') cs1 = Inr cs2"
    "from_env env ''DB_SERVER_REPO_ROOT'' (override_directory set_repo_root) cs2 = Inr cs3"
    "from_env env ''DB_SCHEMA_DIR'' (override_directory set_schema_dir) cs3 = Inr cs4"
    "from_env env ''DB_DATA_DIR'' (override_directory set_data_dir) cs4 = Inr cs'"
    using assms(1) unfolding load_env_overrides_def sbind_Inr_iff by blast
  note steps = this
  have "config_fits (fst cs1)" by (rule from_env_fits [OF steps(1) assms(2)]) (blast intro: override_fits)
  then have "config_fits (fst cs2)" by (rule from_env_fits [OF steps(2)]) (blast intro: override_fits)
  then have "config_fits (fst cs3)" by (rule from_env_fits [OF steps(3)]) (blast intro: override_fits)
  then have "config_fits (fst cs4)" by (rule from_env_fits [OF steps(4)]) (blast intro: override_fits)
  then show ?thesis by (rule from_env_fits [OF steps(5)]) (blast intro: override_fits)
qed

lemma option_use_fits:
  "option_use argument = Some use \<Longrightarrow> use v cs = Inr cs' \<Longrightarrow> config_fits (fst cs) \<Longrightarrow> config_fits (fst cs')"
  by (auto simp: option_use_def split: if_splits dest: override_fits)

lemma cli_loop_fits: "cli_loop args k cs = Inr (k', cs') \<Longrightarrow> config_fits (fst cs) \<Longrightarrow> config_fits (fst cs')"
proof (induction args k cs rule: cli_loop.induct)
  case (2 argument rest k cs)
  have shown: "config_fits (fst (apfst (\<lambda>config. config\<lparr>cfg_show_help := True\<rparr>) cs))"
    using "2.prems"(2) by (cases cs) (simp add: config_fits_def)
  show ?case
    using 2 shown override_number_fits [OF _ "2.prems"(2)] option_use_fits [OF _ _ "2.prems"(2)]
    by (auto simp: sbind_Inr_iff config_error_def split: if_splits option.splits list.splits)
qed simp

lemma trim_fits: "length p < n \<Longrightarrow> length (trim_trailing_separators p) < n"
  using prefix_length_le [OF trim_prefix [of p]] by simp

lemma read_overrides_fits:
  assumes "read_overrides cwd env argv = Inr (config, state)"
  shows "config_fits config"
proof -
  obtain config0 dir cs where start: "(case argv of [] \<Rightarrow> Inr server_runtime_config_init
      | program # _ \<Rightarrow> sbind (copy_text program) (\<lambda>p. Inr (server_runtime_config_init\<lparr>cfg_program_path := p\<rparr>))) = Inr config0"
    "get_current_working_directory cwd = Inr dir"
    "load_env_overrides env (config0\<lparr>cfg_working_directory := dir\<rparr>, no_overrides) = Inr cs"
    and cli: "load_cli_overrides argv cs = Inr (config, state)"
    using assms unfolding read_overrides_def sbind_Inr_iff by blast
  have "length dir < SERVER_RUNTIME_PATH_MAX"
    using start(2) by (auto simp: get_current_working_directory_def config_error_def split: option.splits if_splits intro: trim_fits)
  moreover have "config_fits config0"
    using start(1) by (auto simp: sbind_Inr_iff copy_text_Inr config_fits_def server_runtime_config_init_def range_defs
        SERVER_RUNTIME_PATH_MAX_def SERVER_RUNTIME_DEFAULT_PORT_def SERVER_RUNTIME_DEFAULT_WORKER_COUNT_def split: list.splits)
  ultimately have "config_fits (fst cs)" using load_env_fits [OF start(3)] by (simp add: config_fits_def)
  with cli cli_loop_fits show ?thesis
    unfolding load_cli_overrides_def sbind_Inr_iff by fastforce
qed

lemma find_repo_root_fits:
  assumes "find_repo_root_from_start fs p = Some (Some root)" "length p < SERVER_RUNTIME_PATH_MAX"
  shows "length root < SERVER_RUNTIME_PATH_MAX"
proof -
  have "find_root_loop fs (trim_trailing_separators p) = Some (Some root)"
    using assms by (auto simp: find_repo_root_from_start_def copy_text_def split: if_splits)
  from prefix_length_le [OF find_root_prefix [OF this]] trim_fits [OF assms(2)] show ?thesis by simp
qed

lemma parent_length: "length (snd (parent_directory p)) \<le> length p"
  by (rule prefix_length_le [OF parent_prefix])

lemma resolve_program_directory_fits:
  "resolve_program_directory program dir = Inr p \<Longrightarrow> length p < SERVER_RUNTIME_PATH_MAX"
  by (auto simp: resolve_program_directory_def SERVER_RUNTIME_PATH_MAX_def sbind_Inr_iff copy_text_Inr case_prod_beta
      split: if_splits intro: le_less_trans [OF parent_length])

lemma resolve_repo_root_fits:
  assumes "resolve_repo_root fs config = Some (Inr config')" "config_fits config"
  shows "config_fits config'"
  using assms find_repo_root_fits resolve_program_directory_fits trim_fits
  by (fastforce simp: resolve_repo_root_def config_fits_def split: if_splits option.splits sum.splits)

lemma derive_default_paths_fits:
  assumes "derive_default_paths config state = Inr config'" "config_fits config"
  shows "config_fits config'"
  using assms join_path_fits
  by (auto simp: derive_default_paths_def config_error_def sbind_Inr_iff config_fits_def split: if_splits)

section \<open>Arguments are read from left to right\<close>

lemma cli_loop_append:
  "cli_loop xs k cs = Inr (k', cs') \<Longrightarrow> cli_loop (xs @ ys) k cs = cli_loop ys k' cs'"
proof (induction xs k cs rule: cli_loop.induct)
  case (2 argument rest k cs)
  consider "argument = ''-h'' \<or> argument = ''--help''"
    | use where "\<not> (argument = ''-h'' \<or> argument = ''--help'')" "option_use argument = Some use"
    | "\<not> (argument = ''-h'' \<or> argument = ''--help'')" "option_use argument = None" by blast
  then show ?case
  proof cases
    case 1
    with "2.IH"(1) "2.prems" show ?thesis by simp
  next
    case 2
    with "2.prems" obtain v rest' cs1 where rest: "rest = v # rest'" "use v cs = Inr cs1"
      "cli_loop rest' k cs1 = Inr (k', cs')"
      by (cases rest) (auto simp: sbind_Inr_iff config_error_def)
    with "2.IH"(4) [OF 2 rest(1)] 2 show ?thesis by simp
  next
    case 3
    with "2.prems" "2.IH"(2,3) show ?thesis
      by (cases "k = 0"; cases "k = 1") (auto simp: config_error_def sbind_Inr_iff split: if_splits)
  qed
qed simp

section \<open>The theorems of the configuration\<close>

text \<open>
  C18 (valid configurations): a configuration the server starts with has a port between 1 and 65535
  and at least one worker, its schema and data directories exist, the root of the repository exists
  where it is known, and every path fits its buffer.
\<close>

theorem config_load_valid:
  assumes "server_runtime_config_load fs cwd env argv = Some (Inr config)" "\<not> cfg_show_help config"
  shows "1 \<le> cfg_port config \<and> cfg_port config \<le> 65535 \<and> 1 \<le> cfg_worker_count config \<and>
    directory_exists fs (cfg_schema_dir config) \<and> directory_exists fs (cfg_data_dir config) \<and>
    (cfg_repo_root config = [] \<or> directory_exists fs (cfg_repo_root config)) \<and> config_fits config"
proof -
  obtain config0 state config1 where load: "read_overrides cwd env argv = Inr (config0, state)"
    "resolve_repo_root fs config0 = Some (Inr config1)" "derive_default_paths config1 state = Inr config"
    and valid: "validate_config fs config = Inr ()"
    using assms by (auto simp: server_runtime_config_load_def sbind_Inr_iff split: sum.splits prod.splits if_splits option.splits)
  have "config_fits config"
    using derive_default_paths_fits [OF load(3) resolve_repo_root_fits [OF load(2) read_overrides_fits [OF load(1)]]] .
  with valid show ?thesis by (auto simp: validate_config_def config_error_def split: if_splits)
qed

definition sample_dirs :: filesystem where
  "sample_dirs = [''/s'' \<mapsto> Directory [], ''/d'' \<mapsto> Directory [], ''/r'' \<mapsto> Directory []]"

theorem config_load_valid_witness:
  "\<exists>config. server_runtime_config_load sample_dirs (Some ''/home'') Map.empty
      [''db_server'', ''9000'', ''--schema-dir'', ''/s'', ''--data-dir'', ''/d'', ''--repo-root'', ''/r''] = Some (Inr config) \<and>
    1 \<le> cfg_port config \<and> directory_exists sample_dirs (cfg_data_dir config)"
proof -
  let ?load = "server_runtime_config_load sample_dirs (Some ''/home'') Map.empty
      [''db_server'', ''9000'', ''--schema-dir'', ''/s'', ''--data-dir'', ''/d'', ''--repo-root'', ''/r'']"
  have "map_option (map_sum id cfg_show_help) ?load = Some (Inr False)" by code_simp
  then obtain config where "?load = Some (Inr config)" "\<not> cfg_show_help config"
    by (cases ?load; cases "the ?load") auto
  from config_load_valid [OF this] this(1) show ?thesis by blast
qed

text \<open>
  C17 (search for the repository): started in an absolute directory without an explicit root, the
  server comes back from loading its configuration only if that directory or one of its ancestors is
  a root of the repository. Otherwise the search reaches the directory \<open>/\<close>, whose parent is \<open>/\<close>
  itself, and never ends, even when both directories are given on the command line.
\<close>

theorem config_load_hangs_iff:
  assumes "read_overrides cwd env argv = Inr (config, state)" "\<not> cfg_show_help config" "cfg_repo_root config = []"
    "rooted (cfg_working_directory config)"
  shows "server_runtime_config_load fs cwd env argv = None \<longleftrightarrow>
    (\<forall>n. \<not> is_repo_root fs ((parent ^^ n) (trim_trailing_separators (cfg_working_directory config))))"
proof -
  let ?dir = "trim_trailing_separators (cfg_working_directory config)"
  have dir: "cfg_working_directory config \<noteq> []" "rooted ?dir"
    using assms(4) rooted_prefix [OF assms(4) trim_prefix] trim_nonempty by (auto simp: rooted_def)
  have "find_repo_root_from_start fs (cfg_working_directory config) = find_root_loop fs ?dir"
    using read_overrides_fits [OF assms(1)] dir(1) by (simp add: find_repo_root_from_start_def copy_text_def config_fits_def)
  moreover have "find_root_loop fs ?dir = None \<longleftrightarrow> (\<forall>n. \<not> is_repo_root fs ((parent ^^ n) ?dir))"
    using find_root_found [OF dir(2)] find_root_returned [of fs ?dir] dir(2) by (metis not_None_eq option.distinct(1))
  moreover have "find_root_loop fs ?dir \<noteq> Some None"
    using find_root_found [OF dir(2)] find_root_returned [of fs ?dir None] dir(2) by (metis option.inject option.distinct(1))
  ultimately show ?thesis
    using assms(1-3) by (auto simp: server_runtime_config_load_def resolve_repo_root_def split: option.splits)
qed

theorem config_load_hangs_iff_witness:
  "server_runtime_config_load sample_dirs (Some ''/home'') Map.empty
     [''db_server'', ''--schema-dir'', ''/s'', ''--data-dir'', ''/d''] = None"
proof -
  let ?argv = "[''db_server'', ''--schema-dir'', ''/s'', ''--data-dir'', ''/d'']"
  have "map_sum id (\<lambda>(config, state). (cfg_show_help config, cfg_repo_root config, cfg_working_directory config))
      (read_overrides (Some ''/home'') Map.empty ?argv) = Inr (False, [], ''/home'')" by code_simp
  then obtain config state where load: "read_overrides (Some ''/home'') Map.empty ?argv = Inr (config, state)"
    "\<not> cfg_show_help config" "cfg_repo_root config = []" "cfg_working_directory config = ''/home''"
    by (cases "read_overrides (Some ''/home'') Map.empty ?argv") auto
  have "\<not> is_repo_root sample_dirs p" for p
  proof -
    have "file_exists sample_dirs plan \<Longrightarrow> length plan < 7" for plan
      by (auto simp: file_exists_def sample_dirs_def split: if_splits)
    moreover have "join_path p ''PLAN.md'' = Inr plan \<Longrightarrow> 7 \<le> length plan" for plan
      by (auto simp: join_path_def config_error_def is_separator_def Let_def split: if_splits)
    ultimately show ?thesis by (fastforce simp: is_repo_root_def split: sum.splits)
  qed
  moreover have "rooted (cfg_working_directory config)" by (simp add: load(4) rooted_def is_separator_def char_at_def)
  ultimately show ?thesis using config_load_hangs_iff [OF load(1-3)] by blast
qed

text \<open>
  Precedence: settings on the command line override what the environment and earlier arguments
  have set. Whatever configuration a list of arguments yields, the same list with a port appended
  yields that configuration with the given port.
\<close>

theorem cli_later_port_wins:
  assumes "load_cli_overrides (program # args) cs = Inr cs'" "in_int port"
  shows "load_cli_overrides (program # args @ [''--port'', show_int port]) cs = Inr (set_port port cs')"
proof -
  obtain k where "cli_loop args 0 cs = Inr (k, cs')" using assms(1) by (auto simp: load_cli_overrides_def sbind_Inr_iff)
  from cli_loop_append [OF this, of "[''--port'', show_int port]"] show ?thesis
    using parse_int_strict_show_int [OF assms(2)]
    by (simp add: load_cli_overrides_def option_use_def override_number_def parse_int_value_strict)
qed

theorem cli_later_port_wins_witness:
  "\<exists>cs. load_cli_overrides [''db_server'', ''9000'', ''--port'', show_int 7000] (server_runtime_config_init, no_overrides) =
     Inr (set_port 7000 cs) \<and> cfg_port (fst cs) = 9000"
proof -
  have "map_sum id (\<lambda>cs. cfg_port (fst cs)) (load_cli_overrides [''db_server'', ''9000''] (server_runtime_config_init, no_overrides)) =
    Inr 9000" by code_simp
  then obtain cs where "load_cli_overrides [''db_server'', ''9000''] (server_runtime_config_init, no_overrides) = Inr cs"
    "cfg_port (fst cs) = 9000"
    by (cases "load_cli_overrides [''db_server'', ''9000''] (server_runtime_config_init, no_overrides)") auto
  with cli_later_port_wins [OF this(1), of 7000] show ?thesis by (intro exI [of _ cs]) (simp add: range_defs)
qed

end
