(* ===== verification/Server_Runtime.thy ===== *)
theory Server_Runtime
  imports Thread_Pool Query_Runtime Runtime_Config
begin

text \<open>
  The server process, \<open>SERVER-RUNTIME/src/db_server_runtime.c\<close> and \<open>server_main.c\<close>: starting, the
  accept loop, the job that handles a client, and shutdown. The state tracks which sockets have been
  accepted and closed. The steps of the accept loop, of the workers and of the shutdown interleave
  freely as a transition system over that of the thread pool. System calls that can fail at start
  (socket, bind, listen, sigaction) are arguments here and modelled in \<open>Lifecycle\<close>; the log lines are in
  \<open>Server_Log\<close>. The results of \<open>send\<close> for a rejected client are an argument of the functions.
\<close>

section \<open>Starting\<close>

definition SERVER_RUNTIME_QUEUE_CAPACITY_FACTOR :: nat where
  "SERVER_RUNTIME_QUEUE_CAPACITY_FACTOR = 4"

definition SERVER_RUNTIME_MIN_QUEUE_CAPACITY :: nat where
  "SERVER_RUNTIME_MIN_QUEUE_CAPACITY = 8"

definition runtime_queue_capacity :: "int \<Rightarrow> nat" where
  "runtime_queue_capacity worker_count =
     (if worker_count < 1 then SERVER_RUNTIME_MIN_QUEUE_CAPACITY
      else let queue_capacity = nat worker_count * SERVER_RUNTIME_QUEUE_CAPACITY_FACTOR in
        if queue_capacity < SERVER_RUNTIME_MIN_QUEUE_CAPACITY then SERVER_RUNTIME_MIN_QUEUE_CAPACITY else queue_capacity)"

text \<open>
  The context of a client job is a number; \<open>rt_client_fd\<close> gives the descriptor it owns, negative when
  it owns none. \<open>rt_sent\<close> are the bytes of the error responses the accept loop sends itself.
\<close>

record runtime =
  rt_pool :: pool
  rt_pool_started :: bool
  rt_listening :: bool
  rt_stop_requested :: bool
  rt_client_fd :: "nat \<Rightarrow> int"
  rt_contexts :: nat
  rt_accepted :: "int list"
  rt_closed :: "int list"
  rt_sent :: "(int \<times> string) list"

definition runtime_started :: "pool \<Rightarrow> runtime" where
  "runtime_started pool0 = \<lparr>rt_pool = pool0, rt_pool_started = True, rt_listening = True, rt_stop_requested = False,
     rt_client_fd = (\<lambda>_. - 1), rt_contexts = 0, rt_accepted = [], rt_closed = [], rt_sent = []\<rparr>"

text \<open>
  A start that fails after the pool is up shuts the pool down and cancels what is pending; the
  result is the message.
\<close>

definition db_server_runtime_start :: "server_config \<Rightarrow> unit outcome \<Rightarrow> unit outcome \<Rightarrow> runtime outcome" where
  "db_server_runtime_start config listener signals =
     (case thread_pool_init (nat (cfg_worker_count config)) (runtime_queue_capacity (cfg_worker_count config)) SERIAL_ALL of
        None \<Rightarrow> Inl ''failed to initialize worker pool''
      | Some pool0 \<Rightarrow>
          sbind listener (\<lambda>_. sbind signals (\<lambda>_. Inr (runtime_started pool0))))"

section \<open>Accepting a client\<close>

definition thread_pool_try_submit :: "pool \<Rightarrow> job option \<Rightarrow> queue_status \<times> pool" where
  "thread_pool_try_submit pool0 job =
     (if \<not> tp_accepting pool0 then (QUEUE_CLOSED, pool0)
      else (case job_queue_try_push (tp_queue pool0) job of
        (status, q) \<Rightarrow> (status, pool0\<lparr>tp_queue := q,
          tp_accepted := tp_accepted pool0 @ (if status = QUEUE_OK then [the job] else [])\<rparr>)))"

definition close_fd_if_open :: "int \<Rightarrow> runtime \<Rightarrow> runtime" where
  "close_fd_if_open fd rt = (if fd \<ge> 0 then rt\<lparr>rt_closed := rt_closed rt @ [fd]\<rparr> else rt)"

text \<open>\<open>send_all\<close> is the loop of the HTTP server again: whether all was sent, and the bytes that were.\<close>

definition send_all :: "send_result list \<Rightarrow> string \<Rightarrow> bool \<times> string" where
  "send_all sends buffer = (case send_loop buffer sends [] of (success, rest, sent) \<Rightarrow> (success, sent))"

definition write_error_and_close_client :: "send_result list \<Rightarrow> int \<Rightarrow> int \<Rightarrow> string \<Rightarrow> string \<Rightarrow> runtime \<Rightarrow> runtime" where
  "write_error_and_close_client sends fd status_code error_code message rt =
     close_fd_if_open fd
       (case http_build_error_response status_code (Some []) (Some error_code) (Some message) of
          Inl _ \<Rightarrow> rt
        | Inr text \<Rightarrow> rt\<lparr>rt_sent := rt_sent rt @ [(fd, snd (send_all sends text))]\<rparr>)"

definition reject_client_with_status :: "send_result list \<Rightarrow> int \<Rightarrow> queue_status \<Rightarrow> runtime \<Rightarrow> runtime" where
  "reject_client_with_status sends fd status rt =
     (if status = QUEUE_FULL then write_error_and_close_client sends fd 503 ''server_busy'' ''server queue is full'' rt
      else if status = QUEUE_CLOSED then write_error_and_close_client sends fd 503 ''server_stopping'' ''server is shutting down'' rt
      else write_error_and_close_client sends fd 500 ''queue_submit_failed'' ''failed to schedule the request'' rt)"

definition cleanup_client_job :: "nat \<Rightarrow> runtime \<Rightarrow> runtime" where
  "cleanup_client_job n rt =
     (if rt_client_fd rt n \<ge> 0
      then (close_fd_if_open (rt_client_fd rt n) rt)\<lparr>rt_client_fd := (rt_client_fd rt)(n := - 1)\<rparr> else rt)"

text \<open>The callbacks of a finished job: the notification only logs.\<close>

fun run_callback :: "runtime \<Rightarrow> job_event \<Rightarrow> runtime" where
  "run_callback rt (Notify n result worker_index run_status) = rt"
| "run_callback rt (Cleanup n) = cleanup_client_job n rt"

definition client_job :: "nat \<Rightarrow> job" where
  "client_job n = \<lparr>job_mode = MODE_NONE, job_assigned = True, job_run = True, job_notify = True, job_cleanup = True,
     job_context = n\<rparr>"

definition accept_client :: "send_result list \<Rightarrow> int \<Rightarrow> runtime \<Rightarrow> runtime" where
  "accept_client sends fd rt =
     (let n = rt_contexts rt;
          rt1 = rt\<lparr>rt_client_fd := (rt_client_fd rt)(n := fd), rt_contexts := Suc n, rt_accepted := rt_accepted rt @ [fd]\<rparr>;
          (status, pool1) = thread_pool_try_submit (rt_pool rt1) (Some (client_job n));
          rt2 = rt1\<lparr>rt_pool := pool1\<rparr>
      in if status = QUEUE_OK then rt2
         else let rt3 = reject_client_with_status sends fd status rt2;
                  rt4 = rt3\<lparr>rt_client_fd := (rt_client_fd rt3)(n := - 1)\<rparr>
              in foldl run_callback rt4 (job_finish (Some (client_job n)) JOB_RESULT_REJECTED (- 1) 0))"

section \<open>Running a client job\<close>

text \<open>The job takes the descriptor out of its context; the connection handler closes it on every path.\<close>

definition run_client_job :: "nat \<Rightarrow> runtime \<Rightarrow> runtime" where
  "run_client_job n rt =
     (if rt_client_fd rt n < 0 then rt
      else (close_fd_if_open (rt_client_fd rt n) rt)\<lparr>rt_client_fd := (rt_client_fd rt)(n := - 1)\<rparr>)"

text \<open>The signal handler and \<open>db_server_runtime_request_stop\<close>.\<close>

definition db_server_runtime_request_stop :: "runtime \<Rightarrow> runtime" where
  "db_server_runtime_request_stop rt = rt\<lparr>rt_stop_requested := True, rt_listening := False\<rparr>"

text \<open>
  What the accept loop does next, by the stop flag before \<open>accept\<close>, its result, and the stop flag
  after it, which a signal may have set in between.
\<close>

datatype accept_result = AcceptedFd int | AcceptInterrupted | AcceptBadListener | AcceptFailed string

datatype wait_action = Serve int | Retry | Leave shutdown_mode

definition wait_next :: "bool \<Rightarrow> accept_result \<Rightarrow> bool \<Rightarrow> wait_action" where
  "wait_next stop_before result stop_after =
     (if stop_before then Leave SHUTDOWN_DRAIN
      else case result of
        AcceptedFd fd \<Rightarrow> Serve fd
      | AcceptInterrupted \<Rightarrow> Retry
      | AcceptBadListener \<Rightarrow> Leave SHUTDOWN_DRAIN
      | AcceptFailed message \<Rightarrow> if stop_after then Leave SHUTDOWN_DRAIN else Leave SHUTDOWN_CANCEL_PENDING)"

section \<open>The process as a transition system\<close>

text \<open>
  Steps of the pool that call no callback of a job: taking jobs, locking, closing, joining. The
  accept loop is the only thread that submits.
\<close>

definition silent :: "pool \<Rightarrow> pool \<Rightarrow> bool" where
  "silent p p' \<longleftrightarrow> tp_accepted p' = tp_accepted p \<and> tp_finished p' = tp_finished p \<and> tp_submitting p' = tp_submitting p \<and>
     (\<forall>i j status. worker_at p' i (Ran j status) \<longrightarrow> worker_at p i (Ran j status))"

inductive runtime_step :: "runtime \<Rightarrow> runtime \<Rightarrow> bool" where
  wait_serve: "wait_next stop r (rt_stop_requested s) = Serve fd \<Longrightarrow> 0 \<le> fd \<Longrightarrow> runtime_step s (accept_client sends fd s)"
| wait_leave: "wait_next stop r (rt_stop_requested s) = Leave mode \<Longrightarrow> \<not> tp_shutdown_started (rt_pool s) \<Longrightarrow>
    runtime_step s (s\<lparr>rt_stop_requested := True, rt_listening := False,
      rt_pool := (rt_pool s)\<lparr>tp_shutdown_started := True, tp_accepting := False, tp_shutdown := Closing mode\<rparr>\<rparr>)"
| stop_signal: "runtime_step s (db_server_runtime_request_stop s)"
| pool_silent: "pool_step (rt_pool s) p \<Longrightarrow> silent (rt_pool s) p \<Longrightarrow> runtime_step s (s\<lparr>rt_pool := p\<rparr>)"
| job_run: "worker_at (rt_pool s) i (Running j) \<Longrightarrow>
    runtime_step s (run_client_job (job_context j) (s\<lparr>rt_pool :=
      set_worker i (Ran j status) ((rt_pool s)\<lparr>tp_lock := unlock (effective (rt_pool s) j) (tp_lock (rt_pool s))\<rparr>)\<rparr>))"
| job_finished: "worker_at (rt_pool s) i (Ran j status) \<Longrightarrow>
    p = set_worker i Popping ((rt_pool s)\<lparr>tp_finished := tp_finished (rt_pool s) @
      [\<lparr>fin_job = j, fin_result = job_outcome status, fin_worker = int i, fin_status = status\<rparr>]\<rparr>) \<Longrightarrow>
    runtime_step s (foldl run_callback (s\<lparr>rt_pool := p\<rparr>) (job_finish (Some j) (job_outcome status) (int i) status))"
| job_cancelled: "tp_shutdown (rt_pool s) = Cancelling \<Longrightarrow> q_size (tp_queue (rt_pool s)) > 0 \<Longrightarrow>
    pop_front_locked (tp_queue (rt_pool s)) = (j, q) \<Longrightarrow>
    p = (rt_pool s)\<lparr>tp_queue := q, tp_finished := tp_finished (rt_pool s) @
      [\<lparr>fin_job = j, fin_result = JOB_RESULT_CANCELLED, fin_worker = - 1, fin_status = 0\<rparr>]\<rparr> \<Longrightarrow>
    runtime_step s (foldl run_callback (s\<lparr>rt_pool := p\<rparr>) (job_finish (Some j) JOB_RESULT_CANCELLED (- 1) 0))"

definition runtime_init :: "server_config \<Rightarrow> runtime \<Rightarrow> bool" where
  "runtime_init config s \<longleftrightarrow> db_server_runtime_start config (Inr ()) (Inr ()) = Inr s"

section \<open>The sockets the server owns\<close>

definition alive :: "pool \<Rightarrow> job multiset" where
  "alive p = held_jobs p + mset (contents (tp_queue p))"

definition owned :: "(nat \<Rightarrow> int) \<Rightarrow> job multiset \<Rightarrow> int multiset" where
  "owned fd jobs = filter_mset (\<lambda>x. 0 \<le> x) (image_mset (\<lambda>j. fd (job_context j)) jobs)"

lemma owned_add: "owned fd (add_mset j jobs) = (if 0 \<le> fd (job_context j) then {#fd (job_context j)#} else {#}) + owned fd jobs"
  by (simp add: owned_def)

lemma owned_other: "n \<notin># image_mset job_context jobs \<Longrightarrow> owned (fd(n := x)) jobs = owned fd jobs"
  by (induction jobs) (auto simp: owned_def)

definition contexts_ok :: "nat \<Rightarrow> job multiset \<Rightarrow> bool" where
  "contexts_ok bound jobs \<longleftrightarrow> (\<forall>n. count (image_mset job_context jobs) n \<le> 1) \<and>
     (\<forall>j \<in># jobs. job_context j < bound \<and> job_cleanup j)"

lemma contexts_ok_split:
  assumes "contexts_ok bound (add_mset j jobs)"
  shows "contexts_ok bound jobs" "job_context j \<notin># image_mset job_context jobs" "job_cleanup j"
proof -
  have c: "count (image_mset job_context (add_mset j jobs)) n \<le> 1" for n using assms by (simp add: contexts_ok_def)
  show "job_cleanup j" using assms by (simp add: contexts_ok_def)
  have "count (image_mset job_context jobs) n \<le> 1" for n
    using c [of n] by (simp split: if_splits)
  then show "contexts_ok bound jobs" using assms by (simp add: contexts_ok_def)
  have "count (image_mset job_context jobs) (job_context j) = 0" using c [of "job_context j"] by simp
  then show "job_context j \<notin># image_mset job_context jobs" unfolding count_eq_zero_iff .
qed

lemma contexts_ok_fresh:
  assumes "contexts_ok bound jobs" "job_context j = bound" "job_cleanup j"
  shows "contexts_ok (Suc bound) (add_mset j jobs)" "bound \<notin># image_mset job_context jobs"
proof -
  show fresh: "bound \<notin># image_mset job_context jobs" using assms(1) by (auto simp: contexts_ok_def)
  then have "count (image_mset job_context jobs) bound = 0" unfolding count_eq_zero_iff .
  then show "contexts_ok (Suc bound) (add_mset j jobs)" using assms by (fastforce simp: contexts_ok_def)
qed

definition runtime_inv :: "runtime \<Rightarrow> bool" where
  "runtime_inv s \<longleftrightarrow> pool_inv (rt_pool s) \<and> tp_submitting (rt_pool s) = (\<lambda>_. None) \<and>
     contexts_ok (rt_contexts s) (alive (rt_pool s)) \<and>
     (\<forall>i j status. worker_at (rt_pool s) i (Ran j status) \<longrightarrow> rt_client_fd s (job_context j) < 0) \<and>
     mset (rt_accepted s) = mset (rt_closed s) + owned (rt_client_fd s) (alive (rt_pool s))"

lemma pool_alive: "pool_inv p \<Longrightarrow> mset (tp_accepted p) = mset (map fin_job (tp_finished p)) + alive p"
  by (simp add: pool_inv_def conserved_def alive_def ac_simps)


lemma alive_same:
  assumes "pool_inv p" "pool_inv p'" "tp_accepted p' = tp_accepted p" "tp_finished p' = tp_finished p"
  shows "alive p' = alive p"
  using pool_alive [OF assms(1)] pool_alive [OF assms(2)] assms(3,4) by simp

lemma alive_finished:
  assumes "pool_inv p" "pool_inv p'" "tp_accepted p' = tp_accepted p" "tp_finished p' = tp_finished p @ [f]"
  shows "alive p = add_mset (fin_job f) (alive p')"
  using pool_alive [OF assms(1)] pool_alive [OF assms(2)] assms(3,4) by simp

lemma alive_accepted:
  assumes "pool_inv p" "pool_inv p'" "tp_accepted p' = tp_accepted p @ [j]" "tp_finished p' = tp_finished p"
  shows "alive p' = add_mset j (alive p)"
  using pool_alive [OF assms(1)] pool_alive [OF assms(2)] assms(3,4) by simp

lemma alive_held: "worker_at p i w \<Longrightarrow> j \<in> set (held_job w) \<Longrightarrow> j \<in># alive p"
  by (force simp: alive_def held_jobs_def worker_at_def in_set_conv_nth)

text \<open>A step of the pool that only moves workers keeps the alive jobs and the sockets.\<close>

lemma runtime_inv_D:
  assumes "runtime_inv s"
  shows "pool_inv (rt_pool s)" "tp_submitting (rt_pool s) = (\<lambda>_. None)" "contexts_ok (rt_contexts s) (alive (rt_pool s))"
    "worker_at (rt_pool s) i (Ran j status) \<Longrightarrow> rt_client_fd s (job_context j) < 0"
    "mset (rt_accepted s) = mset (rt_closed s) + owned (rt_client_fd s) (alive (rt_pool s))"
  using assms unfolding runtime_inv_def by blast+

lemma take_fd:
  assumes "contexts_ok bound (add_mset j jobs)"
  shows "owned (fd(job_context j := - 1)) (add_mset j jobs) = owned fd jobs"
    "owned fd (add_mset j jobs) = (if 0 \<le> fd (job_context j) then {#fd (job_context j)#} else {#}) + owned fd jobs"
    "owned (fd(job_context j := - 1)) jobs = owned fd jobs"
  using owned_other [OF contexts_ok_split(2) [OF assms]] by (simp_all add: owned_add)

lemma pool_silent_inv:
  assumes "runtime_inv s" "pool_inv p" "silent (rt_pool s) p"
  shows "runtime_inv (s\<lparr>rt_pool := p\<rparr>)"
proof -
  have "alive p = alive (rt_pool s)"
    by (rule alive_same [OF runtime_inv_D(1) [OF assms(1)] assms(2)]) (use assms(3) in \<open>simp_all add: silent_def\<close>)
  with assms show ?thesis unfolding runtime_inv_def silent_def by simp blast
qed

lemma run_client_job_inv:
  assumes "runtime_inv s" "worker_at (rt_pool s) i (Running j)"
    and p: "p = set_worker i (Ran j status) ((rt_pool s)\<lparr>tp_lock := m\<rparr>)" "pool_inv p"
  shows "runtime_inv (run_client_job (job_context j) (s\<lparr>rt_pool := p\<rparr>))"
proof -
  let ?fd = "rt_client_fd s" and ?n = "job_context j"
  note D = runtime_inv_D [OF assms(1)]
  have same: "alive p = alive (rt_pool s)" by (rule alive_same [OF D(1) p(2)]) (simp_all add: p(1))
  have "j \<in># alive (rt_pool s)" by (rule alive_held [OF assms(2)]) simp
  then obtain jobs where jobs: "alive (rt_pool s) = add_mset j jobs" by (meson multi_member_split)
  note take = take_fd [OF D(3) [unfolded jobs], of ?fd]
  have ran: "(?fd(?n := - 1)) (job_context j') < 0" if "worker_at p i' (Ran j' status')" for i' j' status'
  proof (cases "i' = i")
    case True
    with that show ?thesis using assms(2) by (auto simp: p(1) worker_at_def)
  next
    case False
    with that have "worker_at (rt_pool s) i' (Ran j' status')" by (simp add: p(1) worker_at_def)
    from D(4) [OF this] show ?thesis by simp
  qed
  have sub: "tp_submitting p = (\<lambda>_. None)" using D(2) by (simp add: p(1))
  show ?thesis
  proof (cases "?fd ?n < 0")
    case True
    have "?fd (job_context j') < 0" if "worker_at p i' (Ran j' status')" for i' j' status'
      using ran [OF that] True by (cases "job_context j' = ?n") simp_all
    with True D(3,5) sub p(2) same show ?thesis by (simp add: runtime_inv_def run_client_job_def)
  next
    case False
    with ran D(3,5) sub p(2) same jobs take show ?thesis
      by (simp add: runtime_inv_def run_client_job_def close_fd_if_open_def)
  qed
qed


text \<open>A finished job leaves the alive jobs; its cleanup closes the socket if it still owns one.\<close>

lemma job_finish_inv:
  assumes "runtime_inv s" "pool_inv p" "tp_accepted p = tp_accepted (rt_pool s)"
    "tp_finished p = tp_finished (rt_pool s) @ [f]" "tp_submitting p = tp_submitting (rt_pool s)"
    "\<And>i j status. worker_at p i (Ran j status) \<Longrightarrow> worker_at (rt_pool s) i (Ran j status)"
  shows "runtime_inv (foldl run_callback (s\<lparr>rt_pool := p\<rparr>) (job_finish (Some (fin_job f)) result w status))"
proof -
  let ?fd = "rt_client_fd s" and ?n = "job_context (fin_job f)"
  note D = runtime_inv_D [OF assms(1)]
  have jobs: "alive (rt_pool s) = add_mset (fin_job f) (alive p)" by (rule alive_finished [OF D(1) assms(2-4)])
  note split = contexts_ok_split [OF D(3) [unfolded jobs]]
  note take = take_fd [OF D(3) [unfolded jobs], of ?fd]
  have callbacks: "foldl run_callback (s\<lparr>rt_pool := p\<rparr>) (job_finish (Some (fin_job f)) result w status) =
      cleanup_client_job ?n (s\<lparr>rt_pool := p\<rparr>)"
    using split(3) by (simp add: job_finish_def)
  have ran: "?fd (job_context j) < 0" if "worker_at p i (Ran j st)" for i j st using D(4) assms(6) [OF that] by blast
  have sub: "tp_submitting p = (\<lambda>_. None)" using D(2) assms(5) by simp
  show ?thesis unfolding callbacks
    using ran D(5) sub assms(2) jobs take split(1)
    by (auto simp: runtime_inv_def cleanup_client_job_def close_fd_if_open_def)
qed

text \<open>The submission by the accept loop is the submission of a client of the pool.\<close>

lemma try_submit_inv:
  assumes "pool_inv p" "tp_submitting p = (\<lambda>_. None)" "thread_pool_try_submit p (Some j) = (status, p')"
  shows "pool_inv p'" "tp_submitting p' = (\<lambda>_. None)" "tp_finished p' = tp_finished p" "tp_workers p' = tp_workers p"
    "tp_accepted p' = tp_accepted p @ (if status = QUEUE_OK then [j] else [])"
proof -
  have "pool_inv p' \<and> tp_submitting p' = (\<lambda>_. None) \<and> tp_finished p' = tp_finished p \<and> tp_workers p' = tp_workers p \<and>
    tp_accepted p' = tp_accepted p @ (if status = QUEUE_OK then [j] else [])"
  proof (cases "tp_accepting p")
    case False
    with assms show ?thesis by (simp add: thread_pool_try_submit_def)
  next
    case True
    let ?p1 = "p\<lparr>tp_submitting := (tp_submitting p)(0 := Some j)\<rparr>"
    obtain q where q: "job_queue_try_push (tp_queue p) (Some j) = (status, q)"
      and p': "p' = p\<lparr>tp_queue := q, tp_accepted := tp_accepted p @ (if status = QUEUE_OK then [j] else [])\<rparr>"
      using assms(3) True by (auto simp: thread_pool_try_submit_def split: prod.splits)
    have "client_step p ?p1" by (rule submit_check) (use assms(2) True in simp_all)
    then have inv1: "pool_inv ?p1" by (intro pool.inv_step [OF assms(1)]) (simp add: pool_step_def)
    have "client_step ?p1 (?p1\<lparr>tp_queue := q, tp_submitting := (tp_submitting ?p1)(0 := None),
        tp_accepted := tp_accepted ?p1 @ (if status = QUEUE_OK then [j] else [])\<rparr>)"
      by (rule submit_try_push) (use q in simp_all)
    moreover have "?p1\<lparr>tp_queue := q, tp_submitting := (tp_submitting ?p1)(0 := None),
        tp_accepted := tp_accepted ?p1 @ (if status = QUEUE_OK then [j] else [])\<rparr> = p'"
      using assms(2) by (simp add: p' fun_upd_idem)
    ultimately have "pool_inv p'" using pool.inv_step [OF inv1] by (simp add: pool_step_def)
    then show ?thesis using assms(2) by (simp add: p')
  qed
  then show "pool_inv p'" "tp_submitting p' = (\<lambda>_. None)" "tp_finished p' = tp_finished p" "tp_workers p' = tp_workers p"
    "tp_accepted p' = tp_accepted p @ (if status = QUEUE_OK then [j] else [])" by blast+
qed

lemma write_error_closes:
  assumes "0 \<le> fd"
  shows "\<exists>sent. write_error_and_close_client sends fd status code message rt = rt\<lparr>rt_closed := rt_closed rt @ [fd], rt_sent := sent\<rparr>"
proof (cases "http_build_error_response status (Some []) (Some code) (Some message)")
  case (Inl e)
  then show ?thesis using assms
    by (intro exI [of _ "rt_sent rt"]) (simp add: write_error_and_close_client_def close_fd_if_open_def)
next
  case (Inr r)
  then show ?thesis using assms
    by (intro exI [of _ "rt_sent rt @ [(fd, snd (send_all sends r))]"]) (simp add: write_error_and_close_client_def close_fd_if_open_def)
qed

lemma reject_client_closes:
  "0 \<le> fd \<Longrightarrow> \<exists>sent. reject_client_with_status sends fd status rt = rt\<lparr>rt_closed := rt_closed rt @ [fd], rt_sent := sent\<rparr>"
  unfolding reject_client_with_status_def by (simp only: write_error_closes split: if_split) simp

lemma accept_client_inv:
  assumes "runtime_inv s" "0 \<le> fd"
  shows "runtime_inv (accept_client sends fd s)"
proof -
  let ?n = "rt_contexts s"
  note D = runtime_inv_D [OF assms(1)]
  obtain status p where p: "thread_pool_try_submit (rt_pool s) (Some (client_job ?n)) = (status, p)" by fastforce
  note sub = try_submit_inv [OF D(1,2) p]
  have job: "job_context (client_job ?n) = ?n" "job_cleanup (client_job ?n)" by (simp_all add: client_job_def)
  note fresh = contexts_ok_fresh [OF D(3) job]
  have ran: "(((rt_client_fd s)(?n := x)) (job_context j)) < 0" if "worker_at p i (Ran j st)" for i j st x
  proof -
    have w: "worker_at (rt_pool s) i (Ran j st)" using that sub(4) by (simp add: worker_at_def)
    have "j \<in># alive (rt_pool s)" by (rule alive_held [OF w]) simp
    then have "job_context j \<in># image_mset job_context (alive (rt_pool s))" by simp
    with fresh(2) have "job_context j \<noteq> ?n" by metis
    with D(4) [OF w] show ?thesis by simp
  qed
  have other: "owned ((rt_client_fd s)(?n := x)) (alive (rt_pool s)) = owned (rt_client_fd s) (alive (rt_pool s))" for x
    by (rule owned_other [OF fresh(2)])
  show ?thesis
  proof (cases "status = QUEUE_OK")
    case True
    have "alive p = add_mset (client_job ?n) (alive (rt_pool s))"
      by (rule alive_accepted [OF D(1) sub(1)]) (use sub(3,5) True in simp_all)
    note jobs = this
    have acc: "accept_client sends fd s = s\<lparr>rt_client_fd := (rt_client_fd s)(?n := fd), rt_contexts := Suc ?n,
        rt_accepted := rt_accepted s @ [fd], rt_pool := p\<rparr>"
      using True p by (simp add: accept_client_def Let_def)
    show ?thesis unfolding acc using sub(1,2) fresh(1) ran other D(5) assms(2) jobs
      by (simp add: runtime_inv_def owned_add job)
  next
    case False
    have same: "alive p = alive (rt_pool s)" by (rule alive_same [OF D(1) sub(1)]) (use sub(3,5) False in simp_all)
    have ok: "contexts_ok (Suc ?n) (alive (rt_pool s))" using D(3) by (auto simp: contexts_ok_def)
    obtain sent where rej: "accept_client sends fd s = s\<lparr>rt_contexts := Suc ?n, rt_accepted := rt_accepted s @ [fd],
        rt_pool := p, rt_closed := rt_closed s @ [fd], rt_sent := sent, rt_client_fd := (rt_client_fd s)(?n := - 1)\<rparr>"
      using False p reject_client_closes [OF assms(2), of sends status "s\<lparr>rt_client_fd := (rt_client_fd s)(?n := fd), rt_contexts := Suc ?n,
        rt_accepted := rt_accepted s @ [fd], rt_pool := p\<rparr>"]
      by (auto simp: accept_client_def Let_def job_finish_def client_job_def cleanup_client_job_def)
    show ?thesis unfolding rej using sub(1,2) ok ran other D(5) same by (simp add: runtime_inv_def)
  qed
qed


lemma runtime_step_inv: "runtime_step s s' \<Longrightarrow> runtime_inv s \<Longrightarrow> runtime_inv s'"
proof (induction rule: runtime_step.induct)
  case (wait_serve stop r s fd sends)
  then show ?case by (intro accept_client_inv)
next
  case (wait_leave stop r s mode)
  let ?p = "(rt_pool s)\<lparr>tp_shutdown_started := True, tp_accepting := False, tp_shutdown := Closing mode\<rparr>"
  have "client_step (rt_pool s) ?p" by (rule shutdown_begin [OF wait_leave(2)])
  then have "pool_inv ?p" using pool.inv_step [OF runtime_inv_D(1) [OF wait_leave(3)]] by (simp add: pool_step_def)
  moreover have "silent (rt_pool s) ?p" by (simp add: silent_def worker_at_def)
  ultimately have "runtime_inv (s\<lparr>rt_pool := ?p\<rparr>)" by (rule pool_silent_inv [OF wait_leave(3)])
  then show ?case by (simp add: runtime_inv_def)
next
  case (stop_signal s)
  then show ?case by (simp add: runtime_inv_def db_server_runtime_request_stop_def)
next
  case (pool_silent s p)
  then show ?case using pool.inv_step [OF runtime_inv_D(1) [OF pool_silent(3)]] by (intro pool_silent_inv)
next
  case (job_run s i j status)
  then show ?case
    using pool.inv_step [OF runtime_inv_D(1) [OF job_run(2)]] run_and_unlock [OF job_run(1), of status]
    by (intro run_client_job_inv [OF job_run(2,1) refl]) (simp add: pool_step_def)
next
  case (job_finished s i j status p)
  let ?f = "\<lparr>fin_job = j, fin_result = job_outcome status, fin_worker = int i, fin_status = status\<rparr>"
  have "worker_step (rt_pool s) p" unfolding job_finished(2) by (rule worker_finish [OF job_finished(1)])
  then have p: "pool_inv p" using pool.inv_step [OF runtime_inv_D(1) [OF job_finished(3)]] by (simp add: pool_step_def)
  have "worker_at (rt_pool s) i' (Ran j' status')" if "worker_at p i' (Ran j' status')" for i' j' status'
    using that job_finished(1) by (cases "i' = i") (auto simp: job_finished(2) worker_at_def)
  then show ?case
    using job_finish_inv [OF job_finished(3) p, of ?f] by (simp add: job_finished(2))
next
  case (job_cancelled s j q p)
  let ?f = "\<lparr>fin_job = j, fin_result = JOB_RESULT_CANCELLED, fin_worker = - 1, fin_status = 0\<rparr>"
  have "client_step (rt_pool s) p" unfolding job_cancelled(4) by (rule shutdown_cancel [OF job_cancelled(1-3)])
  then have p: "pool_inv p" using pool.inv_step [OF runtime_inv_D(1) [OF job_cancelled(5)]] by (simp add: pool_step_def)
  show ?case
    using job_finish_inv [OF job_cancelled(5) p, of ?f] by (simp add: job_cancelled(4) worker_at_def)
qed

lemma runtime_init_inv:
  assumes "runtime_init config s"
  shows "runtime_inv s"
proof -
  obtain p where p: "thread_pool_init (nat (cfg_worker_count config)) (runtime_queue_capacity (cfg_worker_count config)) SERIAL_ALL = Some p"
    and s: "s = runtime_started p"
    using assms by (auto simp: runtime_init_def db_server_runtime_start_def split: option.splits)
  from p have "pool_init (nat (cfg_worker_count config)) (runtime_queue_capacity (cfg_worker_count config)) SERIAL_ALL p"
    by (simp add: pool_init_def)
  then have inv: "pool_inv p" by (rule pool.inv_init)
  have start: "tp_accepted p = []" "tp_finished p = []" "tp_submitting p = (\<lambda>_. None)"
    using p by (auto simp: thread_pool_init_def split: if_splits)
  then have none: "alive p = {#}" using pool_alive [OF inv] by simp
  have "\<not> worker_at p i (Ran j status)" for i j status
    using alive_held [of p i "Ran j status" j] none by auto
  with inv start none show ?thesis
    by (simp add: runtime_inv_def s runtime_started_def contexts_ok_def owned_def)
qed

interpretation server: invariant_system "runtime_init config" runtime_step runtime_inv
  by unfold_locales (blast intro: runtime_init_inv runtime_step_inv)+

lemma joined_alive:
  assumes "pool_inv p" "tp_shutdown p = Joined mode"
  shows "alive p = {#}"
proof -
  have w: "\<forall>w \<in> set (tp_workers p). w = Exited" "tp_workers p \<noteq> []" using pool_inv_D(8,9) [OF assms(1)] assms(2) by blast+
  then have "Exited \<in> set (tp_workers p)" by (metis last_in_set)
  then have "contents (tp_queue p) = []" using pool_inv_D(7) [OF assms(1)] by blast
  moreover have "concat (map held_job (tp_workers p)) = []" using w(1) by auto
  ultimately show ?thesis by (simp add: alive_def held_jobs_def)
qed

section \<open>The main function\<close>

record 'c server_hooks =
  hk_start :: "(server_config \<Rightarrow> 'c \<Rightarrow> unit outcome \<times> 'c) option"
  hk_wait :: "('c \<Rightarrow> unit outcome \<times> 'c) option"
  hk_request_stop :: "('c \<Rightarrow> 'c) option"

definition validate_hooks :: "'c server_hooks option \<Rightarrow> unit outcome" where
  "validate_hooks hooks =
     (case hooks of
        None \<Rightarrow> Inl ''server runtime hooks are required''
      | Some h \<Rightarrow>
          if hk_start h = None then Inl ''server runtime start hook is required''
          else if hk_wait h = None then Inl ''server runtime wait hook is required''
          else Inr ())"

definition print_runtime_summary :: "server_config \<Rightarrow> string list" where
  "print_runtime_summary config =
     [''Starting server runtime'', ''  port: '' @ show_int (cfg_port config), ''  workers: '' @ show_int (cfg_worker_count config),
      ''  schema_dir: '' @ cfg_schema_dir config, ''  data_dir: '' @ cfg_data_dir config] @
     (if cfg_repo_root config \<noteq> [] then [''  repo_root: '' @ cfg_repo_root config] else [])"

definition error_line :: "string \<Rightarrow> string" where
  "error_line message = ''error: '' @ message"

text \<open>The exit code, the lines on standard output and on standard error.\<close>

record exit_report =
  exit_code :: int
  exit_stdout :: "string list"
  exit_stderr :: "string list"

definition report :: "int \<Rightarrow> string list \<Rightarrow> string list \<Rightarrow> exit_report" where
  "report code outs errs = \<lparr>exit_code = code, exit_stdout = outs, exit_stderr = errs\<rparr>"

definition server_main ::
    "filesystem \<Rightarrow> string option \<Rightarrow> (string \<Rightarrow> string option) \<Rightarrow> string list \<Rightarrow> 'c server_hooks option \<Rightarrow> 'c \<Rightarrow>
     (exit_report \<times> 'c) option" where
  "server_main fs cwd env argv hooks ctx =
     (let program_name = (case argv of [] \<Rightarrow> ''db_server'' | p # _ \<Rightarrow> p) in
      case validate_hooks hooks of
        Inl e \<Rightarrow> Some (report 1 [] [error_line e], ctx)
      | Inr _ \<Rightarrow>
     (case server_runtime_config_load fs cwd env argv of
        None \<Rightarrow> None
      | Some (Inl e) \<Rightarrow> Some (report 1 [] (error_line e # server_runtime_print_usage program_name), ctx)
      | Some (Inr config) \<Rightarrow>
          if cfg_show_help config then Some (report 0 (server_runtime_print_usage program_name) [], ctx)
          else
         (case the (hk_start (the hooks)) config ctx of
            (Inl e, ctx1) \<Rightarrow> Some (report 1 (print_runtime_summary config) [error_line e], ctx1)
          | (Inr _, ctx1) \<Rightarrow>
         (case the (hk_wait (the hooks)) ctx1 of
            (Inl e, ctx2) \<Rightarrow>
              Some (report 1 (print_runtime_summary config) [error_line e],
                    case hk_request_stop (the hooks) of None \<Rightarrow> ctx2 | Some stop \<Rightarrow> stop ctx2)
          | (Inr _, ctx2) \<Rightarrow>
              Some (report 0 (print_runtime_summary config @ [''Server runtime stopped cleanly'']) [], ctx2)))))"

section \<open>The theorems of the server process\<close>

text \<open>
  C15 (sockets): in every reachable state of the server, whatever the interleaving of the accept loop,
  the workers, signals and the shutdown, no client socket has been closed more often than it was
  accepted; once the pool has shut down every accepted socket has been closed exactly once.
\<close>

theorem sockets_closed_once:
  assumes "reachable (runtime_init config) runtime_step s"
  shows "mset (rt_closed s) \<subseteq># mset (rt_accepted s) \<and>
    (\<forall>mode. tp_shutdown (rt_pool s) = Joined mode \<longrightarrow> mset (rt_closed s) = mset (rt_accepted s))"
proof -
  have inv: "runtime_inv s" by (rule server.reachable_inv [OF assms])
  note D = runtime_inv_D [OF inv]
  have "mset (rt_closed s) = mset (rt_accepted s)" if "tp_shutdown (rt_pool s) = Joined mode" for mode
    using D(5) joined_alive [OF D(1) that] by (simp add: owned_def)
  moreover have "mset (rt_closed s) \<subseteq># mset (rt_accepted s)" using D(5) by simp
  ultimately show ?thesis by blast
qed

theorem sockets_closed_once_witness:
  "\<exists>s :: runtime. rt_accepted s = [5] \<and> mset (rt_closed s) \<subseteq># mset (rt_accepted s)"
proof -
  let ?config = "server_runtime_config_init"
  let ?p = "the (thread_pool_init 4 16 SERIAL_ALL)"
  have start: "db_server_runtime_start ?config (Inr ()) (Inr ()) = Inr (runtime_started ?p)"
    by (simp add: db_server_runtime_start_def thread_pool_init_def runtime_queue_capacity_def server_runtime_config_init_def
        SERVER_RUNTIME_DEFAULT_WORKER_COUNT_def SERVER_RUNTIME_MIN_QUEUE_CAPACITY_def
        SERVER_RUNTIME_QUEUE_CAPACITY_FACTOR_def)
  then have "reachable (runtime_init ?config) runtime_step (runtime_started ?p)"
    by (intro reach_init) (simp add: runtime_init_def)
  moreover have "runtime_step (runtime_started ?p) (accept_client [] 5 (runtime_started ?p))"
    by (rule wait_serve [where stop = False and r = "AcceptedFd 5"]) (simp_all add: wait_next_def)
  ultimately have r: "reachable (runtime_init ?config) runtime_step (accept_client [] 5 (runtime_started ?p))"
    by (rule reach_step)
  have "rt_accepted (accept_client [] 5 (runtime_started ?p)) = [5]" by code_simp
  with sockets_closed_once [OF r] show ?thesis by blast
qed

text \<open>
  Exit code: the program exits with 0 only after it has printed its usage, or after it has
  started with a valid configuration and the accept loop has ended without an error.
\<close>

theorem server_main_success:
  assumes "server_main fs cwd env argv hooks ctx = Some (r, ctx')" "exit_code r = 0"
  shows "\<exists>h config. hooks = Some h \<and> server_runtime_config_load fs cwd env argv = Some (Inr config) \<and>
    (cfg_show_help config \<and> ctx' = ctx \<or>
     (\<exists>start wait ctx1. hk_start h = Some start \<and> hk_wait h = Some wait \<and> start config ctx = (Inr (), ctx1) \<and>
        wait ctx1 = (Inr (), ctx')))"
  using assms
  by (auto simp: server_main_def validate_hooks_def report_def Let_def
      split: option.splits sum.splits prod.splits if_splits)

theorem server_main_success_witness:
  "\<exists>r. server_main sample_dirs (Some ''/home'') Map.empty [''db_server'', ''--help'']
      (Some \<lparr>hk_start = Some (\<lambda>config ctx. (Inr (), ctx)), hk_wait = Some (\<lambda>ctx. (Inr (), ctx)), hk_request_stop = None\<rparr>) () =
      Some (r, ()) \<and> exit_code r = 0 \<and>
    (\<exists>config. server_runtime_config_load sample_dirs (Some ''/home'') Map.empty [''db_server'', ''--help''] = Some (Inr config))"
proof -
  let ?h = "Some \<lparr>hk_start = Some (\<lambda>config ctx. (Inr (), ctx)), hk_wait = Some (\<lambda>ctx. (Inr (), ctx)), hk_request_stop = None\<rparr>"
  let ?main = "server_main sample_dirs (Some ''/home'') Map.empty [''db_server'', ''--help''] ?h ()"
  let ?load = "server_runtime_config_load sample_dirs (Some ''/home'') Map.empty [''db_server'', ''--help'']"
  have "map_option (map_sum id cfg_show_help) ?load = Some (Inr True)" by code_simp
  then obtain config where "?load = Some (Inr config)" "cfg_show_help config" by (cases ?load; cases "the ?load") auto
  then obtain r where "?main = Some (r, ())" "exit_code r = 0"
    by (simp add: server_main_def validate_hooks_def report_def del: append.simps)
  with server_main_success [OF this] show ?thesis by blast
qed

end
