(* ===== verification/Lifecycle.thy ===== *)
theory Lifecycle
  imports Server_Runtime
begin

text \<open>
  The resources of the server process: the functions that create and destroy the lock manager, the job
  queue, the thread pool, the listening socket and the runtime (\<open>lock_manager.c\<close>, \<open>job_queue.c\<close>,
  \<open>thread_pool.c\<close>, \<open>db_server_runtime.c\<close>, \<open>db_server_main.c\<close>), with every failure of a system call or
  an allocation they handle. The state is the list of resources the process holds. What the pool
  and the queue do between creation and destruction is the subject of \<open>Thread_Pool\<close> and
  \<open>Server_Runtime\<close>; here only their ready flags matter. Joining a thread waits for its end, which
  comes once the queue is closed, and then releases it. The mode of a shutdown decides who takes
  the pending jobs, not which resources are released.
\<close>

section \<open>Resources and system calls\<close>

datatype resource =
    StateMutex
  | LockMutex | ReadersCv | WritersCv
  | QueueItems | QueueMutex | NotEmptyCv | NotFullCv
  | WorkersArray | WorkerStates | Worker nat
  | ListenerFd

text \<open>
  The results of the coming calls, \<open>None\<close> for success and otherwise the text of the error, with
  success after the end of the list; the resources held; and whether something was released that
  was not held.
\<close>

record sys =
  sys_calls :: "string option list"
  sys_held :: "resource list"
  sys_misused :: bool

definition attempt_call :: "sys \<Rightarrow> string option \<times> sys" where
  "attempt_call s = (case sys_calls s of [] \<Rightarrow> (None, s) | r # rest \<Rightarrow> (r, s\<lparr>sys_calls := rest\<rparr>))"

definition acquire_res :: "resource \<Rightarrow> sys \<Rightarrow> string option \<times> sys" where
  "acquire_res r s = (case attempt_call s of
     (Some e, s') \<Rightarrow> (Some e, s') | (None, s') \<Rightarrow> (None, s'\<lparr>sys_held := r # sys_held s'\<rparr>))"

definition release_res :: "resource \<Rightarrow> sys \<Rightarrow> sys" where
  "release_res r s =
     (if r \<in> set (sys_held s) then s\<lparr>sys_held := remove1 r (sys_held s)\<rparr> else s\<lparr>sys_misused := True\<rparr>)"

text \<open>\<open>free\<close> of a pointer that may be NULL.\<close>

definition free_res :: "bool \<Rightarrow> resource \<Rightarrow> sys \<Rightarrow> sys" where
  "free_res non_null r s = (if non_null then release_res r s else s)"

section \<open>The lock manager and the queue\<close>

definition lock_manager_setup :: "sys \<Rightarrow> bool \<times> sys" where
  "lock_manager_setup s =
     (case acquire_res LockMutex s of
        (Some e, s1) \<Rightarrow> (False, s1)
      | (None, s1) \<Rightarrow>
     (case acquire_res ReadersCv s1 of
        (Some e, s2) \<Rightarrow> (False, release_res LockMutex s2)
      | (None, s2) \<Rightarrow>
     (case acquire_res WritersCv s2 of
        (Some e, s3) \<Rightarrow> (False, release_res LockMutex (release_res ReadersCv s3))
      | (None, s3) \<Rightarrow> (True, s3))))"

definition lock_manager_destroy :: "bool \<Rightarrow> sys \<Rightarrow> sys" where
  "lock_manager_destroy ready s =
     (if \<not> ready then s else release_res LockMutex (release_res ReadersCv (release_res WritersCv s)))"

definition job_queue_setup :: "nat \<Rightarrow> sys \<Rightarrow> bool \<times> sys" where
  "job_queue_setup capacity s =
     (if capacity = 0 then (False, s)
      else case acquire_res QueueItems s of
        (Some e, s1) \<Rightarrow> (False, s1)
      | (None, s1) \<Rightarrow>
     (case acquire_res QueueMutex s1 of
        (Some e, s2) \<Rightarrow> (False, release_res QueueItems s2)
      | (None, s2) \<Rightarrow>
     (case acquire_res NotEmptyCv s2 of
        (Some e, s3) \<Rightarrow> (False, release_res QueueItems (release_res QueueMutex s3))
      | (None, s3) \<Rightarrow>
     (case acquire_res NotFullCv s3 of
        (Some e, s4) \<Rightarrow> (False, release_res QueueItems (release_res QueueMutex (release_res NotEmptyCv s4)))
      | (None, s4) \<Rightarrow> (True, s4)))))"

definition job_queue_teardown :: "bool \<Rightarrow> sys \<Rightarrow> sys" where
  "job_queue_teardown ready s =
     (if \<not> ready then s
      else release_res QueueItems (release_res QueueMutex (release_res NotEmptyCv (release_res NotFullCv s))))"

section \<open>The thread pool\<close>

text \<open>
  The fields of the pool that tell what it holds. The ready flags of its lock manager and queue
  coincide with those of the embedded structures.
\<close>

record pool_life =
  state_mutex_ready :: bool
  lock_manager_ready :: bool
  queue_ready :: bool
  workers_allocated :: bool
  states_allocated :: bool
  worker_count :: nat
  accepting_jobs :: bool
  shutdown_started :: bool
  pool_joined :: bool

definition pool_zero :: pool_life where
  "pool_zero = \<lparr>state_mutex_ready = False, lock_manager_ready = False, queue_ready = False, workers_allocated = False,
     states_allocated = False, worker_count = 0, accepting_jobs = False, shutdown_started = False, pool_joined = False\<rparr>"

definition join_workers :: "nat \<Rightarrow> sys \<Rightarrow> sys" where
  "join_workers n s = foldl (\<lambda>s i. release_res (Worker i) s) s [0..<n]"

definition thread_pool_shutdown :: "pool_life \<Rightarrow> sys \<Rightarrow> pool_life \<times> sys" where
  "thread_pool_shutdown p s =
     (if \<not> state_mutex_ready p \<or> shutdown_started p then (p, s)
      else let p1 = p\<lparr>shutdown_started := True, accepting_jobs := False\<rparr> in
        if \<not> pool_joined p1 \<and> workers_allocated p1
        then (p1\<lparr>pool_joined := True\<rparr>, join_workers (worker_count p1) s) else (p1, s))"

definition thread_pool_destroy :: "pool_life \<Rightarrow> sys \<Rightarrow> pool_life \<times> sys" where
  "thread_pool_destroy p0 s0 =
     (let (p, s) = (if state_mutex_ready p0 then thread_pool_shutdown p0 s0 else (p0, s0));
          s1 = free_res (workers_allocated p) WorkersArray (free_res (states_allocated p) WorkerStates s);
          s2 = (if queue_ready p then job_queue_teardown True s1 else s1);
          s3 = (if lock_manager_ready p then lock_manager_destroy True s2 else s2);
          s4 = (if state_mutex_ready p then release_res StateMutex s3 else s3)
      in (pool_zero, s4))"

fun create_workers :: "nat \<Rightarrow> nat \<Rightarrow> pool_life \<Rightarrow> sys \<Rightarrow> bool \<times> pool_life \<times> sys" where
  "create_workers index 0 p s = (True, p, s)"
| "create_workers index (Suc k) p s =
     (case acquire_res (Worker index) s of
        (Some e, s') \<Rightarrow> (False, thread_pool_destroy (p\<lparr>worker_count := index\<rparr>) s')
      | (None, s') \<Rightarrow> create_workers (Suc index) k p s')"

definition start_workers :: "nat \<Rightarrow> pool_life \<Rightarrow> sys \<Rightarrow> bool \<times> pool_life \<times> sys" where
  "start_workers n p s =
     (let (e1, s1) = acquire_res WorkersArray s;
          (e2, s2) = acquire_res WorkerStates s1;
          p1 = p\<lparr>workers_allocated := e1 = None, states_allocated := e2 = None\<rparr>
      in if e1 \<noteq> None \<or> e2 \<noteq> None then (False, thread_pool_destroy p1 s2)
         else create_workers 0 n (p1\<lparr>worker_count := n, accepting_jobs := True\<rparr>) s2)"

definition thread_pool_setup :: "nat \<Rightarrow> nat \<Rightarrow> pool_life \<Rightarrow> sys \<Rightarrow> bool \<times> pool_life \<times> sys" where
  "thread_pool_setup n queue_capacity p s =
     (if n = 0 \<or> queue_capacity = 0 then (False, p, s)
      else case acquire_res StateMutex s of
        (Some e, s1) \<Rightarrow> (False, pool_zero, s1)
      | (None, s1) \<Rightarrow>
     (let p1 = pool_zero\<lparr>state_mutex_ready := True\<rparr> in
      case lock_manager_setup s1 of
        (False, s2) \<Rightarrow> (False, thread_pool_destroy p1 s2)
      | (True, s2) \<Rightarrow>
     (let p2 = p1\<lparr>lock_manager_ready := True\<rparr> in
      case job_queue_setup queue_capacity s2 of
        (False, s3) \<Rightarrow> (False, thread_pool_destroy p2 s3)
      | (True, s3) \<Rightarrow>
     start_workers n (p2\<lparr>queue_ready := True\<rparr>) s3)))"

section \<open>The runtime\<close>

record runtime_life =
  rl_pool :: pool_life
  rl_pool_started :: bool
  rl_listener :: bool
  rl_stop :: bool
  rl_signal :: bool
  rl_db :: db

text \<open>
  \<open>rl_listener\<close> tells that \<open>listener_fd\<close> is a descriptor, \<open>rl_signal\<close> that \<open>g_signal_runtime\<close> points to
  the runtime, and \<open>rl_db\<close> is the database with the indexes of the engine.
\<close>

definition runtime_zero :: "db \<Rightarrow> runtime_life" where
  "runtime_zero db0 = \<lparr>rl_pool = pool_zero, rl_pool_started = False, rl_listener = False, rl_stop = False,
     rl_signal = False, rl_db = db0\<rparr>"

definition create_listener_socket :: "int \<Rightarrow> sys \<Rightarrow> unit outcome \<times> sys" where
  "create_listener_socket port s =
     (case acquire_res ListenerFd s of
        (Some e, s1) \<Rightarrow> (Inl (snprintf ERROR_SIZE (''failed to create listen socket: '' @ e)), s1)
      | (None, s1) \<Rightarrow>
     (case attempt_call s1 of
        (Some e, s2) \<Rightarrow> (Inl (snprintf ERROR_SIZE (''failed to configure SO_REUSEADDR: '' @ e)), release_res ListenerFd s2)
      | (None, s2) \<Rightarrow>
     (case attempt_call s2 of
        (Some e, s3) \<Rightarrow> (Inl (snprintf ERROR_SIZE
          (''failed to bind listen socket on port '' @ show_int port @ '': '' @ e)), release_res ListenerFd s3)
      | (None, s3) \<Rightarrow>
     (case attempt_call s3 of
        (Some e, s4) \<Rightarrow> (Inl (snprintf ERROR_SIZE (''failed to listen on port '' @ show_int port @ '': '' @ e)),
          release_res ListenerFd s4)
      | (None, s4) \<Rightarrow> (Inr (), s4)))))"

definition install_signal_handlers :: "runtime_life \<Rightarrow> sys \<Rightarrow> unit outcome \<times> runtime_life \<times> sys" where
  "install_signal_handlers rl s =
     (case attempt_call s of
        (Some e, s1) \<Rightarrow> (Inl (snprintf ERROR_SIZE (''failed to install SIGINT handler: '' @ e)), rl, s1)
      | (None, s1) \<Rightarrow>
     (case attempt_call s1 of
        (Some e, s2) \<Rightarrow> (Inl (snprintf ERROR_SIZE (''failed to install SIGTERM handler: '' @ e)), rl, s2)
      | (None, s2) \<Rightarrow> (Inr (), rl\<lparr>rl_signal := True\<rparr>, s2)))"

definition shutdown_runtime :: "runtime_life \<Rightarrow> sys \<Rightarrow> runtime_life \<times> sys" where
  "shutdown_runtime rl s =
     (let s1 = (if rl_listener rl then release_res ListenerFd s else s);
          rl1 = rl\<lparr>rl_stop := True, rl_listener := False\<rparr>;
          (p, s2) = (if rl_pool_started rl1
             then (case thread_pool_shutdown (rl_pool rl1) s1 of (p, s') \<Rightarrow> thread_pool_destroy p s')
             else (rl_pool rl1, s1))
      in (rl1\<lparr>rl_pool := p, rl_pool_started := False, rl_db := week8_engine_reset (rl_db rl1), rl_signal := False\<rparr>, s2))"

definition start_runtime :: "server_config \<Rightarrow> runtime_life \<times> sys \<Rightarrow> unit outcome \<times> (runtime_life \<times> sys)" where
  "start_runtime config ctx =
     (let rl = runtime_zero (rl_db (fst ctx)) in
      case thread_pool_setup (nat (cfg_worker_count config)) (runtime_queue_capacity (cfg_worker_count config))
          (rl_pool rl) (snd ctx) of
        (False, p, s1) \<Rightarrow> (Inl ''failed to initialize worker pool'', (rl\<lparr>rl_pool := p\<rparr>, s1))
      | (True, p, s1) \<Rightarrow>
     (let rl1 = rl\<lparr>rl_pool := p, rl_pool_started := True\<rparr> in
      case create_listener_socket (cfg_port config) s1 of
        (Inl e, s2) \<Rightarrow> (Inl e, shutdown_runtime rl1 s2)
      | (Inr _, s2) \<Rightarrow>
     (case install_signal_handlers (rl1\<lparr>rl_listener := True\<rparr>) s2 of
        (Inl e, rl2, s3) \<Rightarrow> (Inl e, shutdown_runtime rl2 s3)
      | (Inr _, rl2, s3) \<Rightarrow> (Inr (), (rl2, s3)))))"

text \<open>
  \<open>db_server_runtime_request_stop\<close> and, for a runtime it points to, the signal handler.
\<close>

definition stop_runtime :: "runtime_life \<times> sys \<Rightarrow> runtime_life \<times> sys" where
  "stop_runtime ctx =
     (case ctx of (rl, s) \<Rightarrow>
       (rl\<lparr>rl_stop := True, rl_listener := False\<rparr>, if rl_listener rl then release_res ListenerFd s else s))"

text \<open>
  The accept loop over what happens at each turn: a signal that arrives before the stop flag is read,
  the result of \<open>accept\<close>, and a signal that arrives before the flag is read again. After the last
  turn of the list the listening socket counts as closed. Accepted clients are served by
  \<open>accept_client\<close>, which does not touch these resources.
\<close>

type_synonym turn = "bool \<times> accept_result \<times> bool"

definition on_signal :: "bool \<Rightarrow> runtime_life \<times> sys \<Rightarrow> runtime_life \<times> sys" where
  "on_signal arrives ctx = (if arrives \<and> rl_signal (fst ctx) then stop_runtime ctx else ctx)"

fun accept_message :: "accept_result \<Rightarrow> string" where
  "accept_message (AcceptFailed e) = snprintf ERROR_SIZE (''accept failed: '' @ e)"
| "accept_message _ = []"

fun wait_runtime :: "turn list \<Rightarrow> runtime_life \<times> sys \<Rightarrow> unit outcome \<times> (runtime_life \<times> sys)" where
  "wait_runtime [] ctx = (Inr (), shutdown_runtime (fst ctx) (snd ctx))"
| "wait_runtime ((sig1, r, sig2) # turns) ctx =
     (let ctx1 = on_signal sig1 ctx; ctx2 = (if rl_stop (fst ctx1) then ctx1 else on_signal sig2 ctx1) in
      case wait_next (rl_stop (fst ctx1)) r (rl_stop (fst ctx2)) of
        Leave SHUTDOWN_DRAIN \<Rightarrow> (Inr (), shutdown_runtime (fst ctx2) (snd ctx2))
      | Leave SHUTDOWN_CANCEL_PENDING \<Rightarrow> (Inl (accept_message r), shutdown_runtime (fst ctx2) (snd ctx2))
      | _ \<Rightarrow> wait_runtime turns ctx2)"

text \<open>\<open>db_server_main.c\<close>: the main function with the hooks of the runtime.\<close>

definition runtime_hooks :: "turn list \<Rightarrow> (runtime_life \<times> sys) server_hooks" where
  "runtime_hooks turns =
     \<lparr>hk_start = Some start_runtime, hk_wait = Some (wait_runtime turns), hk_request_stop = Some stop_runtime\<rparr>"

definition db_server_main ::
    "filesystem \<Rightarrow> string option \<Rightarrow> (string \<Rightarrow> string option) \<Rightarrow> turn list \<Rightarrow> string list \<Rightarrow> db \<Rightarrow> sys \<Rightarrow>
     (exit_report \<times> (runtime_life \<times> sys)) option" where
  "db_server_main fs cwd env turns argv db0 s =
     server_main fs cwd env argv (Some (runtime_hooks turns)) (runtime_zero db0, s)"

section \<open>Accounting for resources\<close>

text \<open>The process holds exactly the resources \<open>R\<close> and has released nothing it did not hold.\<close>

definition owns :: "resource multiset \<Rightarrow> sys \<Rightarrow> bool" where
  "owns R s \<longleftrightarrow> mset (sys_held s) = R \<and> \<not> sys_misused s"

named_theorems call_rules "what each system call does to the resources held"

lemma owns_attempt [call_rules]: "attempt_call s = (r, s') \<Longrightarrow> owns R s \<Longrightarrow> owns R s'"
  by (auto simp: attempt_call_def owns_def split: list.splits)

lemma owns_acquire [call_rules]: "acquire_res r s = (None, s') \<Longrightarrow> owns R s \<Longrightarrow> owns (add_mset r R) s'"
  using owns_attempt [of s] by (fastforce simp: acquire_res_def owns_def split: prod.splits option.splits)

lemma owns_acquire_failed [call_rules]: "acquire_res r s = (Some e, s') \<Longrightarrow> owns R s \<Longrightarrow> owns R s'"
  using owns_attempt [of s] by (fastforce simp: acquire_res_def owns_def split: prod.splits option.splits)

lemma owns_release: "owns (add_mset r R) s \<Longrightarrow> owns R (release_res r s)"
proof -
  assume h: "owns (add_mset r R) s"
  then have "r \<in># mset (sys_held s)" by (simp add: owns_def)
  then have "r \<in> set (sys_held s)" by (simp only: set_mset_mset)
  with h show ?thesis by (simp add: release_res_def owns_def)
qed

definition lock_resources :: "resource multiset" where
  "lock_resources = {#WritersCv, ReadersCv, LockMutex#}"

definition queue_resources :: "resource multiset" where
  "queue_resources = {#NotFullCv, NotEmptyCv, QueueMutex, QueueItems#}"

lemma owns_lock_setup:
  "lock_manager_setup s = (ok, s') \<Longrightarrow> owns R s \<Longrightarrow> owns ((if ok then lock_resources else {#}) + R) s'"
  by (auto simp: lock_manager_setup_def lock_resources_def split: prod.splits option.splits
      intro!: owns_release dest: call_rules)

lemma owns_lock_destroy: "owns (lock_resources + R) s \<Longrightarrow> owns R (lock_manager_destroy True s)"
  by (auto simp: lock_manager_destroy_def lock_resources_def intro!: owns_release)

lemma owns_queue_setup:
  "job_queue_setup capacity s = (ok, s') \<Longrightarrow> owns R s \<Longrightarrow> owns ((if ok then queue_resources else {#}) + R) s'"
  by (auto simp: job_queue_setup_def queue_resources_def split: prod.splits option.splits if_splits
      intro!: owns_release dest: call_rules)

lemma owns_queue_teardown: "owns (queue_resources + R) s \<Longrightarrow> owns R (job_queue_teardown True s)"
  by (auto simp: job_queue_teardown_def queue_resources_def intro!: owns_release)

lemma owns_join: "owns (mset (map Worker is) + R) s \<Longrightarrow> owns R (foldl (\<lambda>s i. release_res (Worker i) s) s is)"
  by (induction "is" arbitrary: s) (auto intro: owns_release)

section \<open>Managed objects\<close>

text \<open>
  An object that is created as a whole or not at all and that gives everything back when it is
  disposed of. A field of its owner records whether it exists.
\<close>

definition part :: "bool \<Rightarrow> resource multiset \<Rightarrow> resource multiset" where
  "part b R = (if b then R else {#})"

lemma part_simps [simp]: "part True R = R" "part False R = {#}"
  by (simp_all add: part_def)

locale managed_object =
  fixes create :: "sys \<Rightarrow> 'r \<times> sys" and created :: "'r \<Rightarrow> bool" and dispose :: "sys \<Rightarrow> sys" and res :: "resource multiset"
  assumes create_owns: "create s = (r, s') \<Longrightarrow> owns R s \<Longrightarrow> owns (part (created r) res + R) s'"
    and dispose_owns: "owns (res + R) s \<Longrightarrow> owns R (dispose s)"
begin

lemma dispose_part: "owns (part b res + R) s \<Longrightarrow> owns R (if b then dispose s else s)"
  by (cases b) (simp_all add: dispose_owns)

lemma create_dispose: "create s = (r, s') \<Longrightarrow> owns R s \<Longrightarrow> owns R (if created r then dispose s' else s')"
  by (rule dispose_part) (rule create_owns)

end

interpretation lock_object: managed_object lock_manager_setup "\<lambda>ok. ok" "lock_manager_destroy True" lock_resources
  by unfold_locales (use owns_lock_setup owns_lock_destroy in \<open>auto simp: part_def split: if_splits\<close>)

interpretation queue_object: managed_object "job_queue_setup capacity" "\<lambda>ok. ok" "job_queue_teardown True" queue_resources
  by unfold_locales (use owns_queue_setup owns_queue_teardown in \<open>auto simp: part_def split: if_splits\<close>)

interpretation mutex_object: managed_object "acquire_res StateMutex" "\<lambda>r. r = None" "release_res StateMutex" "{#StateMutex#}"
  by unfold_locales (auto simp: part_def intro: call_rules owns_release)

lemma listener_owns:
  "create_listener_socket port s = (r, s') \<Longrightarrow> owns R s \<Longrightarrow> owns (part (r = Inr ()) {#ListenerFd#} + R) s'"
  by (auto simp: create_listener_socket_def split: prod.splits option.splits intro!: owns_release)
    (meson call_rules)+

interpretation listener_object: managed_object "create_listener_socket port" "\<lambda>r. r = Inr ()" "release_res ListenerFd" "{#ListenerFd#}"
  by unfold_locales (auto simp: owns_release dest: listener_owns)

section \<open>The pool\<close>

definition unjoined :: "pool_life \<Rightarrow> resource multiset" where
  "unjoined p = (if pool_joined p then {#} else mset (map Worker [0..<worker_count p]))"

definition holdings :: "pool_life \<Rightarrow> resource multiset" where
  "holdings p = unjoined p + (part (states_allocated p) {#WorkerStates#} + (part (workers_allocated p) {#WorkersArray#} +
     (part (queue_ready p) queue_resources + (part (lock_manager_ready p) lock_resources +
      part (state_mutex_ready p) {#StateMutex#}))))"

text \<open>Threads exist only in a pool that would join them.\<close>

definition life_ok :: "pool_life \<Rightarrow> bool" where
  "life_ok p \<longleftrightarrow> (worker_count p > 0 \<longrightarrow> state_mutex_ready p \<and> workers_allocated p) \<and>
     (shutdown_started p \<longrightarrow> unjoined p = {#})"

lemma life_ok_zero [simp]: "life_ok pool_zero" "holdings pool_zero = {#}"
  by (simp_all add: life_ok_def holdings_def unjoined_def pool_zero_def)

lemma holdings_flags [simp]:
  "holdings (p\<lparr>shutdown_started := a\<rparr>) = holdings p" "holdings (p\<lparr>accepting_jobs := a\<rparr>) = holdings p"
  "unjoined (p\<lparr>shutdown_started := a\<rparr>) = unjoined p" "unjoined (p\<lparr>accepting_jobs := a\<rparr>) = unjoined p"
  "unjoined (p\<lparr>pool_joined := True\<rparr>) = {#}"
  by (simp_all add: holdings_def unjoined_def)

lemma holdings_joined: "holdings p = unjoined p + holdings (p\<lparr>pool_joined := True\<rparr>)"
  by (simp add: holdings_def unjoined_def)

lemma thread_pool_shutdown_owns:
  assumes "thread_pool_shutdown p s = (p', s')" "life_ok p" "owns (holdings p + R) s"
  shows "life_ok p' \<and> unjoined p' = {#} \<and> owns (holdings p' + R) s'"
proof (cases "\<not> state_mutex_ready p \<or> shutdown_started p \<or> pool_joined p \<or> \<not> workers_allocated p")
  case True
  then have none: "unjoined p = {#}" using assms(2) by (auto simp: life_ok_def unjoined_def)
  have "p' = p \<or> p' = p\<lparr>shutdown_started := True, accepting_jobs := False\<rparr>" "s' = s"
    using assms(1) True by (auto simp: thread_pool_shutdown_def Let_def split: if_splits)
  then show ?thesis using assms(2,3) none by (auto simp: life_ok_def)
next
  case False
  let ?p = "p\<lparr>shutdown_started := True, accepting_jobs := False, pool_joined := True\<rparr>"
  have r: "p' = ?p" "s' = join_workers (worker_count p) s"
    using assms(1) False by (simp_all add: thread_pool_shutdown_def Let_def)
  have "owns (mset (map Worker [0..<worker_count p]) + (holdings (p\<lparr>pool_joined := True\<rparr>) + R)) s"
    using assms(3) False by (subst (asm) holdings_joined) (simp add: unjoined_def ac_simps)
  from owns_join [OF this] have "owns (holdings (p\<lparr>pool_joined := True\<rparr>) + R) s'" by (simp add: r(2) join_workers_def)
  moreover have "holdings ?p = holdings (p\<lparr>pool_joined := True\<rparr>)" "unjoined ?p = {#}" by (simp_all add: holdings_def unjoined_def)
  moreover have "life_ok ?p" using False assms(2) by (auto simp: life_ok_def unjoined_def)
  ultimately show ?thesis by (simp add: r(1))
qed

lemma owns_free: "owns (part b {#r#} + R) s \<Longrightarrow> owns R (free_res b r s)"
  by (cases b) (simp_all add: free_res_def owns_release)

lemma thread_pool_destroy_owns:
  assumes "thread_pool_destroy p s = (p', s')" "life_ok p" "owns (holdings p + R) s"
  shows "p' = pool_zero \<and> owns R s'"
proof -
  obtain p1 s1 where p1: "(if state_mutex_ready p then thread_pool_shutdown p s else (p, s)) = (p1, s1)" by fastforce
  have shut: "unjoined p1 = {#} \<and> owns (holdings p1 + R) s1"
  proof (cases "state_mutex_ready p")
    case True
    with p1 thread_pool_shutdown_owns [of p s p1 s1 R] assms(2,3) show ?thesis by simp
  next
    case False
    with p1 assms(2,3) show ?thesis by (auto simp: life_ok_def unjoined_def)
  qed
  from conjunct2 [OF shut] have "owns (part (states_allocated p1) {#WorkerStates#} + (part (workers_allocated p1) {#WorkersArray#} +
     (part (queue_ready p1) queue_resources + (part (lock_manager_ready p1) lock_resources +
      (part (state_mutex_ready p1) {#StateMutex#} + R))))) s1"
    by (simp add: holdings_def conjunct1 [OF shut] union_assoc)
  note mutex_object.dispose_part [OF lock_object.dispose_part [OF queue_object.dispose_part [OF owns_free [OF owns_free [OF this]]]]]
  with assms(1) p1 show ?thesis by (simp add: thread_pool_destroy_def Let_def)
qed

lemma create_workers_owns:
  assumes "create_workers index k p s = (ok, p', s')" "life_ok p" "pool_joined p = False" "shutdown_started p = False"
    "worker_count p = index + k" "owns (holdings (p\<lparr>worker_count := index\<rparr>) + R) s"
  shows "if ok then p' = p \<and> owns (holdings p + R) s' else p' = pool_zero \<and> owns R s'"
  using assms
proof (induction k arbitrary: index s)
  case 0
  then have "holdings (p\<lparr>worker_count := index\<rparr>) = holdings p" by (simp add: holdings_def unjoined_def)
  with 0 show ?case by simp
next
  case (Suc k)
  let ?p = "p\<lparr>worker_count := index\<rparr>"
  obtain r s1 where r: "acquire_res (Worker index) s = (r, s1)" by fastforce
  show ?case
  proof (cases r)
    case None
    have "owns (holdings (p\<lparr>worker_count := Suc index\<rparr>) + R) s1"
      using owns_acquire [OF r [unfolded None] Suc.prems(6)] Suc.prems(3) by (simp add: holdings_def unjoined_def)
    moreover have "create_workers (Suc index) k p s1 = (ok, p', s')" using Suc.prems(1) r None by simp
    ultimately show ?thesis using Suc.IH [of "Suc index" s1] Suc.prems(2-5) by simp
  next
    case (Some e)
    have "life_ok ?p" using Suc.prems(2,4,5) by (auto simp: life_ok_def)
    with thread_pool_destroy_owns [of ?p s1 p' s' R] owns_acquire_failed [OF r [unfolded Some] Suc.prems(6)] Suc.prems(1) r Some
    show ?thesis by auto
  qed
qed

text \<open>A pool before its workers exist.\<close>

definition young :: "pool_life \<Rightarrow> bool" where
  "young p \<longleftrightarrow> state_mutex_ready p \<and> worker_count p = 0 \<and> \<not> shutdown_started p \<and> \<not> pool_joined p \<and>
     \<not> workers_allocated p \<and> \<not> states_allocated p"

lemma young_life_ok: "young p \<Longrightarrow> life_ok p"
  by (simp add: young_def life_ok_def)

lemma start_workers_owns:
  assumes run: "start_workers n p0 s = (ok, p, s')" and p0: "young p0" "0 < n" and R: "owns (holdings p0 + R) s"
  shows "if ok then life_ok p \<and> owns (holdings p + R) s' \<and> accepting_jobs p \<and> worker_count p = n
    else p = pool_zero \<and> owns R s'"
proof -
  obtain r1 s1 r2 s2 where 1: "acquire_res WorkersArray s = (r1, s1)" "acquire_res WorkerStates s1 = (r2, s2)"
    by (metis prod.exhaust)
  let ?p = "p0\<lparr>workers_allocated := r1 = None, states_allocated := r2 = None\<rparr>"
  have "owns (part (r1 = None) {#WorkersArray#} + (holdings p0 + R)) s1"
    using 1(1) R by (cases r1) (auto dest: call_rules)
  then have "owns (part (r2 = None) {#WorkerStates#} + (part (r1 = None) {#WorkersArray#} + (holdings p0 + R))) s2"
    using 1(2) by (cases r2) (auto dest: call_rules)
  then have o2: "owns (holdings ?p + R) s2" using p0 by (simp add: holdings_def unjoined_def young_def ac_simps)
  show ?thesis
  proof (cases "r1 = None \<and> r2 = None")
    case False
    have "life_ok ?p" using p0 by (simp add: life_ok_def young_def)
    from thread_pool_destroy_owns [OF _ this o2, of p s'] run 1 False show ?thesis
      by (auto simp: start_workers_def Let_def)
  next
    case True
    let ?q = "?p\<lparr>worker_count := n, accepting_jobs := True\<rparr>"
    have c: "create_workers 0 n ?q s2 = (ok, p, s')" using run 1 True by (simp add: start_workers_def Let_def)
    have "holdings (?q\<lparr>worker_count := 0\<rparr>) = holdings ?p" using p0 by (simp add: holdings_def unjoined_def young_def)
    with o2 have o: "owns (holdings (?q\<lparr>worker_count := 0\<rparr>) + R) s2" by simp
    have q: "life_ok ?q" "pool_joined ?q = False" "shutdown_started ?q = False" "worker_count ?q = 0 + n"
      using p0 True by (auto simp: life_ok_def young_def)
    from create_workers_owns [OF c q o] q(1) show ?thesis by (cases ok) auto
  qed
qed

lemma thread_pool_setup_owns:
  assumes run: "thread_pool_setup n c pool_zero s = (ok, p, s')" and R: "owns R s"
  shows "if ok then life_ok p \<and> owns (holdings p + R) s' \<and> accepting_jobs p \<and> worker_count p = n
    else p = pool_zero \<and> owns R s'"
proof -
  let ?p1 = "pool_zero\<lparr>state_mutex_ready := True\<rparr>" and ?p2 = "pool_zero\<lparr>state_mutex_ready := True, lock_manager_ready := True\<rparr>"
  let ?p3 = "?p2\<lparr>queue_ready := True\<rparr>"
  have young: "young ?p1" "young ?p2" "young ?p3" by (simp_all add: young_def pool_zero_def)
  have h: "holdings ?p1 = {#StateMutex#}" "holdings ?p2 = lock_resources + holdings ?p1"
    "holdings ?p3 = queue_resources + holdings ?p2"
    by (simp_all add: holdings_def unjoined_def pool_zero_def ac_simps)
  obtain r1 s1 where 1: "acquire_res StateMutex s = (r1, s1)" by fastforce
  obtain ok2 s2 where 2: "lock_manager_setup s1 = (ok2, s2)" by fastforce
  obtain ok3 s3 where 3: "job_queue_setup c s2 = (ok3, s3)" by fastforce
  note run' = run [unfolded thread_pool_setup_def 1 2 3 Let_def prod.case]
  consider "n = 0 \<or> c = 0" | "0 < n" "0 < c" "r1 \<noteq> None" | "0 < n" "0 < c" "r1 = None" by blast
  then show ?thesis
  proof cases
    case 3
    with 1 owns_acquire [of StateMutex s s1 R] R have o1: "owns (holdings ?p1 + R) s1" by (simp add: h)
    show ?thesis
    proof (cases "ok2 \<and> ok3")
      case True
      with owns_queue_setup [OF \<open>job_queue_setup c s2 = _\<close> owns_lock_setup [OF 2 o1]] have "owns (holdings ?p3 + R) s3"
        by (simp add: h ac_simps)
      from start_workers_owns [OF _ young(3) \<open>0 < n\<close> this] run' 3 True show ?thesis by simp
    next
      case False
      then consider "\<not> ok2" | "ok2" "\<not> ok3" by blast
      then show ?thesis
      proof cases
        case 1
        with owns_lock_setup [OF 2 o1] have "owns (holdings ?p1 + R) s2" by simp
        from thread_pool_destroy_owns [OF _ young_life_ok [OF young(1)] this] run' 3 1 show ?thesis by auto
      next
        case 2
        with owns_queue_setup [OF \<open>job_queue_setup c s2 = _\<close> owns_lock_setup [OF \<open>lock_manager_setup s1 = _\<close> o1]]
        have "owns (holdings ?p2 + R) s3" by (simp add: h ac_simps)
        from thread_pool_destroy_owns [OF _ young_life_ok [OF young(2)] this] run' 3 2 show ?thesis by auto
      qed
    qed
  qed (use run' 1 R in \<open>auto dest: call_rules\<close>)
qed

section \<open>The runtime\<close>

definition runtime_holdings :: "runtime_life \<Rightarrow> resource multiset" where
  "runtime_holdings rl = part (rl_listener rl) {#ListenerFd#} + part (rl_pool_started rl) (holdings (rl_pool rl))"

definition runtime_idle :: "runtime_life \<Rightarrow> bool" where
  "runtime_idle rl \<longleftrightarrow> \<not> rl_listener rl \<and> \<not> rl_pool_started rl \<and> \<not> rl_signal rl \<and> rl_pool rl = pool_zero"

definition runtime_ok :: "runtime_life \<Rightarrow> bool" where
  "runtime_ok rl \<longleftrightarrow> life_ok (rl_pool rl) \<and> (\<not> rl_pool_started rl \<longrightarrow> rl_pool rl = pool_zero)"

lemma idle_holdings: "runtime_idle rl \<Longrightarrow> runtime_holdings rl = {#} \<and> runtime_ok rl"
  by (simp add: runtime_idle_def runtime_holdings_def runtime_ok_def)

lemma signals_owns:
  "install_signal_handlers rl s = (r, rl', s') \<Longrightarrow> owns R s \<Longrightarrow> owns R s' \<and> rl' = (if r = Inr () then rl\<lparr>rl_signal := True\<rparr> else rl)"
  by (auto simp: install_signal_handlers_def split: prod.splits option.splits dest: call_rules)

lemma shutdown_runtime_owns:
  assumes run: "shutdown_runtime rl s = (rl', s')" and rl: "runtime_ok rl" and R: "owns (runtime_holdings rl + R) s"
  shows "runtime_idle rl' \<and> owns R s'"
proof -
  let ?s = "if rl_listener rl then release_res ListenerFd s else s"
  have o1: "owns (part (rl_pool_started rl) (holdings (rl_pool rl)) + R) ?s"
    by (rule listener_object.dispose_part) (use R in \<open>simp add: runtime_holdings_def union_assoc\<close>)
  show ?thesis
  proof (cases "rl_pool_started rl")
    case False
    with run rl o1 show ?thesis by (auto simp: shutdown_runtime_def Let_def runtime_idle_def runtime_ok_def)
  next
    case True
    obtain p1 s1 where 1: "thread_pool_shutdown (rl_pool rl) ?s = (p1, s1)" by fastforce
    obtain p2 s2 where 2: "thread_pool_destroy p1 s1 = (p2, s2)" by fastforce
    have "life_ok p1 \<and> owns (holdings p1 + R) s1"
      using thread_pool_shutdown_owns [OF 1, of R] rl o1 True by (simp add: runtime_ok_def)
    with thread_pool_destroy_owns [OF 2, of R] have "p2 = pool_zero \<and> owns R s2" by blast
    moreover have "s' = s2" "rl_pool rl' = p2" "\<not> rl_listener rl'" "\<not> rl_pool_started rl'" "\<not> rl_signal rl'"
      using run 1 2 True by (auto simp: shutdown_runtime_def Let_def simp del: if_split)
    ultimately show ?thesis by (simp add: runtime_idle_def)
  qed
qed

lemma start_runtime_owns:
  assumes run: "start_runtime config (rl0, s) = (r, (rl, s'))" and R: "owns R s"
  shows "if r = Inr () then runtime_ok rl \<and> rl_listener rl \<and> rl_pool_started rl \<and> rl_signal rl \<and> owns (runtime_holdings rl + R) s'
    else runtime_idle rl \<and> owns R s'"
proof -
  let ?rl = "runtime_zero (rl_db rl0)"
  obtain ok p s1 where 1: "thread_pool_setup (nat (cfg_worker_count config)) (runtime_queue_capacity (cfg_worker_count config))
    pool_zero s = (ok, p, s1)" by (metis prod.exhaust)
  note pool = thread_pool_setup_owns [OF 1 R]
  let ?rl1 = "?rl\<lparr>rl_pool := p, rl_pool_started := True\<rparr>"
  obtain r2 s2 where 2: "create_listener_socket (cfg_port config) s1 = (r2, s2)" by fastforce
  obtain r3 rl3 s3 where 3: "install_signal_handlers (?rl1\<lparr>rl_listener := True\<rparr>) s2 = (r3, rl3, s3)" by (metis prod.exhaust)
  note run' = run [unfolded start_runtime_def Let_def fst_conv snd_conv]
  show ?thesis
  proof (cases ok)
    case False
    with run' 1 pool show ?thesis by (auto simp: runtime_zero_def runtime_idle_def)
  next
    case True
    with pool have ok1: "runtime_ok ?rl1" and o1: "owns (holdings p + R) s1" by (simp_all add: runtime_ok_def)
    note o2 = listener_object.create_owns [OF 2 o1]
    show ?thesis
    proof (cases r2)
      case (Inl e)
      then have "owns (runtime_holdings ?rl1 + R) s2" using o2 by (simp add: runtime_holdings_def runtime_zero_def)
      from shutdown_runtime_owns [OF _ ok1 this] run' 1 2 True Inl show ?thesis by (auto simp: runtime_zero_def)
    next
      case (Inr u)
      have ok3: "runtime_ok rl3" and o3: "owns (runtime_holdings rl3 + R) s3"
        and flags: "rl_listener rl3" "rl_pool_started rl3" "r3 = Inr () \<longrightarrow> rl_signal rl3"
        using signals_owns [OF 3 o2] ok1 Inr by (auto simp: runtime_ok_def runtime_holdings_def runtime_zero_def split: if_splits)
      show ?thesis
      proof (cases r3)
        case (Inl e)
        with shutdown_runtime_owns [OF _ ok3 o3] run' 1 2 3 True Inr show ?thesis by (auto simp: runtime_zero_def)
      next
        case r3: (Inr u)
        with ok3 o3 flags run' 1 2 3 True Inr show ?thesis by (auto simp: runtime_zero_def)
      qed
    qed
  qed
qed

lemma stop_runtime_owns:
  assumes "runtime_ok (fst ctx)" "owns (runtime_holdings (fst ctx) + R) (snd ctx)"
  shows "runtime_ok (fst (stop_runtime ctx)) \<and> owns (runtime_holdings (fst (stop_runtime ctx)) + R) (snd (stop_runtime ctx))"
  using assms
  by (cases ctx; cases "rl_listener (fst ctx)") (auto simp: stop_runtime_def runtime_ok_def runtime_holdings_def owns_release)

lemma on_signal_owns:
  assumes "runtime_ok (fst ctx)" "owns (runtime_holdings (fst ctx) + R) (snd ctx)"
  shows "runtime_ok (fst (on_signal b ctx)) \<and> owns (runtime_holdings (fst (on_signal b ctx)) + R) (snd (on_signal b ctx))"
  using assms stop_runtime_owns [OF assms] by (simp add: on_signal_def)

lemma wait_runtime_owns:
  "wait_runtime turns ctx = (r, (rl, s')) \<Longrightarrow> runtime_ok (fst ctx) \<Longrightarrow> owns (runtime_holdings (fst ctx) + R) (snd ctx) \<Longrightarrow>
   runtime_idle rl \<and> owns R s'"
proof (induction turns ctx rule: wait_runtime.induct)
  case (1 ctx)
  then show ?case using shutdown_runtime_owns [of "fst ctx" "snd ctx" rl s' R] by simp
next
  case (2 sig1 a sig2 turns ctx)
  let ?ctx1 = "on_signal sig1 ctx"
  let ?ctx2 = "if rl_stop (fst ?ctx1) then ?ctx1 else on_signal sig2 ?ctx1"
  have o2: "runtime_ok (fst ?ctx2)" "owns (runtime_holdings (fst ?ctx2) + R) (snd ?ctx2)"
    using on_signal_owns [OF "2.prems"(2,3), of sig1] on_signal_owns [of ?ctx1 R sig2] by auto
  show ?case
  proof (cases "wait_next (rl_stop (fst ?ctx1)) a (rl_stop (fst ?ctx2))")
    case (Leave mode)
    with "2.prems"(1) have "shutdown_runtime (fst ?ctx2) (snd ?ctx2) = (rl, s')"
      by (cases mode) (simp_all add: Let_def del: if_split)
    from shutdown_runtime_owns [OF this o2] show ?thesis .
  next
    case (Serve fd)
    with "2.prems"(1) have "wait_runtime turns ?ctx2 = (r, (rl, s'))" by (simp add: Let_def del: if_split)
    from "2.IH"(1) [OF refl refl Serve this o2] show ?thesis .
  next
    case Retry
    with "2.prems"(1) have "wait_runtime turns ?ctx2 = (r, (rl, s'))" by (simp add: Let_def del: if_split)
    from "2.IH"(2) [OF refl refl Retry this o2] show ?thesis .
  qed
qed

section \<open>The theorems of the lifecycle\<close>

text \<open>What the main function does with the context of its hooks.\<close>

lemma server_main_context:
  assumes "server_main fs cwd env argv (Some h) ctx = Some (r, ctx')"
    "hk_start h = Some start" "hk_wait h = Some wait" "hk_request_stop h = Some stop"
  obtains "ctx' = ctx" | config e where "start config ctx = (Inl e, ctx')"
    | config ctx1 res where "start config ctx = (Inr (), ctx1)" "wait ctx1 = (res, ctx')"
    | config ctx1 res ctx2 where "start config ctx = (Inr (), ctx1)" "wait ctx1 = (res, ctx2)" "ctx' = stop ctx2"
  using assms
  by (auto simp: server_main_def validate_hooks_def Let_def split: option.splits sum.splits prod.splits if_splits
      simp del: append.simps)

lemma stop_idle: "runtime_idle rl \<Longrightarrow> stop_runtime (rl, s) = (rl\<lparr>rl_stop := True, rl_listener := False\<rparr>, s)"
  by (simp add: stop_runtime_def runtime_idle_def)

text \<open>
  C16 (no leaks): however the server program ends, with its help, with a refused configuration, after any
  failing allocation, thread creation or system call during its start, after a failing \<open>accept\<close>, or
  after a signal, it has released every mutex, condition variable, array, thread and the listening
  socket it had acquired, none of them twice, and the signal handler no longer refers to the runtime.
\<close>

theorem server_releases_everything:
  assumes "db_server_main fs cwd env turns argv db0 s = Some (r, (rl, s'))" "\<not> sys_misused s"
  shows "mset (sys_held s') = mset (sys_held s) \<and> \<not> sys_misused s' \<and> \<not> rl_signal rl"
proof -
  let ?R = "mset (sys_held s)"
  have s: "owns ?R s" using assms(2) by (simp add: owns_def)
  have main: "server_main fs cwd env argv (Some (runtime_hooks turns)) (runtime_zero db0, s) = Some (r, (rl, s'))"
    using assms(1) by (simp add: db_server_main_def)
  have waited: "runtime_idle (fst ctx2) \<and> owns ?R (snd ctx2)"
    if "start_runtime config (runtime_zero db0, s) = (Inr (), ctx1)" "wait_runtime turns ctx1 = (res, ctx2)"
    for config ctx1 res ctx2
    using start_runtime_owns [of config "runtime_zero db0" s "Inr ()" "fst ctx1" "snd ctx1"] s that
      wait_runtime_owns [of turns ctx1 res "fst ctx2" "snd ctx2" ?R] by simp
  have "\<not> rl_signal rl \<and> owns ?R s'"
  proof (rule server_main_context [OF main])
    show "(rl, s') = (runtime_zero db0, s) \<Longrightarrow> ?thesis" using s by (simp add: runtime_zero_def)
  next
    fix config e assume "start_runtime config (runtime_zero db0, s) = (Inl e, (rl, s'))"
    from start_runtime_owns [OF this s] show ?thesis by (simp add: runtime_idle_def)
  next
    fix config ctx1 res
    assume "start_runtime config (runtime_zero db0, s) = (Inr (), ctx1)" "wait_runtime turns ctx1 = (res, (rl, s'))"
    from waited [OF this] show ?thesis by (simp add: runtime_idle_def)
  next
    fix config ctx1 res ctx2
    assume "start_runtime config (runtime_zero db0, s) = (Inr (), ctx1)" "wait_runtime turns ctx1 = (res, ctx2)"
      "(rl, s') = stop_runtime ctx2"
    with waited [of config ctx1 res ctx2] stop_idle [of "fst ctx2" "snd ctx2"] show ?thesis by (auto simp: runtime_idle_def)
  qed (simp_all add: runtime_hooks_def)
  then show ?thesis by (simp add: owns_def)
qed

text \<open>A sample run: the creation of the second thread fails.\<close>

definition sample_sys :: sys where
  "sample_sys = \<lparr>sys_calls = replicate 11 None @ [Some ''Resource temporarily unavailable''], sys_held = [], sys_misused = False\<rparr>"

theorem server_releases_everything_witness:
  "\<exists>r rl s'. db_server_main sample_dirs (Some ''/home'') Map.empty []
      [''db_server'', ''9000'', ''--schema-dir'', ''/s'', ''--data-dir'', ''/d'', ''--repo-root'', ''/r'']
      \<lparr>db_fs = sample_dirs, db_reg = registry_empty\<rparr> sample_sys = Some (r, (rl, s')) \<and>
    exit_stderr r = [''error: failed to initialize worker pool''] \<and> sys_held s' = [] \<and> \<not> sys_misused s'"
proof -
  let ?main = "db_server_main sample_dirs (Some ''/home'') Map.empty []
      [''db_server'', ''9000'', ''--schema-dir'', ''/s'', ''--data-dir'', ''/d'', ''--repo-root'', ''/r'']
      \<lparr>db_fs = sample_dirs, db_reg = registry_empty\<rparr> sample_sys"
  let ?load = "server_runtime_config_load sample_dirs (Some ''/home'') Map.empty
      [''db_server'', ''9000'', ''--schema-dir'', ''/s'', ''--data-dir'', ''/d'', ''--repo-root'', ''/r'']"
  have "map_option (map_sum id (\<lambda>c. (cfg_show_help c, cfg_worker_count c))) ?load = Some (Inr (False, 4))" by code_simp
  then obtain config where load: "?load = Some (Inr config)" "\<not> cfg_show_help config" "cfg_worker_count config = 4"
    by (cases ?load; cases "the ?load") auto
  have "fst (thread_pool_setup 4 16 pool_zero sample_sys) = False"
    by (simp add: thread_pool_setup_def sample_sys_def lock_manager_setup_def job_queue_setup_def start_workers_def
        acquire_res_def attempt_call_def Let_def eval_nat_numeral)
  then obtain p s1 where "thread_pool_setup 4 16 pool_zero sample_sys = (False, p, s1)" by (metis prod.exhaust fst_conv)
  moreover have "runtime_queue_capacity 4 = 16" by code_simp
  ultimately obtain ctx1 where start: "start_runtime config (runtime_zero \<lparr>db_fs = sample_dirs, db_reg = registry_empty\<rparr>, sample_sys) =
      (Inl ''failed to initialize worker pool'', ctx1)"
    by (simp add: start_runtime_def runtime_zero_def load(3))
  obtain r where "?main = Some (r, ctx1)" "exit_stderr r = [''error: failed to initialize worker pool'']"
    using load(1,2) start by (simp add: db_server_main_def server_main_def runtime_hooks_def validate_hooks_def report_def error_line_def)
  then obtain rl s' where main: "?main = Some (r, (rl, s'))" "exit_stderr r = [''error: failed to initialize worker pool'']"
    by (cases ctx1) simp
  from server_releases_everything [OF main(1)] main show ?thesis by (auto simp: sample_sys_def)
qed

text \<open>
  The process of \<open>Server_Runtime\<close> is what a successful start leaves: a pool that accepts jobs with as
  many workers as threads were created, and a listening socket.
\<close>

theorem start_runtime_refines:
  assumes "start_runtime config (rl0, s) = (Inr (), (rl, s'))" "\<not> sys_misused s"
  shows "\<exists>rt. db_server_runtime_start config (Inr ()) (Inr ()) = Inr rt \<and>
    length (tp_workers (rt_pool rt)) = worker_count (rl_pool rl) \<and> tp_accepting (rt_pool rt) = accepting_jobs (rl_pool rl) \<and>
    rt_listening rt = rl_listener rl \<and> rt_pool_started rt = rl_pool_started rl"
proof -
  let ?n = "nat (cfg_worker_count config)" and ?c = "runtime_queue_capacity (cfg_worker_count config)"
  obtain ok p s1 where run: "thread_pool_setup ?n ?c pool_zero s = (ok, p, s1)" by (metis prod.exhaust)
  have "owns (mset (sys_held s)) s" using assms(2) by (simp add: owns_def)
  note pool = thread_pool_setup_owns [OF run this] and life = start_runtime_owns [OF assms(1) this]
  have "ok \<and> rl_pool rl = p"
    using assms(1) run by (cases ok)
      (auto simp: start_runtime_def runtime_zero_def install_signal_handlers_def Let_def split: sum.splits prod.splits option.splits)
  moreover from this run have "?n \<noteq> 0" "?c \<noteq> 0" by (auto simp: thread_pool_setup_def split: if_splits)
  ultimately show ?thesis using pool life
    by (simp add: db_server_runtime_start_def thread_pool_init_def runtime_started_def)
qed

theorem start_runtime_refines_witness:
  "\<exists>rt. db_server_runtime_start server_runtime_config_init (Inr ()) (Inr ()) = Inr rt \<and> length (tp_workers (rt_pool rt)) = 4"
proof -
  let ?s = "\<lparr>sys_calls = [], sys_held = [], sys_misused = False\<rparr>" and ?rl = "runtime_zero \<lparr>db_fs = sample_dirs, db_reg = registry_empty\<rparr>"
  obtain r rl s' where run: "start_runtime server_runtime_config_init (?rl, ?s) = (r, (rl, s'))" by (metis prod.exhaust)
  then have "r = Inr () \<and> worker_count (rl_pool rl) = 4"
    by (simp add: start_runtime_def runtime_zero_def server_runtime_config_init_def SERVER_RUNTIME_DEFAULT_WORKER_COUNT_def
        runtime_queue_capacity_def SERVER_RUNTIME_MIN_QUEUE_CAPACITY_def SERVER_RUNTIME_QUEUE_CAPACITY_FACTOR_def
        thread_pool_setup_def lock_manager_setup_def job_queue_setup_def start_workers_def acquire_res_def attempt_call_def
        create_listener_socket_def install_signal_handlers_def Let_def eval_nat_numeral split: sum.splits)
      auto
  with start_runtime_refines [of server_runtime_config_init ?rl ?s rl s'] run show ?thesis by auto
qed

end
