(* ===== verification/Server_Log.thy ===== *)
theory Server_Log
  imports Server_Runtime
begin

text \<open>
  The log lines of the lock manager (\<open>lock_manager.c\<close>) and of the runtime (\<open>db_server_runtime.c\<close>), with the
  callbacks of a client job that write them. The names of events are UTF-8 text in the source and
  lists of bytes here. Each function returns the line it prints; the worker index of the calling
  thread is an argument.
\<close>

section \<open>The lock manager\<close>

definition EVENT_LOCK_WAIT :: string where
  "EVENT_LOCK_WAIT = map char_of [0xEB, 0x9D, 0xBD, 0x20, 0xEB, 0x8C, 0x80, 0xEA, 0xB8, 0xB0 :: nat]"

definition EVENT_LOCK_TAKEN :: string where
  "EVENT_LOCK_TAKEN = map char_of [0xEB, 0x9D, 0xBD, 0x20, 0xED, 0x9A, 0x8D, 0xEB, 0x93, 0x9D :: nat]"

definition EVENT_LOCK_RELEASED :: string where
  "EVENT_LOCK_RELEASED = map char_of [0xEB, 0x9D, 0xBD, 0x20, 0xED, 0x95, 0xB4, 0xEC, 0xA0, 0x9C :: nat]"

definition log_lock_event :: "int \<Rightarrow> lock_manager option \<Rightarrow> string \<Rightarrow> lock_mode \<Rightarrow> lock_mode \<Rightarrow> string" where
  "log_lock_event current_worker manager event requested effective_mode =
     ''[LOCK] | event='' @ event @ '' | worker='' @ show_int current_worker @
     '' | requested='' @ lock_mode_name requested @ '' | effective='' @ lock_mode_name effective_mode @
     '' | active_readers='' @ show_nat (case manager of None \<Rightarrow> 0 | Some m \<Rightarrow> active_readers m) @
     '' | waiting_writers='' @ show_nat (case manager of None \<Rightarrow> 0 | Some m \<Rightarrow> waiting_writers m) @
     '' | writer_active='' @ show_nat (case manager of None \<Rightarrow> 0 | Some m \<Rightarrow> if writer_active m then 1 else 0) @
     '' |'' @ [LF]"

section \<open>The runtime\<close>

definition EVENT_ASSIGNED :: string where
  "EVENT_ASSIGNED = map char_of [0xEC, 0x8A, 0xA4, 0xEB, 0xA0, 0x88, 0xEB, 0x93, 0x9C, 0x20, 0xED, 0x95, 0xA0, 0xEB, 0x8B, 0xB9 :: nat]"

definition EVENT_FINISHED :: string where
  "EVENT_FINISHED = map char_of [0xEC, 0x9E, 0x91, 0xEC, 0x97, 0x85, 0x20, 0xEC, 0xA2, 0x85, 0xEB, 0xA3, 0x8C :: nat]"

definition runtime_log_event :: "http_request_trace option \<Rightarrow> string \<Rightarrow> int \<Rightarrow> string option \<Rightarrow> int \<Rightarrow> string" where
  "runtime_log_event trace event worker_index result run_status =
     (let req_id = (case trace of None \<Rightarrow> 0 | Some t \<Rightarrow> tr_req_id t);
          meth = (case trace of None \<Rightarrow> ''-'' | Some t \<Rightarrow> dash_if_empty (tr_method t));
          path = (case trace of None \<Rightarrow> ''-'' | Some t \<Rightarrow> dash_if_empty (tr_path t));
          status_text = (case trace of None \<Rightarrow> ''-''
            | Some t \<Rightarrow> if tr_status_code t > 0 then snprintf 16 (show_int (tr_status_code t)) else ''-'');
          result_text = (case result of None \<Rightarrow> ''-'' | Some r \<Rightarrow> dash_if_empty r)
      in ''[RUNTIME] | req_id='' @ show_nat (unat req_id) @ '' | event='' @ event @ '' | thread='' @ show_int worker_index @
         '' | method='' @ meth @ '' | path='' @ path @ '' | status='' @ status_text @ '' | result='' @ result_text @
         '' | run_status='' @ show_int run_status @ '' |'' @ [LF])"

definition assign_client_job :: "http_request_trace \<Rightarrow> int \<Rightarrow> http_request_trace \<times> string" where
  "assign_client_job trace worker_index =
     (let trace1 = trace\<lparr>tr_worker_index := worker_index\<rparr> in
      (trace1, runtime_log_event (Some trace1) EVENT_ASSIGNED worker_index None 0))"

definition notify_client_job :: "http_request_trace \<Rightarrow> job_result \<Rightarrow> int \<Rightarrow> int \<Rightarrow> string" where
  "notify_client_job trace result worker_index run_status =
     runtime_log_event (Some trace) EVENT_FINISHED worker_index (Some (job_result_name result)) run_status"

definition runtime_next_request_id :: "64 word \<Rightarrow> 64 word \<times> 64 word" where
  "runtime_next_request_id sequence = (sequence + 1, sequence + 1)"

section \<open>Entries and lines\<close>

text \<open>An entry is one line when its only line break is the last character.\<close>

definition one_line :: "string \<Rightarrow> bool" where
  "one_line entry \<longleftrightarrow> entry \<noteq> [] \<and> last entry = LF \<and> LF \<notin> set (butlast entry)"

lemma one_line_append [simp]: "one_line (s @ [LF]) \<longleftrightarrow> LF \<notin> set s"
  by (simp add: one_line_def)

lemma LF_show_nat [simp]: "LF \<notin> set (show_nat n)"
  using show_nat_digits [of LF n] by (auto simp: isdigit_def byte_def)

lemma LF_show_int [simp]: "LF \<notin> set (show_int i)"
  by (simp add: show_int_def)

lemma LF_snprintf_show [simp]: "LF \<notin> set (snprintf n (show_int i))"
  by (auto simp: snprintf_def dest: in_set_takeD)

lemma LF_mode_name [simp]: "LF \<notin> set (lock_mode_name m)"
  by (cases m) simp_all

lemma LF_result_name [simp]: "LF \<notin> set (job_result_name r)"
  by (cases r) simp_all

lemma LF_events [simp]:
  "LF \<notin> set EVENT_LOCK_WAIT" "LF \<notin> set EVENT_LOCK_TAKEN" "LF \<notin> set EVENT_LOCK_RELEASED"
  "LF \<notin> set EVENT_ASSIGNED" "LF \<notin> set EVENT_FINISHED" "LF \<notin> set EVENT_RECEIVED" "LF \<notin> set EVENT_ANSWERED"
  by code_simp+

lemma LF_dash [simp]: "LF \<in> set (dash_if_empty s) \<longleftrightarrow> LF \<in> set s"
  by (simp add: dash_if_empty_def)

lemma lock_log_one_line:
  "event \<in> {EVENT_LOCK_WAIT, EVENT_LOCK_TAKEN, EVENT_LOCK_RELEASED} \<Longrightarrow> one_line (log_lock_event w m event r e)"
  unfolding log_lock_event_def append_assoc [symmetric] one_line_append by auto

lemma runtime_log_one_line:
  assumes "LF \<notin> set event" "\<forall>r. result = Some r \<longrightarrow> LF \<notin> set r"
  shows "one_line (runtime_log_event (Some t) event w result st) \<longleftrightarrow> LF \<notin> set (tr_method t) \<and> LF \<notin> set (tr_path t)"
  using assms unfolding runtime_log_event_def Let_def append_assoc [symmetric] one_line_append by (auto split: option.split)

text \<open>
  Log entries: every entry the runtime writes for a job is one line exactly when the method and
  the path of its request hold no line feed. The parser does not guarantee that: it accepts a
  request whose path has a line feed, and its entries then break into two lines.
\<close>

theorem job_log_one_line:
  "(one_line (snd (assign_client_job t w)) \<longleftrightarrow> LF \<notin> set (tr_method t) \<and> LF \<notin> set (tr_path t)) \<and>
   (one_line (notify_client_job t result w st) \<longleftrightarrow> LF \<notin> set (tr_method t) \<and> LF \<notin> set (tr_path t)) \<and>
   (\<exists>request. http_parse_request (''GET /a'' @ [LF] @ ''b HTTP/1.1'' @ [CR, LF, CR, LF]) = Inr request \<and>
      (\<forall>t0 t1. http_trace_copy_request (Some t0) request = Some t1 \<longrightarrow> \<not> one_line (notify_client_job t1 result w st)))"
proof -
  let ?parse = "http_parse_request (''GET /a'' @ [LF] @ ''b HTTP/1.1'' @ [CR, LF, CR, LF])"
  have "map_sum id rq_path ?parse = Inr (''/a'' @ [LF] @ ''b'')" by code_simp
  then obtain request where r: "?parse = Inr request" "rq_path request = ''/a'' @ [LF] @ ''b''" by (cases ?parse) auto
  then have "LF \<in> set (tr_path t1)" if "http_trace_copy_request (Some t0) request = Some t1" for t0 t1
    using that by (auto simp: http_trace_copy_request_def snprintf_def)
  with r(1) show ?thesis
    by (fastforce simp: assign_client_job_def notify_client_job_def Let_def runtime_log_one_line)
qed

end
