(* ===== verification/Command_Line.thy ===== *)
theory Command_Line
  imports Engine "HOL-Library.While_Combinator"
begin

text \<open>
  The command line program, \<open>app/main.c\<close>, with \<open>read_entire_file\<close> of \<open>common/util.c\<close>: finding the SQL
  text in the arguments, a file or the standard input, running it, and the interactive loop. The
  standard input is a string with a flag for a failing read; whether it is a terminal and the text of
  the elapsed time are arguments. The arguments include the
  name of the program, so that \<open>load_noninteractive_sql\<close> never sees an empty argument list on a
  terminal. Allocation succeeds, the file system has no special files, and a directory opened as a
  file has a size but no bytes to read. A path is resolved with the limits of Linux on the length
  of a path and of its components.
\<close>

section \<open>Reading input\<close>

text \<open>
  A component is looked up only when the directories before it exist: a path with a component over
  the limit is refused with \<open>ENAMETOOLONG\<close> then, and with \<open>ENOENT\<close> or \<open>ENOTDIR\<close> otherwise, which the
  code does not tell apart.
\<close>

definition NAME_MAX :: nat where
  "NAME_MAX = 255"

definition PATH_MAX :: nat where
  "PATH_MAX = 4096"

definition component_at :: "string \<Rightarrow> nat \<Rightarrow> string" where
  "component_at path i = takeWhile (\<lambda>c. c \<noteq> CHR ''/'') (drop i path)"

definition is_directory :: "filesystem \<Rightarrow> string \<Rightarrow> bool" where
  "is_directory fs path \<longleftrightarrow> (case fs path of Some (Directory es) \<Rightarrow> True | _ \<Rightarrow> False)"

definition name_too_long :: "filesystem \<Rightarrow> string \<Rightarrow> bool" where
  "name_too_long fs path \<longleftrightarrow> PATH_MAX \<le> length path \<or>
     list_ex (\<lambda>i. NAME_MAX < length (component_at path i) \<and>
       (i = 0 \<or> path ! (i - 1) = CHR ''/'' \<and> (i = 1 \<or> is_directory fs (take (i - 1) path)))) [0..<length path]"

definition read_entire_file :: "filesystem \<Rightarrow> string \<Rightarrow> string outcome" where
  "read_entire_file fs path =
     (case (if name_too_long fs path then Inl ENAMETOOLONG else fopen_rb fs path) of
        Inl e \<Rightarrow> Inl (format_system_error 256 ''failed to open SQL file'' path e)
      | Inr content \<Rightarrow>
          if is_directory fs path then Inl (snprintf 256 (''failed to read SQL file: '' @ path))
          else Inr content)"

definition resolve_bare_argument_file :: "filesystem \<Rightarrow> string \<Rightarrow> bool outcome" where
  "resolve_bare_argument_file fs path =
     (if name_too_long fs path
      then Inl (format_system_error 256 ''failed to access SQL path'' path ENAMETOOLONG)
      else case fs path of
        Some (Directory es) \<Rightarrow> Inl (snprintf 256 (''path is a directory, not a SQL file: '' @ path))
      | Some _ \<Rightarrow> Inr True
      | None \<Rightarrow> Inr False)"

definition is_blank_string :: "string \<Rightarrow> bool" where
  "is_blank_string s \<longleftrightarrow> list_all isspace (c_str s)"

text \<open>The size of the buffer \<open>join_arguments_as_sql\<close> allocates, and the text it writes.\<close>

fun join_total_length :: "string list \<Rightarrow> nat" where
  "join_total_length [] = 1"
| "join_total_length [a] = length a + 1"
| "join_total_length (a # b # rest) = length a + 1 + join_total_length (b # rest)"

fun join_text :: "string list \<Rightarrow> string" where
  "join_text [] = []"
| "join_text [a] = a"
| "join_text (a # b # rest) = a @ [SPC] @ join_text (b # rest)"

definition join_arguments_as_sql :: "string list \<Rightarrow> string outcome" where
  "join_arguments_as_sql args = (if args = [] then Inl ''missing SQL statement'' else Inr (join_text args))"

text \<open>The loop of \<open>read_stream\<close>: it ends with the first read that does not fill the chunk.\<close>

definition STREAM_CHUNK :: nat where
  "STREAM_CHUNK = 1024"

definition double_capacity :: "nat \<Rightarrow> nat \<Rightarrow> nat" where
  "double_capacity new_capacity required = while (\<lambda>n. n < required) (\<lambda>n. n * 2) new_capacity"

function stream_loop :: "string \<Rightarrow> string \<Rightarrow> nat \<Rightarrow> string \<times> nat" where
  "stream_loop stream buffer capacity =
     (let chunk = take STREAM_CHUNK stream;
          capacity' = (if chunk \<noteq> [] then double_capacity (if capacity = 0 then STREAM_CHUNK else capacity)
             (length buffer + length chunk + 1) else capacity)
      in if length chunk < STREAM_CHUNK then (buffer @ chunk, capacity')
         else stream_loop (drop STREAM_CHUNK stream) (buffer @ chunk) capacity')"
  by pat_completeness auto
termination by (relation "measure (\<lambda>(stream, buffer, capacity). length stream)") (auto simp: STREAM_CHUNK_def)

declare stream_loop.simps [simp del]

record standard_input =
  in_text :: string
  in_fails :: bool
  in_terminal :: bool

definition read_standard_input :: "standard_input \<Rightarrow> string outcome" where
  "read_standard_input input =
     (if in_fails input then Inl ''failed to read standard input'' else Inr (fst (stream_loop (in_text input) [] 0)))"

definition load_sql_from_argument :: "filesystem \<Rightarrow> string \<Rightarrow> bool \<Rightarrow> string outcome" where
  "load_sql_from_argument fs v force_file =
     (if force_file then read_entire_file fs v
      else sbind (resolve_bare_argument_file fs v) (\<lambda>should_read_file.
        if should_read_file then read_entire_file fs v else Inr v))"

text \<open>The SQL text of a non-interactive run, or \<open>None\<close> when only the help is asked for.\<close>

definition load_noninteractive_sql :: "filesystem \<Rightarrow> standard_input \<Rightarrow> string list \<Rightarrow> string option outcome" where
  "load_noninteractive_sql fs input argv =
     (case drop 1 argv of
        [] \<Rightarrow> sbind (read_standard_input input) (\<lambda>s. Inr (Some s))
      | option # rest \<Rightarrow>
          if option = ''-h'' \<or> option = ''--help'' then Inr None
          else map_sum id Some
           (if option = ''-e'' \<or> option = ''--execute'' then join_arguments_as_sql rest
            else if option = ''-f'' \<or> option = ''--file'' then
              (case rest of
                 [] \<Rightarrow> Inl (snprintf 256 (''missing file path after '' @ option))
               | path # extra \<Rightarrow>
                   if path = ''-'' then read_standard_input input
                   else if extra \<noteq> [] then Inl ''unexpected arguments after file path''
                   else read_entire_file fs path)
            else if char_at option 0 = CHR ''-'' \<and> option \<noteq> ''-''
            then Inl (snprintf 256 (''unknown option: '' @ option))
            else if rest = [] \<and> option = ''-'' then read_standard_input input
            else if rest = [] then load_sql_from_argument fs option False
            else join_arguments_as_sql (option # rest)))"

section \<open>Running a statement\<close>

text \<open>The output of a successful statement: the table, the message and the elapsed time.\<close>

definition success_text :: "string \<Rightarrow> exec_ok \<Rightarrow> string" where
  "success_text elapsed ex =
     ex_output ex @ (if ex_message ex \<noteq> [] then ex_message ex @ [LF] else []) @
     ''Elapsed time: '' @ elapsed @ '' sec'' @ [LF]"

text \<open>What a run prints on standard output, or the fault it ends with, and the database.\<close>

definition execute_sql_text :: "string \<Rightarrow> string \<Rightarrow> db \<Rightarrow> (fault + string) \<times> db" where
  "execute_sql_text elapsed sql_text db0 =
     (if is_blank_string sql_text then (Inl (Message ''missing SQL statement''), db0)
      else case lex_sql (c_str sql_text) of
        Inl e \<Rightarrow> (Inl (Message e), db0)
      | Inr tokens \<Rightarrow>
     (case parse_statement tokens of
        Inl (ParseMessage e) \<Rightarrow> (Inl (Message (snprintf 256 e)), db0)
      | Inl TokenOutOfBounds \<Rightarrow> (Inl ArrayOverflow, db0)
      | Inr stmt \<Rightarrow>
     (case execute_statement stmt ''schema'' ''data'' db0 of
        (Inl (Message e), db1) \<Rightarrow> (Inl (Message (snprintf 256 e)), db1)
      | (Inl ArrayOverflow, db1) \<Rightarrow> (Inl ArrayOverflow, db1)
      | (Inr ex, db1) \<Rightarrow> (Inr (success_text elapsed ex), db1))))"

section \<open>The interactive loop and the main function\<close>

record console =
  con_out :: string
  con_err :: string

definition put_out :: "string \<Rightarrow> console \<Rightarrow> console" where
  "put_out s con = con\<lparr>con_out := con_out con @ s\<rparr>"

definition put_error :: "string \<Rightarrow> console \<Rightarrow> console" where
  "put_error e con = con\<lparr>con_err := con_err con @ ''error: '' @ e @ [LF]\<rparr>"

text \<open>The help, with its Korean text as UTF-8 bytes: the lines that \<open>print_usage\<close> writes.\<close>

definition utf8 :: "nat list \<Rightarrow> string" where
  "utf8 bytes = map char_of bytes"

definition print_usage :: "string \<Rightarrow> string list" where
  "print_usage program_name =
     [''============================================================'',
      '' SQL Processor '' @ utf8 [0xEB, 0x8F, 0x84, 0xEC, 0x9B, 0x80, 0xEB, 0xA7, 0x90],
      ''============================================================'',
      [],
      ''['' @ utf8 [0xEC, 0x82, 0xAC, 0xEC, 0x9A, 0xA9, 0xEB, 0xB2, 0x95] @ '']'',
      ''  '' @ program_name @ '' ['' @ utf8 [0xEC, 0x98, 0xB5, 0xEC, 0x85, 0x98] @ '']... [SQL_'' @
        utf8 [0xEB, 0x98, 0x90, 0xEB, 0x8A, 0x94] @ ''_'' @ utf8 [0xED, 0x8C, 0x8C, 0xEC, 0x9D, 0xBC] @ '']'',
      ''  '' @ program_name,
      [],
      ''['' @ utf8 [0xEC, 0x98, 0xB5, 0xEC, 0x85, 0x98] @ '']'',
      ''  -e, --execute SQL   SQL '' @ utf8 [0xEB, 0xAC, 0xB8, 0xEC, 0x9E, 0xA5, 0xEC, 0x9D, 0x84] @ '' '' @
        utf8 [0xEC, 0xA7, 0x81, 0xEC, 0xA0, 0x91] @ '' '' @
        utf8 [0xEC, 0x8B, 0xA4, 0xED, 0x96, 0x89, 0xED, 0x95, 0xA9, 0xEB, 0x8B, 0x88, 0xEB, 0x8B, 0xA4],
      ''  -f, --file PATH     PATH'' @ utf8 [0xEC, 0x97, 0x90, 0xEC, 0x84, 0x9C] @ '' SQL '' @
        utf8 [0xED, 0x8C, 0x8C, 0xEC, 0x9D, 0xBC, 0xEC, 0x9D, 0x84] @ '' '' @
        utf8 [0xEC, 0x9D, 0xBD, 0xEC, 0x96, 0xB4] @ '' '' @
        utf8 [0xEC, 0x8B, 0xA4, 0xED, 0x96, 0x89, 0xED, 0x95, 0xA9, 0xEB, 0x8B, 0x88, 0xEB, 0x8B, 0xA4],
      ''  -h, --help          '' @ utf8 [0xEC, 0x9D, 0xB4] @ '' '' @
        utf8 [0xEB, 0x8F, 0x84, 0xEC, 0x9B, 0x80, 0xEB, 0xA7, 0x90, 0xEC, 0x9D, 0x84] @ '' '' @
        utf8 [0xEC, 0xB6, 0x9C, 0xEB, 0xA0, 0xA5, 0xED, 0x95, 0xA9, 0xEB, 0x8B, 0x88, 0xEB, 0x8B, 0xA4],
      [],
      ''['' @ utf8 [0xEB, 0x8C, 0x80, 0xED, 0x99, 0x94, 0xED, 0x98, 0x95] @ '' '' @
        utf8 [0xEB, 0xAA, 0xA8, 0xEB, 0x93, 0x9C] @ '']'',
      ''  '' @ utf8 [0xED, 0x84, 0xB0, 0xEB, 0xAF, 0xB8, 0xEB, 0x84, 0x90, 0xEC, 0x97, 0x90, 0xEC, 0x84, 0x9C] @
        '' '' @ utf8 [0xEC, 0x9D, 0xB8, 0xEC, 0x9E, 0x90] @ '' '' @ utf8 [0xEC, 0x97, 0x86, 0xEC, 0x9D, 0xB4] @
        '' '' @ utf8 [0xEC, 0x8B, 0xA4, 0xED, 0x96, 0x89, 0xED, 0x95, 0x98, 0xEB, 0xA9, 0xB4] @ '' '' @
        utf8 [0xEB, 0x8C, 0x80, 0xED, 0x99, 0x94, 0xED, 0x98, 0x95] @ '' '' @
        utf8 [0xEB, 0xAA, 0xA8, 0xEB, 0x93, 0x9C, 0xEA, 0xB0, 0x80] @ '' '' @
        utf8 [0xEC, 0x8B, 0x9C, 0xEC, 0x9E, 0x91, 0xEB, 0x90, 0xA9, 0xEB, 0x8B, 0x88, 0xEB, 0x8B, 0xA4] @ ''.'',
      ''  '' @ utf8 [0xEB, 0x8C, 0x80, 0xED, 0x99, 0x94, 0xED, 0x98, 0x95] @ '' '' @
        utf8 [0xEB, 0xAA, 0xA8, 0xEB, 0x93, 0x9C, 0xEC, 0x97, 0x90, 0xEC, 0x84, 0x9C, 0xEB, 0x8A, 0x94] @
        '' SQL '' @ utf8 [0xEB, 0xAC, 0xB8, 0xEC, 0x9E, 0xA5] @ '' '' @ utf8 [0xEB, 0x98, 0x90, 0xEB, 0x8A, 0x94] @
        '' SQL '' @ utf8 [0xED, 0x8C, 0x8C, 0xEC, 0x9D, 0xBC] @ '' '' @
        utf8 [0xEA, 0xB2, 0xBD, 0xEB, 0xA1, 0x9C, 0xEB, 0xA5, 0xBC] @ '' '' @
        utf8 [0xEC, 0x9E, 0x85, 0xEB, 0xA0, 0xA5, 0xED, 0x95, 0xA0] @ '' '' @ utf8 [0xEC, 0x88, 0x98] @ '' '' @
        utf8 [0xEC, 0x9E, 0x88, 0xEC, 0x8A, 0xB5, 0xEB, 0x8B, 0x88, 0xEB, 0x8B, 0xA4] @ ''.'',
      ''  '' @ utf8 [0xED, 0x94, 0x84, 0xEB, 0xA1, 0xAC, 0xED, 0x94, 0x84, 0xED, 0x8A, 0xB8, 0xEB, 0xA5, 0xBC] @
        '' '' @ utf8 [0xEC, 0xA2, 0x85, 0xEB, 0xA3, 0x8C, 0xED, 0x95, 0x98, 0xEB, 0xA0, 0xA4, 0xEB, 0xA9, 0xB4] @
        '' .exit, .quit, exit, quit '' @ utf8 [0xEC, 0xA4, 0x91] @ '' '' @
        utf8 [0xED, 0x95, 0x98, 0xEB, 0x82, 0x98, 0xEB, 0xA5, 0xBC] @ '' '' @
        utf8 [0xEC, 0x9E, 0x85, 0xEB, 0xA0, 0xA5, 0xED, 0x95, 0x98, 0xEC, 0x84, 0xB8, 0xEC, 0x9A, 0x94] @ ''.'',
      [],
      ''['' @ utf8 [0xEC, 0x98, 0x88, 0xEC, 0x8B, 0x9C] @ '']'',
      ''  '' @ program_name @ '' -e '' @ [DQUOTE] @ ''SELECT * FROM student;'' @ [DQUOTE],
      ''  '' @ program_name @ '' -f examples/select_name_age.sql'',
      ''  echo '' @ [DQUOTE] @ ''SELECT name FROM student;'' @ [DQUOTE] @ '' | '' @ program_name,
      [],
      ''============================================================'']"

definition usage_text :: "string \<Rightarrow> string" where
  "usage_text program_name = concat (map (\<lambda>l. l @ [LF]) (print_usage program_name))"

text \<open>A run that leaves the bounds of an array has no further value: the outer \<open>None\<close>.\<close>

definition execute_argument_or_sql :: "string \<Rightarrow> string \<Rightarrow> bool \<Rightarrow> console \<Rightarrow> db \<Rightarrow> (bool \<times> console) option \<times> db" where
  "execute_argument_or_sql elapsed v force_file con db0 =
     (case load_sql_from_argument (db_fs db0) v force_file of
        Inl e \<Rightarrow> (Some (False, put_error e con), db0)
      | Inr sql_text \<Rightarrow>
          (case execute_sql_text elapsed sql_text db0 of
             (Inl (Message e), db1) \<Rightarrow> (Some (False, put_error e con), db1)
           | (Inl ArrayOverflow, db1) \<Rightarrow> (None, db1)
           | (Inr text, db1) \<Rightarrow> (Some (True, put_out text con), db1)))"

definition exit_command :: "string \<Rightarrow> bool" where
  "exit_command input \<longleftrightarrow> input = ''.exit'' \<or> input = ''.quit'' \<or> input = ''exit'' \<or> input = ''quit''"

definition help_command :: "string \<Rightarrow> bool" where
  "help_command input \<longleftrightarrow> input = ''.help'' \<or> input = ''help''"

definition repl_input :: "string \<Rightarrow> string" where
  "repl_input line = trim_whitespace (strip_line_endings (c_str line))"

function repl_loop ::
    "string \<Rightarrow> string \<Rightarrow> bool \<Rightarrow> string \<Rightarrow> bool \<Rightarrow> console \<Rightarrow> db \<Rightarrow> (bool \<times> console) option \<times> db" where
  "repl_loop elapsed program_name fails input had_error con0 db0 =
     (let con = put_out ''sqlparser> '' con0 in
      case fgets LINE_SIZE input of
        None \<Rightarrow>
          if fails then (Some (True, put_error ''failed to read interactive input'' con), db0)
          else (Some (had_error, put_out [LF] con), db0)
      | Some (line, rest) \<Rightarrow>
          if repl_input line = [] then repl_loop elapsed program_name fails rest had_error con db0
          else if exit_command (repl_input line) then (Some (had_error, con), db0)
          else if help_command (repl_input line)
          then repl_loop elapsed program_name fails rest had_error (put_out (usage_text program_name) con) db0
          else (case execute_argument_or_sql elapsed (repl_input line) False con db0 of
              (None, db1) \<Rightarrow> (None, db1)
            | (Some (ok, con1), db1) \<Rightarrow> repl_loop elapsed program_name fails rest (had_error \<or> \<not> ok) con1 db1))"
  by pat_completeness auto
termination
  by (relation "measure (\<lambda>(elapsed, program_name, fails, input, had_error, con, db). length input)") (auto dest: fgets_progress)

declare repl_loop.simps [simp del]

text \<open>The exit code, the console and the database after the program, with the indexes released.\<close>

definition cli_main ::
    "string \<Rightarrow> standard_input \<Rightarrow> string list \<Rightarrow> db \<Rightarrow> (int \<times> console) option \<times> db" where
  "cli_main elapsed input argv db0 =
     (let program_name = (case argv of [] \<Rightarrow> [] | p # _ \<Rightarrow> p); con = \<lparr>con_out = [], con_err = []\<rparr> in
      if length argv = 1 \<and> in_terminal input then
        (case repl_loop elapsed program_name (in_fails input) (in_text input) False con db0 of
           (None, db1) \<Rightarrow> (None, db1)
         | (Some (had_error, con1), db1) \<Rightarrow> (Some (if had_error then 1 else 0, con1), execution_runtime_reset db1))
      else case load_noninteractive_sql (db_fs db0) input argv of
        Inr None \<Rightarrow> (Some (0, put_out (usage_text program_name) con), execution_runtime_reset db0)
      | Inl e \<Rightarrow>
          (let con1 = put_error e con in
           (Some (1, con1\<lparr>con_err := con_err con1 @ usage_text program_name\<rparr>), execution_runtime_reset db0))
      | Inr (Some sql_text) \<Rightarrow>
          (case execute_sql_text elapsed sql_text db0 of
             (Inl (Message e), db1) \<Rightarrow> (Some (1, put_error e con), execution_runtime_reset db1)
           | (Inl ArrayOverflow, db1) \<Rightarrow> (None, db1)
           | (Inr text, db1) \<Rightarrow> (Some (0, put_out text con), execution_runtime_reset db1)))"

section \<open>Buffers are large enough\<close>

lemma double_capacity_ge:
  assumes "0 < n"
  shows "required \<le> double_capacity n required"
proof -
  have "(\<lambda>n. \<not> n < required) (while (\<lambda>n. n < required) (\<lambda>n. n * 2) n)"
    by (rule while_rule [where P = "\<lambda>n. 0 < n" and r = "measure (\<lambda>n. required - n)"]) (use assms in auto)
  then show ?thesis by (simp add: double_capacity_def)
qed

text \<open>\<open>join_arguments_as_sql\<close> fills its buffer exactly, including the terminator.\<close>

lemma join_text_fits: "length (join_text args) + 1 = join_total_length args"
  by (induction args rule: join_text.induct) simp_all

lemma stream_loop_all:
  "buffer \<noteq> [] \<longrightarrow> length buffer < capacity \<Longrightarrow> stream_loop stream buffer capacity = (buffer', capacity') \<Longrightarrow>
   buffer' = buffer @ stream \<and> (buffer' \<noteq> [] \<longrightarrow> length buffer' < capacity')"
proof (induction stream buffer capacity rule: stream_loop.induct)
  case (1 stream buffer capacity)
  let ?chunk = "take STREAM_CHUNK stream"
  let ?cap = "if ?chunk \<noteq> [] then double_capacity (if capacity = 0 then STREAM_CHUNK else capacity)
    (length buffer + length ?chunk + 1) else capacity"
  have pos: "0 < (if capacity = 0 then STREAM_CHUNK else capacity)" by (simp add: STREAM_CHUNK_def)
  have room: "buffer @ ?chunk \<noteq> [] \<longrightarrow> length (buffer @ ?chunk) < ?cap"
    using "1.prems"(1) double_capacity_ge [OF pos, of "length buffer + length ?chunk + 1"] by auto
  show ?case
  proof (cases "length ?chunk < STREAM_CHUNK")
    case True
    then have "?chunk = stream" by simp
    moreover from "1.prems"(2) True have "buffer @ ?chunk = buffer'" "?cap = capacity'"
      by (subst (asm) stream_loop.simps, simp only: Let_def if_True prod.inject)+
    ultimately show ?thesis using room by simp
  next
    case False
    from "1.prems"(2) False have "stream_loop (drop STREAM_CHUNK stream) (buffer @ ?chunk) ?cap = (buffer', capacity')"
      by (subst (asm) stream_loop.simps, simp only: Let_def if_False)
    from "1.IH" [OF refl refl False room this]
    have "buffer' = (buffer @ ?chunk) @ drop STREAM_CHUNK stream" "buffer' \<noteq> [] \<longrightarrow> length buffer' < capacity'" by blast+
    moreover have "(buffer @ ?chunk) @ drop STREAM_CHUNK stream = buffer @ stream" by simp
    ultimately show ?thesis by argo
  qed
qed

lemma read_standard_input_exact:
  "read_standard_input input = (if in_fails input then Inl ''failed to read standard input'' else Inr (in_text input))"
proof -
  obtain b n where r: "stream_loop (in_text input) [] 0 = (b, n)" by fastforce
  from stream_loop_all [OF _ r] have "b = in_text input" by simp
  with r show ?thesis by (simp add: read_standard_input_def)
qed

section \<open>The two front ends agree\<close>

definition engine_request :: "string \<Rightarrow> core_request" where
  "engine_request sql = \<lparr>req_sql = Some sql, req_schema_path = Some ''schema'', req_data_path = Some ''data''\<rparr>"

lemma lex_loop_error: "lex_loop input i tokens = Inl e \<Longrightarrow> length e < 256"
proof (induction input i tokens rule: lex_loop.induct)
  case (1 input i tokens)
  then show ?case by (subst (asm) lex_loop.simps)
    (auto simp: lex_string_def Let_def length_snprintf split: if_splits sum.splits prod.splits option.splits)
qed

lemma lex_sql_error: "lex_sql s = Inl e \<Longrightarrow> snprintf 256 (snprintf MESSAGE_CAPACITY e) = e"
  using lex_loop_error [of s 0 "[]" e] by (simp add: lex_sql_def snprintf_short MESSAGE_CAPACITY_def)

lemma snprintf_message: "snprintf 256 (snprintf MESSAGE_CAPACITY e) = snprintf 256 e"
  by (simp add: snprintf_def MESSAGE_CAPACITY_def)

text \<open>
  C33 (the two front ends agree): on text that is not blank the command line program and the server's
  engine, on the same directories, leave the same database. One reports success exactly when the
  other does; then the program prints the output and the message of the engine's answer, and
  otherwise the engine's message up to the size of its buffer.
\<close>

theorem cli_agrees_with_engine:
  assumes "\<not> is_blank_string sql" "execute_sql_text elapsed sql db0 = (result, db1)"
    "week8_engine_run (engine_request sql) rows0 db0 = (answer, db2)"
  shows "db1 = db2 \<and>
    (case result of
       Inr printed_text \<Rightarrow> \<exists>ex. answer = Some \<lparr>ans_ok = True, ans_rows = int (ex_rows ex),
           ans_message = snprintf MESSAGE_CAPACITY (ex_message ex), ans_output = ex_output ex\<rparr> \<and>
         printed_text = success_text elapsed ex
     | Inl ArrayOverflow \<Rightarrow> answer = None
     | Inl (Message e) \<Rightarrow> \<exists>a. answer = Some a \<and> \<not> ans_ok a \<and> ans_output a = [] \<and> snprintf 256 (ans_message a) = e)"
proof (cases "lex_sql (c_str sql)")
  case (Inl e)
  with assms show ?thesis
    by (auto simp: execute_sql_text_def week8_engine_run_def engine_request_def failed_answer_def lex_sql_error)
next
  case lex: (Inr tokens)
  show ?thesis
  proof (cases "parse_statement tokens")
    case (Inl e)
    with lex assms show ?thesis
      by (auto simp: execute_sql_text_def week8_engine_run_def engine_request_def failed_answer_def snprintf_message
          split: parse_failure.splits)
  next
    case (Inr stmt)
    obtain r db' where run: "execute_statement stmt ''schema'' ''data'' db0 = (r, db')" by fastforce
    show ?thesis
    proof (cases r)
      case r: (Inl e)
      from r run lex Inr assms show ?thesis
        by (cases e) (auto simp: execute_sql_text_def week8_engine_run_def engine_request_def failed_answer_def snprintf_message)
    next
      case r: (Inr ex)
      from r run lex Inr assms show ?thesis
        by (auto simp: execute_sql_text_def week8_engine_run_def engine_request_def)
    qed
  qed
qed

theorem cli_agrees_with_engine_witness:
  "\<exists>db1 a. execute_sql_text ''0.000000'' ''SELEC'' \<lparr>db_fs = sample_fs, db_reg = registry_empty\<rparr> =
      (Inl (Message (snprintf 256 (ans_message a))), db1) \<and>
    week8_engine_run (engine_request ''SELEC'') 0 \<lparr>db_fs = sample_fs, db_reg = registry_empty\<rparr> = (Some a, db1) \<and> \<not> ans_ok a"
proof -
  let ?db = "\<lparr>db_fs = sample_fs, db_reg = registry_empty\<rparr>"
  have "\<not> is_blank_string ''SELEC''" by code_simp
  moreover have "map_sum (\<lambda>f. f \<noteq> ArrayOverflow) (\<lambda>_. ()) (fst (execute_sql_text ''0.000000'' ''SELEC'' ?db)) = Inl True" by code_simp
  then obtain e db1 where cli: "execute_sql_text ''0.000000'' ''SELEC'' ?db = (Inl (Message e), db1)"
    by (cases "execute_sql_text ''0.000000'' ''SELEC'' ?db"; cases "fst (execute_sql_text ''0.000000'' ''SELEC'' ?db)")
      (auto, metis fault.exhaust)
  ultimately show ?thesis
    using cli_agrees_with_engine [OF _ cli surjective_pairing, of 0] by (auto simp: prod_eq_iff)
qed

section \<open>A bare argument\<close>

lemma component_at_no_slash: "CHR ''/'' \<notin> set path \<Longrightarrow> component_at path i = drop i path"
  by (auto simp: component_at_def takeWhile_eq_all_conv dest: in_set_dropD)

lemma name_too_long_no_slash:
  assumes "CHR ''/'' \<notin> set path"
  shows "name_too_long fs path \<longleftrightarrow> NAME_MAX < length path"
proof
  assume "name_too_long fs path"
  then show "NAME_MAX < length path"
    by (auto simp: name_too_long_def component_at_no_slash [OF assms] list_ex_iff NAME_MAX_def PATH_MAX_def)
next
  assume "NAME_MAX < length path"
  then show "name_too_long fs path"
    by (auto simp: name_too_long_def component_at_no_slash [OF assms] list_ex_iff NAME_MAX_def intro!: bexI [of _ 0])
qed

text \<open>
  C24 (SQL text as a bare argument): text without a slash, given as the only argument or typed at the
  prompt, stands for the content of the file of that name if there is one and for itself if there is
  none, but only up to 255 characters: longer text is always refused as a path that is too long,
  although it is a statement that \<open>-e\<close> would run.
\<close>

theorem bare_argument_text:
  assumes "CHR ''/'' \<notin> set sql"
  shows "load_sql_from_argument fs sql False =
    (if length sql > 255 then Inl (format_system_error 256 ''failed to access SQL path'' sql ENAMETOOLONG)
     else case fs sql of
       None \<Rightarrow> Inr sql
     | Some (Regular content) \<Rightarrow> Inr content
     | Some (Directory es) \<Rightarrow> Inl (snprintf 256 (''path is a directory, not a SQL file: '' @ sql))
     | Some Forbidden \<Rightarrow> Inl (format_system_error 256 ''failed to open SQL file'' sql EACCES))
   \<and> join_arguments_as_sql [sql] = Inr sql"
  using name_too_long_no_slash [OF assms, of fs]
  by (simp add: load_sql_from_argument_def resolve_bare_argument_file_def read_entire_file_def NAME_MAX_def fopen_rb_def
      is_directory_def join_arguments_as_sql_def split: option.split fnode.split)

theorem bare_argument_text_witness:
  "load_sql_from_argument sample_fs ''SELECT * FROM t;'' False = Inr ''SELECT * FROM t;'' \<and>
   load_sql_from_argument sample_fs (replicate 256 CHR ''x'') False =
     Inl (format_system_error 256 ''failed to access SQL path'' (replicate 256 CHR ''x'') ENAMETOOLONG)"
proof -
  have "sample_fs ''SELECT * FROM t;'' = None" by code_simp
  then show ?thesis
    using bare_argument_text [of "''SELECT * FROM t;''" sample_fs] bare_argument_text [of "replicate 256 CHR ''x''" sample_fs]
    by simp
qed

section \<open>An interactive session\<close>

text \<open>The lines the prompt reads, and the commands it runs of them.\<close>

function repl_lines :: "string \<Rightarrow> string list" where
  "repl_lines input = (case fgets LINE_SIZE input of
     None \<Rightarrow> [] | Some (line, rest) \<Rightarrow> repl_input line # repl_lines rest)"
  by pat_completeness auto
termination by (relation "measure length") (auto dest: fgets_progress)

declare repl_lines.simps [simp del]

definition repl_commands :: "string list \<Rightarrow> string list" where
  "repl_commands ls = filter (\<lambda>l. l \<noteq> [] \<and> \<not> help_command l) (takeWhile (\<lambda>l. \<not> exit_command l) ls)"

primrec run_commands :: "string \<Rightarrow> string list \<Rightarrow> bool \<Rightarrow> db \<Rightarrow> bool option \<times> db" where
  "run_commands elapsed [] had_error db0 = (Some had_error, db0)"
| "run_commands elapsed (c # cs) had_error db0 =
     (case execute_argument_or_sql elapsed c False \<lparr>con_out = [], con_err = []\<rparr> db0 of
        (None, db1) \<Rightarrow> (None, db1)
      | (Some (ok, con), db1) \<Rightarrow> run_commands elapsed cs (had_error \<or> \<not> ok) db1)"

lemma execute_argument_console:
  "map_prod (map_option fst) id (execute_argument_or_sql elapsed v ff con db0) =
   map_prod (map_option fst) id (execute_argument_or_sql elapsed v ff con' db0)"
  by (simp add: execute_argument_or_sql_def split: sum.split prod.split fault.split)

text \<open>
  A session at the prompt runs its commands one after the other, whatever the console shows: blank
  lines and requests for help change nothing, nothing after an exit command is run, and the session
  reports an error exactly when a command failed or the input could not be read to its end.
\<close>

theorem repl_session:
  "map_prod (map_option fst) id (repl_loop elapsed program_name fails input had_error con db0) =
   map_prod (map_option (\<lambda>e. e \<or> fails \<and> \<not> list_ex exit_command (repl_lines input))) id
     (run_commands elapsed (repl_commands (repl_lines input)) had_error db0)"
proof (induction elapsed program_name fails input had_error con db0 rule: repl_loop.induct)
  case (1 elapsed program_name fails input had_error con0 db0)
  show ?case
  proof (cases "fgets LINE_SIZE input")
    case None
    then show ?thesis by (simp add: repl_loop.simps [of _ _ _ input] repl_lines.simps [of input] repl_commands_def Let_def del: fgets_None)
  next
    case (Some lr)
    obtain line rest where lr: "lr = (line, rest)" by fastforce
    note eqs = repl_loop.simps [of elapsed program_name fails input] repl_lines.simps [of input]
    consider "repl_input line = []" | "repl_input line \<noteq> []" "exit_command (repl_input line)"
      | "repl_input line \<noteq> []" "\<not> exit_command (repl_input line)" "help_command (repl_input line)"
      | "repl_input line \<noteq> []" "\<not> exit_command (repl_input line)" "\<not> help_command (repl_input line)" by blast
    then show ?thesis
    proof cases
      case 1
      then have "\<not> exit_command (repl_input line)" by (simp add: exit_command_def)
      with 1 "1.IH"(1) Some lr show ?thesis by (simp add: eqs repl_commands_def Let_def)
    next
      case 2
      with Some lr show ?thesis by (simp add: eqs repl_commands_def Let_def)
    next
      case 3
      with "1.IH"(2) Some lr show ?thesis by (simp add: eqs repl_commands_def Let_def)
    next
      case 4
      let ?con = "put_out ''sqlparser> '' con0"
      obtain r db1 where run: "execute_argument_or_sql elapsed (repl_input line) False ?con db0 = (r, db1)" by fastforce
      from execute_argument_console [of elapsed "repl_input line" False "\<lparr>con_out = [], con_err = []\<rparr>" db0 ?con] run
      obtain r' where run': "execute_argument_or_sql elapsed (repl_input line) False \<lparr>con_out = [], con_err = []\<rparr> db0 = (r', db1)"
        "map_option fst r' = map_option fst r" by (auto simp: map_prod_def split: prod.splits)
      show ?thesis
      proof (cases r)
        case None
        with run run' 4 Some lr show ?thesis by (simp add: eqs repl_commands_def Let_def)
      next
        case r: (Some okc)
        obtain ok con1 where okc: "okc = (ok, con1)" by fastforce
        from "1.IH"(3) [OF refl Some lr [symmetric] 4 run [symmetric] r okc [symmetric]] run run' r okc 4 Some lr
        show ?thesis by (auto simp: eqs repl_commands_def Let_def)
      qed
    qed
  qed
qed

section \<open>Exit codes\<close>

lemma console_simps [simp]:
  "con_err (put_out t con) = con_err con" "con_err (put_error e con) \<noteq> []"
  by (simp_all add: put_out_def put_error_def)

lemma execute_argument_error:
  "execute_argument_or_sql elapsed v ff con db0 = (Some (ok, con1), db1) \<Longrightarrow>
   con_err con1 \<noteq> [] \<longleftrightarrow> con_err con \<noteq> [] \<or> \<not> ok"
  by (auto simp: execute_argument_or_sql_def split: sum.splits prod.splits fault.splits)

lemma repl_error:
  "repl_loop elapsed program_name fails input had_error con db0 = (Some (e, con1), db1) \<Longrightarrow>
   (had_error \<longleftrightarrow> con_err con \<noteq> []) \<Longrightarrow> e \<longleftrightarrow> con_err con1 \<noteq> []"
proof (induction elapsed program_name fails input had_error con db0 rule: repl_loop.induct)
  case (1 elapsed program_name fails input had_error con0 db0)
  let ?con = "put_out ''sqlparser> '' con0"
  note run = "1.prems"(1) [unfolded repl_loop.simps [of elapsed program_name fails input] Let_def]
  show ?case
  proof (cases "fgets LINE_SIZE input")
    case None
    with run "1.prems"(2) show ?thesis by (auto split: if_splits)
  next
    case (Some lr)
    obtain line rest where lr: "lr = (line, rest)" by fastforce
    note IH = "1.IH" [OF refl Some lr [symmetric]]
    obtain r db2 where ex: "execute_argument_or_sql elapsed (repl_input line) False ?con db0 = (r, db2)" by fastforce
    consider "repl_input line = []" | "repl_input line \<noteq> []" "exit_command (repl_input line)"
      | "repl_input line \<noteq> []" "\<not> exit_command (repl_input line)" "help_command (repl_input line)"
      | ok con2 where "repl_input line \<noteq> []" "\<not> exit_command (repl_input line)" "\<not> help_command (repl_input line)" "r = Some (ok, con2)"
      | "repl_input line \<noteq> []" "\<not> exit_command (repl_input line)" "\<not> help_command (repl_input line)" "r = None"
      by (cases r) auto
    then show ?thesis
    proof cases
      case 4
      have "(had_error \<or> \<not> ok) \<longleftrightarrow> con_err con2 \<noteq> []"
        using execute_argument_error [OF ex [unfolded 4(4)]] "1.prems"(2) by simp
      with IH(3) [OF 4(1-3) ex [symmetric] 4(4) refl] run 4 Some lr ex show ?thesis by simp
    qed (use run Some lr ex "1.prems"(2) IH(1,2) in auto)
  qed
qed

text \<open>
  The program exits with 0 or 1, and with 0 exactly when it has written nothing to the standard error.
\<close>

theorem cli_exit_code:
  assumes "cli_main elapsed input argv db0 = (Some (code, con), db1)"
  shows "code \<in> {0, 1} \<and> (code = 0 \<longleftrightarrow> con_err con = [])"
proof (cases "length argv = 1 \<and> in_terminal input")
  case True
  with assms show ?thesis
    by (auto simp: cli_main_def Let_def split: prod.splits option.splits if_splits dest!: repl_error)
next
  case False
  with assms show ?thesis
    by (auto simp: cli_main_def Let_def put_error_def put_out_def split: sum.splits option.splits prod.splits fault.splits)
qed

theorem cli_exit_code_witness:
  "\<exists>con db1. cli_main ''0.0'' \<lparr>in_text = [], in_fails = False, in_terminal = False\<rparr> [''sqlparser'', ''-x'']
      \<lparr>db_fs = sample_fs, db_reg = registry_empty\<rparr> = (Some (1, con), db1) \<and> con_err con \<noteq> []"
proof -
  let ?main = "cli_main ''0.0'' \<lparr>in_text = [], in_fails = False, in_terminal = False\<rparr> [''sqlparser'', ''-x'']
      \<lparr>db_fs = sample_fs, db_reg = registry_empty\<rparr>"
  obtain con db1 where "?main = (Some (1, con), db1)"
    by (simp add: cli_main_def load_noninteractive_sql_def char_at_def Let_def)
  with cli_exit_code [OF this] show ?thesis by auto
qed

end
