(* ===== verification/Benchmark.thy ===== *)
theory Benchmark
  imports Executor
begin

text \<open>
  The benchmark program, \<open>benchmark/benchmark_main.c\<close>: it fills a table with generated rows through the
  executor (\<open>prepare\<close>), and times a lookup by id against a lookup by a column (\<open>query-only\<close>). The texts
  of the measured times and whether \<open>tmpfile\<close> succeeds are arguments; allocation succeeds. A run that
  leaves the bounds of an array is \<open>None\<close>. Row numbers are positive. The file system accepts writes to
  regular files.
\<close>

section \<open>Generated statements\<close>

fun header_text :: "nat \<Rightarrow> string list \<Rightarrow> string" where
  "header_text index [] = []"
| "header_text index (c # cs) = (if index > 0 then [CHR '',''] else []) @ c @ header_text (Suc index) cs"

definition write_csv_header :: "schema \<Rightarrow> string \<Rightarrow> filesystem \<Rightarrow> unit outcome \<times> filesystem" where
  "write_csv_header sch data_dir fs =
     (let path = build_path data_dir (sch_storage sch) ''.csv'' in
      case fs path of
        Some Forbidden \<Rightarrow> (Inl ''failed to open benchmark CSV for reset'', fs)
      | Some (Directory es) \<Rightarrow> (Inl ''failed to open benchmark CSV for reset'', fs)
      | _ \<Rightarrow> (Inr (), fs(path \<mapsto> Regular (header_text 0 (sch_columns sch) @ [LF]))))"

definition VALUE_SIZE :: nat where
  "VALUE_SIZE = 128"

definition make_value_text :: "string \<Rightarrow> nat \<Rightarrow> string" where
  "make_value_text column_name row_number =
     snprintf VALUE_SIZE
       (if column_name = ''age'' then show_int (20 + int (row_number mod 50))
        else column_name @ ''_'' @ show_int (int row_number))"

definition build_insert_statement :: "schema \<Rightarrow> nat \<Rightarrow> statement" where
  "build_insert_statement sch row_number =
     Insert \<lparr>ins_table = sch_table sch, ins_columns = sch_columns sch,
       ins_values = map (\<lambda>c. make_value_text c row_number) (sch_columns sch)\<rparr>"

definition build_select_statement :: "string \<Rightarrow> string \<Rightarrow> string \<Rightarrow> statement" where
  "build_select_statement table_name column_name v =
     Select \<lparr>sel_table = table_name, sel_columns = [], sel_all = True, sel_where = Some (column_name, v)\<rparr>"

fun find_first_non_id_column :: "schema \<Rightarrow> string option" where
  "find_first_non_id_column sch = (case sch_columns sch of [] \<Rightarrow> None | c # cs \<Rightarrow> Some c)"

section \<open>The two modes\<close>

text \<open>The exit code with the lines on standard output and standard error.\<close>

record bench_report =
  br_code :: int
  br_out :: "string list"
  br_err :: "string list"

definition bench_error :: "string \<Rightarrow> bench_report" where
  "bench_error message = \<lparr>br_code = 1, br_out = [], br_err = [''error: '' @ message]\<rparr>"

text \<open>
  The loop of \<open>run_prepare_mode\<close> over the rows from \<open>index + 1\<close> on. What the executor prints for an
  INSERT goes to the standard output.
\<close>

fun prepare_loop :: "schema \<Rightarrow> string \<Rightarrow> string \<Rightarrow> nat \<Rightarrow> nat \<Rightarrow> db \<Rightarrow> (fault + unit) \<times> db" where
  "prepare_loop sch schema_dir data_dir index 0 db0 = (Inr (), db0)"
| "prepare_loop sch schema_dir data_dir index (Suc k) db0 =
     (case execute_statement (build_insert_statement sch (index + 1)) schema_dir data_dir db0 of
        (Inl f, db1) \<Rightarrow> (Inl f, db1)
      | (Inr ex, db1) \<Rightarrow> prepare_loop sch schema_dir data_dir (Suc index) k db1)"

definition run_prepare_mode ::
    "string \<Rightarrow> string \<Rightarrow> string \<Rightarrow> string \<Rightarrow> nat \<Rightarrow> db \<Rightarrow> bench_report option \<times> db" where
  "run_prepare_mode insert_time schema_dir data_dir table_name row_count db0 =
     (case load_schema (db_fs db0) schema_dir data_dir table_name of
        Inl e \<Rightarrow> (Some (bench_error e), db0)
      | Inr sch \<Rightarrow>
     (case write_csv_header sch data_dir (db_fs db0) of
        (Inl e, fs1) \<Rightarrow> (Some (bench_error e), db0\<lparr>db_fs := fs1\<rparr>)
      | (Inr _, fs1) \<Rightarrow>
     (case prepare_loop sch schema_dir data_dir 0 row_count
          \<lparr>db_fs = fs1, db_reg = table_index_registry_reset (db_reg db0)\<rparr> of
        (Inl ArrayOverflow, db1) \<Rightarrow> (None, db1)
      | (Inl (Message e), db1) \<Rightarrow> (Some (bench_error e), db1)
      | (Inr _, db1) \<Rightarrow>
          (Some \<lparr>br_code = 0, br_out = [''Prepared rows: '' @ show_int (int row_count), ''Insert time: '' @ insert_time @ '' sec''],
             br_err = []\<rparr>, db1\<lparr>db_reg := table_index_registry_reset (db_reg db1)\<rparr>))))"

fun query_loop :: "statement \<Rightarrow> string \<Rightarrow> string \<Rightarrow> nat \<Rightarrow> db \<Rightarrow> (fault + unit) \<times> db" where
  "query_loop stmt schema_dir data_dir 0 db0 = (Inr (), db0)"
| "query_loop stmt schema_dir data_dir (Suc k) db0 =
     (case execute_statement stmt schema_dir data_dir db0 of
        (Inl (Message e), db1) \<Rightarrow> (Inl (Message (snprintf 256 e)), db1)
      | (Inl ArrayOverflow, db1) \<Rightarrow> (Inl ArrayOverflow, db1)
      | (Inr ex, db1) \<Rightarrow> query_loop stmt schema_dir data_dir k db1)"

definition run_query_benchmark ::
    "bool \<Rightarrow> statement \<Rightarrow> string \<Rightarrow> string \<Rightarrow> nat \<Rightarrow> db \<Rightarrow> (fault + unit) \<times> db" where
  "run_query_benchmark sink stmt schema_dir data_dir repeat_count db0 =
     (if \<not> sink then (Inl (Message ''failed to create temporary output sink for benchmark query''), db0)
      else query_loop stmt schema_dir data_dir repeat_count db0)"

definition run_query_only_mode ::
    "bool \<Rightarrow> string \<Rightarrow> string \<Rightarrow> string \<Rightarrow> string \<Rightarrow> string \<Rightarrow> nat \<Rightarrow> nat \<Rightarrow> db \<Rightarrow> bench_report option \<times> db" where
  "run_query_only_mode sink indexed_time linear_time schema_dir data_dir table_name target_id query_repeat db0 =
     (case load_schema (db_fs db0) schema_dir data_dir table_name of
        Inl e \<Rightarrow> (Some (bench_error e), db0)
      | Inr sch \<Rightarrow>
     (case find_first_non_id_column sch of
        None \<Rightarrow> (Some (bench_error ''benchmark table must have at least one user column''), db0)
      | Some other_column \<Rightarrow>
     (let other_value = make_value_text other_column target_id;
          id_select = build_select_statement (sch_table sch) ''id'' (snprintf 32 (show_int (int target_id)));
          other_select = build_select_statement (sch_table sch) other_column other_value in
      case run_query_benchmark sink id_select schema_dir data_dir query_repeat
          (db0\<lparr>db_reg := table_index_registry_reset (db_reg db0)\<rparr>) of
        (Inl ArrayOverflow, db1) \<Rightarrow> (None, db1)
      | (Inl (Message e), db1) \<Rightarrow> (Some (bench_error (''indexed benchmark query failed: '' @ e)), db1)
      | (Inr _, db1) \<Rightarrow>
     (case run_query_benchmark sink other_select schema_dir data_dir query_repeat db1 of
        (Inl ArrayOverflow, db2) \<Rightarrow> (None, db2)
      | (Inl (Message e), db2) \<Rightarrow> (Some (bench_error (''linear benchmark query failed: '' @ e)), db2)
      | (Inr _, db2) \<Rightarrow>
          (Some \<lparr>br_code = 0, br_out = [''Query target id: '' @ show_int (int target_id),
               ''Query target column: '' @ other_column, ''Query target value: '' @ other_value,
               ''Query repeats: '' @ show_int (int query_repeat),
               ''Indexed query avg time: '' @ indexed_time @ '' sec'', ''Linear query avg time: '' @ linear_time @ '' sec''],
             br_err = []\<rparr>, db2\<lparr>db_reg := table_index_registry_reset (db_reg db2)\<rparr>)))))"

section \<open>The main function\<close>

definition print_prepare_usage :: "string \<Rightarrow> string" where
  "print_prepare_usage program_name = ''Usage: '' @ program_name @ '' prepare <schema_dir> <data_dir> <table_name> <row_count>''"

definition print_query_usage :: "string \<Rightarrow> string" where
  "print_query_usage program_name =
     ''Usage: '' @ program_name @ '' query-only <schema_dir> <data_dir> <table_name> <target_id> [query_repeat]''"

definition print_benchmark_usage :: "string \<Rightarrow> string list" where
  "print_benchmark_usage program_name = [print_prepare_usage program_name, print_query_usage program_name]"

definition bench_failure :: "string list \<Rightarrow> bench_report" where
  "bench_failure lines = \<lparr>br_code = 1, br_out = [], br_err = lines\<rparr>"

text \<open>A positive number in decimal, as both modes require.\<close>

definition positive_int :: "string \<Rightarrow> nat option" where
  "positive_int s = (case parse_int_strict s of None \<Rightarrow> None | Some i \<Rightarrow> if i \<le> 0 then None else Some (nat i))"

record bench_times =
  bt_insert :: string
  bt_indexed :: string
  bt_linear :: string
  bt_sink :: bool

definition benchmark_main :: "bench_times \<Rightarrow> string \<Rightarrow> string list \<Rightarrow> db \<Rightarrow> bench_report option \<times> db" where
  "benchmark_main timing program_name args db0 =
     (case args of
        [] \<Rightarrow> (Some (bench_failure (print_benchmark_usage program_name)), db0)
      | mode # rest \<Rightarrow>
          if mode = ''prepare'' then
            (case rest of
               [schema_dir, data_dir, table_name, count] \<Rightarrow>
                 (case positive_int count of
                    None \<Rightarrow> (Some (bench_error ''row_count must be a positive integer''), db0)
                  | Some row_count \<Rightarrow> run_prepare_mode (bt_insert timing) schema_dir data_dir table_name row_count db0)
             | _ \<Rightarrow> (Some (bench_failure [print_prepare_usage program_name]), db0))
          else if mode = ''query-only'' then
            (if length rest \<noteq> 4 \<and> length rest \<noteq> 5 then (Some (bench_failure [print_query_usage program_name]), db0)
             else case positive_int (rest ! 3) of
               None \<Rightarrow> (Some (bench_error ''target_id must be a positive integer''), db0)
             | Some target_id \<Rightarrow>
                 (case (if length rest = 5 then positive_int (rest ! 4) else Some 100) of
                    None \<Rightarrow> (Some (bench_error ''query_repeat must be a positive integer''), db0)
                  | Some query_repeat \<Rightarrow>
                      run_query_only_mode (bt_sink timing) (bt_indexed timing) (bt_linear timing)
                        (rest ! 0) (rest ! 1) (rest ! 2) target_id query_repeat db0))
          else (Some (bench_failure ((''error: unknown benchmark mode: '' @ mode) # print_benchmark_usage program_name)), db0))"

section \<open>Generated rows\<close>

text \<open>Text that CSV stores without quotes and returns unchanged.\<close>

definition plain_text :: "string \<Rightarrow> bool" where
  "plain_text v \<longleftrightarrow> v \<noteq> [] \<and> \<not> list_ex csv_special v \<and> NUL \<notin> set v"

definition bench_columns :: "string list \<Rightarrow> bool" where
  "bench_columns cs \<longleftrightarrow> distinct cs \<and> length cs < 32 \<and> one_line_row cs \<and>
     (\<forall>c \<in> set cs. plain_text c \<and> \<not> isspace (hd c) \<and> \<not> isspace (last c))"

definition bench_row :: "schema \<Rightarrow> nat \<Rightarrow> string list" where
  "bench_row sch i = map (\<lambda>c. make_value_text c i) (sch_columns sch)"

lemma plain_text_escape [simp]: "plain_text v \<Longrightarrow> csv_escape_field v = v"
  by (simp add: plain_text_def csv_escape_field_def)

lemma plain_text_chars: "plain_text v \<Longrightarrow> LF \<notin> set v \<and> CR \<notin> set v \<and> NUL \<notin> set v"
  by (auto simp: plain_text_def list_ex_iff csv_special_def)

lemma header_text_plain: "\<forall>c \<in> set cs. plain_text c \<Longrightarrow> header_text i cs = csv_fields_text i cs"
  by (induction cs arbitrary: i) auto

lemma length_fields_plain:
  "\<forall>v \<in> set vs. plain_text v \<and> length v < 128 \<Longrightarrow> length (csv_fields_text i vs) \<le> 128 * length vs"
proof (induction vs arbitrary: i)
  case (Cons v vs)
  then have "length (csv_fields_text (Suc i) vs) \<le> 128 * length vs" "length v < 128" "csv_escape_field v = v" by simp_all
  then show ?case by (cases "i = 0") simp_all
qed simp

lemma show_nat_chars: "c \<in> set (show_nat n) \<Longrightarrow> \<not> csv_special c \<and> c \<noteq> NUL"
  using show_nat_digits [of c n] by (auto simp: csv_special_def isdigit_def byte_def)

lemma plain_text_take: "plain_text s \<Longrightarrow> 0 < n \<Longrightarrow> plain_text (take n s)"
  by (auto simp: plain_text_def list_ex_iff dest: in_set_takeD)

lemma plain_text_show: "plain_text (show_int (int n))"
  using show_nat_chars by (fastforce simp: plain_text_def show_int_def list_ex_iff)

lemma plain_text_append: "plain_text s \<Longrightarrow> plain_text t \<Longrightarrow> plain_text (s @ t)"
  by (auto simp: plain_text_def)

lemma make_value_plain:
  assumes "plain_text c"
  shows "plain_text (make_value_text c i)" "length (make_value_text c i) < 128"
proof -
  have "plain_text ''_''" by code_simp
  then have "plain_text (c @ ''_'' @ show_int (int i))" using assms plain_text_show plain_text_append by blast
  moreover have "plain_text (show_int (20 + int (i mod 50)))" using plain_text_show [of "20 + i mod 50"] by simp
  ultimately show "plain_text (make_value_text c i)"
    by (simp add: make_value_text_def snprintf_def VALUE_SIZE_def plain_text_take)
  show "length (make_value_text c i) < 128"
    using length_snprintf [of VALUE_SIZE] by (simp add: make_value_text_def VALUE_SIZE_def)
qed

lemma bench_row_plain:
  assumes "bench_columns (sch_columns sch)"
  shows "\<forall>v \<in> set (bench_row sch i). plain_text v \<and> length v < 128"
  using assms make_value_plain by (auto simp: bench_row_def bench_columns_def)

lemma bench_row_one_line:
  assumes "bench_columns (sch_columns sch)"
  shows "one_line_row (bench_row sch i)"
  using length_fields_plain [OF bench_row_plain [OF assms], of 0 i] bench_row_plain [OF assms, of i] assms
  by (auto simp: one_line_row_def bench_columns_def csv_row_def bench_row_def LINE_SIZE_def dest: plain_text_chars)

definition bench_stmt :: "schema \<Rightarrow> nat \<Rightarrow> insert_statement" where
  "bench_stmt sch i = \<lparr>ins_table = sch_table sch, ins_columns = sch_columns sch, ins_values = bench_row sch i\<rparr>"

lemma bench_insert: "build_insert_statement sch i = Insert (bench_stmt sch i)"
  by (simp add: build_insert_statement_def bench_stmt_def bench_row_def)

lemma map_of_zip_map_self: "c \<in> set cs \<Longrightarrow> map_of (zip cs (map f cs)) c = Some (f c)"
  by (induction cs) auto

lemma bench_insert_row: "insert_row (bench_stmt sch i) sch = bench_row sch i"
  by (simp add: insert_row_def row_of_def bench_stmt_def bench_row_def map_of_zip_map_self)

lemma bench_insert_valid:
  assumes "bench_columns (sch_columns sch)"
  shows "valid_insert (bench_stmt sch i) sch"
  using assms bench_row_plain [OF assms, of i]
  by (auto simp: valid_insert_def bench_stmt_def bench_columns_def contains_newline_def bench_row_def dest!: plain_text_chars)

section \<open>The prepared table\<close>

definition prepared :: "schema \<Rightarrow> nat \<Rightarrow> (nat \<times> string list) list \<Rightarrow> bool" where
  "prepared sch n rows \<longleftrightarrow> map snd rows = map (\<lambda>i. map csv_stored (bench_row sch i)) [1..<Suc n]"

lemma prepared_simps: "prepared sch 0 rows \<longleftrightarrow> rows = []"
  "prepared sch n rows \<Longrightarrow> prepared sch (Suc n) (rows @ [(offset, map csv_stored (bench_row sch (Suc n)))])"
  "prepared sch n rows \<Longrightarrow> length rows = n"
  by (auto simp: prepared_def dest: map_eq_imp_length_eq)

lemma plain_stored: "plain_text c \<Longrightarrow> \<not> isspace (hd c) \<Longrightarrow> \<not> isspace (last c) \<Longrightarrow> csv_stored c = c"
  by (simp add: csv_stored_def plain_text_def trim_whitespace_id)

lemma bench_header:
  assumes "bench_columns cs"
  defines "s \<equiv> header_text 0 cs @ [LF]"
  shows "table_header s = Inr cs" "csv_rows s = Inr []"
proof -
  have cs: "one_line_row cs" "map csv_stored cs = cs" "\<forall>c \<in> set cs. plain_text c"
    using assms(1) by (auto simp: bench_columns_def plain_stored map_idI)
  have h: "header_text 0 cs = csv_row cs" using header_text_plain [OF cs(3)] by (simp add: csv_row_def)
  have row: "csv_row cs \<noteq> []" "line_text (csv_row cs) = csv_row cs" "LF \<notin> set (csv_row cs)" "length (csv_row cs) < LINE_SIZE"
    using cs(1) line_text_row [of cs] csv_row_chars [of cs LF] by (auto simp: one_line_row_def)
  note f = fgets_short [OF row(1,3,4)]
  show "table_header s = Inr cs"
    using table_header_first_line [OF first_line_LF [OF row(1)]] one_line_row_lines(2) [OF cs(1)] cs(2) row(2)
    by (simp add: s_def h table_header_def [of "csv_row cs"] f)
  show "csv_rows s = Inr []"
    using data_lines_LF [OF row(1)] by (simp add: s_def h csv_rows_def data_lines_def [of "csv_row cs"] f)
qed

lemma write_header_grown:
  assumes "valid_table fs d sch" "bench_columns (sch_columns sch)"
  shows "\<exists>fs'. write_csv_header sch d fs = (Inr (), fs') \<and> grown fs fs' d (sch_storage sch) \<and>
    table_rows fs' d (sch_storage sch) []"
proof -
  obtain s where s: "fs (table_path d (sch_storage sch)) = Some (Regular s)" "table_header s = Inr (sch_columns sch)"
    using assms(1) by (auto simp: valid_table_def)
  then show ?thesis
    using bench_header [OF assms(2)]
    by (auto simp: write_csv_header_def Let_def table_path_def [symmetric] grown_def table_rows_def range_defs)
qed

lemma grown_trans: "grown fs fs' d t \<Longrightarrow> grown fs' fs'' d t \<Longrightarrow> grown fs fs'' d t"
  by (auto simp: grown_def)

lemma prepare_loop_ok:
  assumes "load_schema (db_fs db0) schema_dir data_dir (sch_table sch) = Inr sch" "bench_columns (sch_columns sch)"
    "registry_ok (db_fs db0) data_dir (db_reg db0)" "\<not> reg_force (db_reg db0)"
    "table_rows (db_fs db0) data_dir (sch_storage sch) rows" "prepared sch index rows" "int (index + k) < INT_MAX"
  shows "\<exists>db1 rows'. prepare_loop sch schema_dir data_dir index k db0 = (Inr (), db1) \<and>
    table_rows (db_fs db1) data_dir (sch_storage sch) rows' \<and> prepared sch (index + k) rows' \<and>
    grown (db_fs db0) (db_fs db1) data_dir (sch_storage sch)"
  using assms
proof (induction k arbitrary: index rows db0)
  case 0
  from 0(5) have "grown (db_fs db0) (db_fs db0) data_dir (sch_storage sch)" by (auto simp: grown_def table_rows_def)
  with 0 show ?case by auto
next
  case (Suc k)
  let ?stmt = "bench_stmt sch (index + 1)"
  have len: "length rows = index" using prepared_simps(3) [OF Suc.prems(6)] .
  have load: "load_schema (db_fs db0) schema_dir data_dir (ins_table ?stmt) = Inr sch"
    using Suc.prems(1) by (simp add: bench_stmt_def)
  have "distinct (sch_columns sch)" using Suc.prems(2) by (simp add: bench_columns_def)
  moreover have "one_line_row (insert_row ?stmt sch)" using bench_row_one_line [OF Suc.prems(2)] by (simp add: bench_insert_row)
  moreover have "int (length rows) + 1 < INT_MAX" using Suc.prems(7) len by simp
  ultimately obtain offset db1 where ins: "execute_insert ?stmt schema_dir data_dir db0 =
      (Inr \<lparr>ex_rows = 1, ex_message = ''INSERT 1'', ex_output = []\<rparr>, db1)"
    "table_rows (db_fs db1) data_dir (sch_storage sch) (rows @ [(offset, map csv_stored (bench_row sch (index + 1)))])"
    "registry_ok (db_fs db1) data_dir (db_reg db1)" "\<not> reg_force (db_reg db1)"
    "grown (db_fs db0) (db_fs db1) data_dir (sch_storage sch)"
    using execute_insert_ok [OF load _ bench_insert_valid [OF Suc.prems(2)] _ Suc.prems(3,4,5)]
    unfolding bench_insert_row by blast
  have "load_schema (db_fs db1) schema_dir data_dir (sch_table sch) = Inr sch"
    using load_schema_grown [OF ins(5)] Suc.prems(1) by simp
  with Suc.IH [OF _ Suc.prems(2) ins(3,4,2), of "Suc index"] prepared_simps(2) [OF Suc.prems(6)] Suc.prems(7)
  obtain db2 rows' where "prepare_loop sch schema_dir data_dir (Suc index) k db1 = (Inr (), db2)"
    "table_rows (db_fs db2) data_dir (sch_storage sch) rows'" "prepared sch (index + Suc k) rows'"
    "grown (db_fs db1) (db_fs db2) data_dir (sch_storage sch)" by auto
  with ins(1) grown_trans [OF ins(5)] show ?case by (auto simp: bench_insert execute_statement_def)
qed

lemma run_prepare_ok:
  assumes load: "load_schema (db_fs db0) schema_dir data_dir table = Inr sch" "sch_table sch = table"
    and sch: "bench_columns (sch_columns sch)" and n: "int n < INT_MAX"
  shows "\<exists>db1 rows. run_prepare_mode t schema_dir data_dir table n db0 =
      (Some \<lparr>br_code = 0, br_out = [''Prepared rows: '' @ show_int (int n), ''Insert time: '' @ t @ '' sec''], br_err = []\<rparr>, db1) \<and>
    db_reg db1 = registry_empty \<and> table_rows (db_fs db1) data_dir (sch_storage sch) rows \<and> prepared sch n rows \<and>
    grown (db_fs db0) (db_fs db1) data_dir (sch_storage sch)"
proof -
  obtain fs1 where w: "write_csv_header sch data_dir (db_fs db0) = (Inr (), fs1)" "grown (db_fs db0) fs1 data_dir (sch_storage sch)"
    "table_rows fs1 data_dir (sch_storage sch) []"
    using write_header_grown [OF check_schema_valid [OF load(1)] sch] by blast
  let ?db = "\<lparr>db_fs = fs1, db_reg = registry_empty\<rparr>"
  have "load_schema (db_fs ?db) schema_dir data_dir (sch_table sch) = Inr sch" "registry_ok (db_fs ?db) data_dir (db_reg ?db)"
    "\<not> reg_force (db_reg ?db)" "table_rows (db_fs ?db) data_dir (sch_storage sch) []" "prepared sch 0 []" "int (0 + n) < INT_MAX"
    using load_schema_grown [OF w(2)] load w(3) n by (simp_all add: registry_ok_def registry_empty_def prepared_simps)
  from prepare_loop_ok [OF this(1) sch this(2-6)] obtain db2 rows where
    "prepare_loop sch schema_dir data_dir 0 n ?db = (Inr (), db2)"
    "table_rows (db_fs db2) data_dir (sch_storage sch) rows" "prepared sch n rows" "grown fs1 (db_fs db2) data_dir (sch_storage sch)"
    by auto
  with load(1) w(1) grown_trans [OF w(2)] show ?thesis
    by (intro exI [of _ "db2\<lparr>db_reg := registry_empty\<rparr>"] exI [of _ rows])
      (simp add: run_prepare_mode_def table_index_registry_reset_def)
qed

section \<open>The two lookups\<close>

lemma length_show_nat: "n < 10 ^ Suc k \<Longrightarrow> length (show_nat n) \<le> Suc k"
proof (induction k arbitrary: n)
  case 0
  then show ?case by (simp add: show_nat.simps [of n])
next
  case (Suc k)
  then have "n div 10 < 10 ^ Suc k" by (simp add: less_mult_imp_div_less)
  with Suc.IH [of "n div 10"] show ?case by (cases "n < 10") (simp_all add: show_nat.simps [of n])
qed

lemma length_show_row: "int i \<le> INT_MAX \<Longrightarrow> length (show_int (int i)) \<le> 10"
  using length_show_nat [of i 9] by (simp add: show_int_def range_defs)

lemma show_int_inj: "show_int (int i) = show_int (int j) \<longleftrightarrow> i = j"
  by (auto simp: show_int_def dest: arg_cong [of _ _ digits_value])

text \<open>The generated value of a column with an ordinary name determines the row.\<close>

lemma make_value_inj:
  assumes "c \<noteq> ''age''" "length c \<le> 100" "int i \<le> INT_MAX" "int j \<le> INT_MAX"
  shows "make_value_text c i = make_value_text c j \<longleftrightarrow> i = j"
  using assms length_show_row [of i] length_show_row [of j]
  by (simp add: make_value_text_def VALUE_SIZE_def snprintf_short show_int_inj)

lemma make_value_stored:
  assumes "plain_text c" "\<not> isspace (hd c)" "c \<noteq> ''age''" "length c \<le> 100" "int i \<le> INT_MAX"
  shows "csv_stored (make_value_text c i) = make_value_text c i"
proof -
  have v: "make_value_text c i = c @ ''_'' @ show_int (int i)"
    using assms length_show_row [of i] by (simp add: make_value_text_def VALUE_SIZE_def snprintf_short)
  have "last (show_int (int i)) \<in> set (show_nat i)" by (simp add: show_int_def)
  then have "\<not> isspace (last (show_int (int i)))" using show_nat_digits isdigit_not_isspace by blast
  then have "\<not> isspace (hd (make_value_text c i))" "\<not> isspace (last (make_value_text c i))"
    unfolding v using assms(1,2) by (simp_all add: plain_text_def)
  then show ?thesis using plain_stored [OF make_value_plain(1) [OF assms(1)]] by blast
qed

lemma matching_rows_cong:
  assumes "\<And>i. i < length rows \<Longrightarrow> P (k + int i) (snd (rows ! i)) = Q (k + int i) (snd (rows ! i))"
  shows "matching_rows P idxs k rows = matching_rows Q idxs k rows"
  using assms
proof (induction rows arbitrary: k)
  case (Cons r rows)
  have "P (k + 1 + int i) (snd (rows ! i)) = Q (k + 1 + int i) (snd (rows ! i))" if "i < length rows" for i
    using Cons.prems [of "Suc i"] that by (simp add: add.assoc)
  with Cons.IH [of "k + 1"] Cons.prems [of 0] show ?case by (cases r) simp
qed simp

lemma query_loop_ok:
  assumes step: "\<And>reg. registry_ok fs data_dir reg \<Longrightarrow> \<exists>reg1.
      execute_statement stmt schema_dir data_dir \<lparr>db_fs = fs, db_reg = reg\<rparr> = (Inr ex, \<lparr>db_fs = fs, db_reg = reg1\<rparr>) \<and>
      registry_ok fs data_dir reg1"
    and "registry_ok fs data_dir reg"
  shows "\<exists>reg1. query_loop stmt schema_dir data_dir n \<lparr>db_fs = fs, db_reg = reg\<rparr> = (Inr (), \<lparr>db_fs = fs, db_reg = reg1\<rparr>) \<and>
    registry_ok fs data_dir reg1"
  using assms(2)
proof (induction n arbitrary: reg)
  case (Suc n)
  obtain reg1 where "execute_statement stmt schema_dir data_dir \<lparr>db_fs = fs, db_reg = reg\<rparr> = (Inr ex, \<lparr>db_fs = fs, db_reg = reg1\<rparr>)"
    "registry_ok fs data_dir reg1" using step [OF Suc.prems] by blast
  with Suc.IH [OF this(2)] show ?case by auto
qed auto

lemma prepared_nth: "prepared sch n rows \<Longrightarrow> i < n \<Longrightarrow> snd (rows ! i) = map csv_stored (bench_row sch (Suc i))"
proof -
  assume p: "prepared sch n rows" and i: "i < n"
  have "length rows = n" using prepared_simps(3) [OF p] .
  then have "snd (rows ! i) = map snd rows ! i" using i by simp
  also have "\<dots> = map csv_stored (bench_row sch (Suc i))" using p i by (simp add: prepared_def del: upt_Suc)
  finally show ?thesis .
qed

text \<open>The two conditions that \<open>query-only\<close> compares, for the row \<open>k\<close>.\<close>

definition lookup_condition :: "schema \<Rightarrow> nat \<Rightarrow> string \<times> string \<Rightarrow> bool" where
  "lookup_condition sch k cv \<longleftrightarrow> cv = (''id'', snprintf 32 (show_int (int k))) \<or>
     cv = (hd (sch_columns sch), make_value_text (hd (sch_columns sch)) k)"

lemma lookup_condition_row:
  assumes cv: "lookup_condition sch k cv" and sch: "bench_columns (sch_columns sch)" "''id'' \<notin> set (sch_columns sch)"
    "hd (sch_columns sch) \<noteq> ''age''" "length (hd (sch_columns sch)) \<le> 100"
    and rows: "prepared sch n rows" "int n < INT_MAX" "k \<le> n" "i < n"
  shows "where_condition sch (Some cv) (1 + int i) (snd (rows ! i)) \<longleftrightarrow> int k = 1 + int i" "valid_where sch (Some cv)"
proof -
  let ?c = "hd (sch_columns sch)"
  obtain cs where cs: "sch_columns sch = ?c # cs" using sch(1) by (cases "sch_columns sch") (auto simp: bench_columns_def one_line_row_def)
  have c: "plain_text ?c" "\<not> isspace (hd ?c)" "?c \<noteq> ''id''"
    using sch(1,2) cs by (auto simp: bench_columns_def) (metis list.set_intros(1))+
  have ids: "parse_int_strict (snprintf 32 (show_int (int k))) = Some (int k)"
    using length_show_row [of k] rows(2,3) parse_int_strict_show_int [of "int k"] by (simp add: snprintf_short range_defs)
  have "snd (rows ! i) ! 0 = csv_stored (make_value_text ?c (Suc i))"
    using prepared_nth [OF rows(1,4)] cs by (metis bench_row_def list.simps(9) nth_Cons_0)
  also have "\<dots> = make_value_text ?c (Suc i)" using make_value_stored [OF c(1,2) sch(3,4)] rows by simp
  finally have field: "snd (rows ! i) ! 0 = make_value_text ?c (Suc i)" .
  have "make_value_text ?c (Suc i) = make_value_text ?c k \<longleftrightarrow> Suc i = k"
    by (rule make_value_inj [OF sch(3,4)]) (use rows in simp_all)
  moreover have "string_list_index_of (sch_columns sch) ?c = 0"
    by (subst cs) (simp add: string_list_index_of_def)
  ultimately show "where_condition sch (Some cv) (1 + int i) (snd (rows ! i)) \<longleftrightarrow> int k = 1 + int i" "valid_where sch (Some cv)"
    using cv ids field c(3) cs by (auto simp: lookup_condition_def) (metis list.set_intros(1))+
qed

lemma prepared_lookup:
  assumes load: "load_schema fs schema_dir data_dir (sch_table sch) = Inr sch"
    and cv: "lookup_condition sch k (c, v)" and sch: "bench_columns (sch_columns sch)"
    "hd (sch_columns sch) \<noteq> ''age''" "length (hd (sch_columns sch)) \<le> 100"
    and rows: "table_rows fs data_dir (sch_storage sch) rows" "prepared sch n rows" "int n < INT_MAX" "1 \<le> k" "k \<le> n"
    and reg: "registry_ok fs data_dir reg"
  shows "\<exists>reg1. execute_statement (build_select_statement (sch_table sch) c v) schema_dir data_dir \<lparr>db_fs = fs, db_reg = reg\<rparr> =
      (select_result (sch_columns sch) [map csv_stored (bench_row sch k)], \<lparr>db_fs = fs, db_reg = reg1\<rparr>) \<and>
    registry_ok fs data_dir reg1"
proof -
  let ?cols = "sch_columns sch" and ?idxs = "map int [0..<length (sch_columns sch)]"
  let ?stmt = "\<lparr>sel_table = sch_table sch, sel_columns = [], sel_all = True, sel_where = Some (c, v)\<rparr>"
  have ne: "?cols \<noteq> []" "''id'' \<notin> set ?cols" using check_schema_valid [OF load] by (simp_all add: valid_table_def)
  note len = prepared_simps(3) [OF rows(2)]
  note cond = lookup_condition_row [OF cv sch(1) ne(2) sch(2,3) rows(2,3,5)]
  have "length f = length ?cols" if mem: "(offset, f) \<in> set rows" for offset f
  proof -
    obtain i where "i < n" "rows ! i = (offset, f)" using mem len unfolding in_set_conv_nth by metis
    with prepared_nth [OF rows(2), of i] show ?thesis by (simp add: bench_row_def)
  qed
  then have shaped: "shaped_rows sch rows" by (auto simp: shaped_rows_def)
  have "valid_where sch (Some (c, v))" using cond(2) [of 0] rows(4,5) by simp
  with execute_select_ok [of "\<lparr>db_fs = fs, db_reg = reg\<rparr>" schema_dir data_dir ?stmt sch ?cols ?idxs rows] load ne(1) rows(1) shaped reg
  obtain reg1 where ex: "execute_statement (Select ?stmt) schema_dir data_dir \<lparr>db_fs = fs, db_reg = reg\<rparr> =
      (select_result ?cols (matching_rows (where_condition sch (Some (c, v))) ?idxs 1 rows), \<lparr>db_fs = fs, db_reg = reg1\<rparr>)"
    "registry_ok fs data_dir reg1" by (auto simp: build_select_indexes_def)
  have "matching_rows (where_condition sch (Some (c, v))) ?idxs 1 rows = matching_rows (\<lambda>j _. int k = j) ?idxs 1 rows"
    by (rule matching_rows_cong) (use cond(1) len in simp)
  also have "\<dots> = [select_row (snd (rows ! (k - 1))) ?idxs (int k)]"
    using rows(4,5) len by (simp add: matching_rows_id nat_diff_distrib)
  also have "snd (rows ! (k - 1)) = map csv_stored (bench_row sch k)" using prepared_nth [OF rows(2), of "k - 1"] rows(4,5) by simp
  also have "select_row (map csv_stored (bench_row sch k)) ?idxs (int k) = map csv_stored (bench_row sch k)"
    by (auto simp: select_row_def INTERNAL_ID_SELECT_INDEX_def bench_row_def intro!: nth_equalityI)
  finally have "matching_rows (where_condition sch (Some (c, v))) ?idxs 1 rows = [map csv_stored (bench_row sch k)]" .
  with ex show ?thesis unfolding build_select_statement_def by metis
qed

section \<open>The theorems of the benchmark\<close>

text \<open>
  Prepared dataset: whatever the table held before and whatever the indexes in memory, preparing
  \<open>n\<close> rows for a table with at most 31 columns of ordinary names succeeds, and leaves a file with exactly
  the \<open>n\<close> generated rows in order. No other file changes, and no index stays in memory.
\<close>

theorem prepare_creates_rows:
  assumes "load_schema (db_fs db0) schema_dir data_dir table = Inr sch" "sch_table sch = table"
    "bench_columns (sch_columns sch)" "int n < INT_MAX"
  shows "\<exists>db1 rows r. run_prepare_mode t schema_dir data_dir table n db0 = (Some r, db1) \<and> br_code r = 0 \<and>
    table_rows (db_fs db1) data_dir (sch_storage sch) rows \<and>
    map snd rows = map (\<lambda>i. map csv_stored (map (\<lambda>c. make_value_text c i) (sch_columns sch))) [1..<Suc n] \<and>
    db_reg db1 = registry_empty \<and> (\<forall>p. p \<noteq> table_path data_dir (sch_storage sch) \<longrightarrow> db_fs db1 p = db_fs db0 p)"
proof -
  let ?r = "\<lparr>br_code = 0, br_out = [''Prepared rows: '' @ show_int (int n), ''Insert time: '' @ t @ '' sec''], br_err = []\<rparr>"
  obtain db1 rows where p: "run_prepare_mode t schema_dir data_dir table n db0 = (Some ?r, db1)"
    "db_reg db1 = registry_empty" "table_rows (db_fs db1) data_dir (sch_storage sch) rows" "prepared sch n rows"
    "grown (db_fs db0) (db_fs db1) data_dir (sch_storage sch)" using run_prepare_ok [OF assms, of t] by blast
  have "br_code ?r = 0" "\<forall>q. q \<noteq> table_path data_dir (sch_storage sch) \<longrightarrow> db_fs db1 q = db_fs db0 q"
    using p(5) by (simp_all add: grown_def)
  with p(1-3) p(4) [unfolded prepared_def bench_row_def] show ?thesis by blast
qed

theorem prepare_creates_rows_witness:
  "\<exists>db1 rows r. run_prepare_mode ''0.1'' ''s'' ''d'' ''t'' 2 \<lparr>db_fs = sample_fs, db_reg = registry_empty\<rparr> = (Some r, db1) \<and>
    table_rows (db_fs db1) ''d'' ''t'' rows \<and> map snd rows = [[''name_1'', ''21''], [''name_2'', ''22'']]"
proof -
  have c: "bench_columns (sch_columns sample_schema)" "sch_table sample_schema = ''t''" "sch_storage sample_schema = ''t''"
    "map (\<lambda>i. map csv_stored (map (\<lambda>c. make_value_text c i) (sch_columns sample_schema))) [1..<Suc 2] =
      [[''name_1'', ''21''], [''name_2'', ''22'']]" by code_simp+
  have load: "load_schema (db_fs \<lparr>db_fs = sample_fs, db_reg = registry_empty\<rparr>) ''s'' ''d'' ''t'' = Inr sample_schema"
    using sample_db(1) by simp
  have "int 2 < INT_MAX" by (simp add: range_defs)
  from prepare_creates_rows [OF load c(2,1) this, of "''0.1''", unfolded c(3,4)] show ?thesis
    by (elim exE conjE) (intro exI conjI, assumption+)
qed

text \<open>
  C35 (the two lookups): on a dataset prepared with \<open>n\<close> rows, \<open>query-only\<close> for any of them succeeds however
  often it repeats, and the lookup by id through the index and the lookup by the first column through
  a scan return the same single row, provided the first column is not called \<open>age\<close> and its name has at
  most 100 characters.
\<close>

theorem query_only_same_row:
  assumes "load_schema (db_fs db0) schema_dir data_dir table = Inr sch" "sch_table sch = table"
    "bench_columns (sch_columns sch)" "hd (sch_columns sch) \<noteq> ''age''" "length (hd (sch_columns sch)) \<le> 100"
    "int n < INT_MAX" "1 \<le> k" "k \<le> n" "run_prepare_mode t schema_dir data_dir table n db0 = (r, db1)"
  shows "map_option br_code (fst (run_query_only_mode True t1 t2 schema_dir data_dir table k repeats db1)) = Some 0 \<and>
    (\<forall>cv \<in> {(''id'', snprintf 32 (show_int (int k))), (hd (sch_columns sch), make_value_text (hd (sch_columns sch)) k)}.
       fst (execute_statement (build_select_statement table (fst cv) (snd cv)) schema_dir data_dir db1) =
       select_result (sch_columns sch) [map csv_stored (bench_row sch k)])"
proof -
  let ?c = "hd (sch_columns sch)" and ?fs = "db_fs db1"
  let ?id = "build_select_statement table ''id'' (snprintf 32 (show_int (int k)))"
  let ?other = "build_select_statement table ?c (make_value_text ?c k)"
  obtain rows where p: "db_reg db1 = registry_empty" "table_rows ?fs data_dir (sch_storage sch) rows" "prepared sch n rows"
    "grown (db_fs db0) ?fs data_dir (sch_storage sch)"
    using run_prepare_ok [OF assms(1,2,3,6), of t] assms(9) by auto
  have load: "load_schema ?fs schema_dir data_dir (sch_table sch) = Inr sch" using load_schema_grown [OF p(4)] assms(1,2) by simp
  have db1: "db1 = \<lparr>db_fs = ?fs, db_reg = registry_empty\<rparr>" using p(1) by (cases db1) simp
  have empty: "registry_ok ?fs data_dir registry_empty" by (simp add: registry_ok_def registry_empty_def)
  note look = prepared_lookup [OF load _ assms(3,4,5) p(2,3) assms(6,7,8), unfolded assms(2)]
  have id: "lookup_condition sch k (''id'', snprintf 32 (show_int (int k)))" and
    other: "lookup_condition sch k (?c, make_value_text ?c k)" by (simp_all add: lookup_condition_def)
  obtain ex where ex: "select_result (sch_columns sch) [map csv_stored (bench_row sch k)] = Inr ex" by (simp add: select_result_def)
  obtain reg1 where q1: "query_loop ?id schema_dir data_dir repeats \<lparr>db_fs = ?fs, db_reg = registry_empty\<rparr> =
      (Inr (), \<lparr>db_fs = ?fs, db_reg = reg1\<rparr>)" "registry_ok ?fs data_dir reg1"
    using query_loop_ok [OF look [OF id, unfolded ex] empty] by blast
  obtain reg2 where q2: "query_loop ?other schema_dir data_dir repeats \<lparr>db_fs = ?fs, db_reg = reg1\<rparr> = (Inr (), \<lparr>db_fs = ?fs, db_reg = reg2\<rparr>)"
    using query_loop_ok [OF look [OF other, unfolded ex] q1(2)] by blast
  have "find_first_non_id_column sch = Some ?c"
    using assms(3) by (cases "sch_columns sch") (auto simp: bench_columns_def one_line_row_def)
  then have "map_option br_code (fst (run_query_only_mode True t1 t2 schema_dir data_dir table k repeats db1)) = Some 0"
    using load q1(1) q2 assms(2)
    by (subst db1) (simp add: run_query_only_mode_def run_query_benchmark_def table_index_registry_reset_def Let_def del: find_first_non_id_column.simps)
  moreover have "fst (execute_statement ?id schema_dir data_dir db1) = select_result (sch_columns sch) [map csv_stored (bench_row sch k)]"
    "fst (execute_statement ?other schema_dir data_dir db1) = select_result (sch_columns sch) [map csv_stored (bench_row sch k)]"
    using look [OF id empty] look [OF other empty] by (subst db1, auto)+
  ultimately show ?thesis by simp
qed

theorem query_only_same_row_witness:
  "\<exists>r db1. run_prepare_mode ''0.1'' ''s'' ''d'' ''t'' 3 \<lparr>db_fs = sample_fs, db_reg = registry_empty\<rparr> = (r, db1) \<and>
    map_option br_code (fst (run_query_only_mode True ''0.1'' ''0.2'' ''s'' ''d'' ''t'' 2 10 db1)) = Some 0 \<and>
    fst (execute_statement (build_select_statement ''t'' ''name'' ''name_2'') ''s'' ''d'' db1) =
      select_result [''name'', ''age''] [[''name_2'', ''22'']]"
proof -
  let ?db = "\<lparr>db_fs = sample_fs, db_reg = registry_empty\<rparr>"
  obtain r db1 where run: "run_prepare_mode ''0.1'' ''s'' ''d'' ''t'' 3 ?db = (r, db1)" by fastforce
  have c: "bench_columns (sch_columns sample_schema)" "sch_table sample_schema = ''t''" "sch_columns sample_schema = [''name'', ''age'']"
    "map csv_stored (bench_row sample_schema 2) = [''name_2'', ''22'']" "make_value_text ''name'' 2 = ''name_2''" by code_simp+
  then show ?thesis
    using query_only_same_row [of ?db "''s''" "''d''" "''t''" sample_schema 3 2 "''0.1''" r db1 "''0.1''" "''0.2''" 10]
      sample_db(1) run by (auto simp: range_defs)
qed

text \<open>
  For a table whose first column is \<open>age\<close> the two lookups differ: the value \<open>21\<close> of row 1 is also that of
  row 51.
\<close>

lemma age_values_repeat: "make_value_text ''age'' 1 = make_value_text ''age'' 51"
  by code_simp

end
