(* ===== verification/Spec2Isabelle.thy ===== *)
theory Spec2Isabelle
  imports Lifecycle Server_Log Command_Line Benchmark
begin

text \<open>
  This development models a small SQL database with an HTTP front end and proves the properties that
  make it correct. The program is written in C and has two halves. The SQL engine
  (\<open>week8-team7-db-api\<close>) lexes, parses and executes INSERT and SELECT statements over CSV files,
  with an in-memory B+ tree per table from row numbers to file offsets. The server wraps the engine:
  \<open>SERVER-RUNTIME\<close> reads the configuration, accepts connections and hands each to the thread pool of
  \<open>SERVER-CONCURRENCY\<close>; a worker reads one request with \<open>SERVER-HTTP\<close>, and a query runs through the
  adapter of \<open>SERVER-CORE\<close> under a reader-writer lock.

  \<^bold>\<open>Theories, in dependency order, and the code they model.\<close>

  \<^item> \<open>Prelude\<close>: outcomes of functions that report failure through a message buffer (\<open>Inl\<close> the
    message), array insertion, reachability in transition systems with the locale
    \<open>invariant_system\<close>, counting threads in phases.
  \<^item> \<open>CLib\<close>: the C language and library the code relies on: \<open>ctype.h\<close>, C strings, \<open>snprintf\<close>,
    decimal printing, \<open>strtol\<close>, integer ranges.
  \<^item> \<open>Util\<close> (\<open>common/util.c\<close>), \<open>Files\<close> (a file system with \<open>fopen\<close>, \<open>fgets\<close>, \<open>opendir\<close>).
  \<^item> \<open>Lexer\<close> (\<open>sql/lexer.c\<close>), \<open>Parser\<close> (\<open>sql/parser.c\<close>): tokens with positions; the parser is shown
    equivalent to a grammar, in bounds on every token array of the lexer, and a left inverse of
    printing.
  \<^item> \<open>BPTree\<close> (\<open>index/bptree.c\<close>): insertion with splits and search, refined to a finite map, with the
    order, balance, occupancy and leaf chain invariants; failing allocations are an oracle.
  \<^item> \<open>Storage\<close> (\<open>storage/storage.c\<close>), \<open>Schema\<close> (\<open>storage/schema.c\<close>): CSV rows and their round trip,
    appending, scanning and random access; meta files and header checks.
  \<^item> \<open>Table_Index\<close> (\<open>index/table_index.c\<close>): the registry of indexes and its consistency with the
    files; \<open>Executor\<close> (\<open>execution/executor.c\<close>): INSERT and SELECT over the state \<open>db\<close>, a file system
    and the registry.
  \<^item> \<open>Lock_Manager\<close>, \<open>Job_Queue\<close>, \<open>Thread_Pool\<close> (\<open>lock_manager.c\<close>, \<open>job_queue.c\<close>, \<open>thread_pool.c\<close>):
    the operations under their mutex as functions, the threads as transition systems with blocked and
    woken threads; mutual exclusion, no lost wake-ups, FIFO order, conservation of jobs, termination
    of the shutdown.
  \<^item> \<open>Http_Protocol\<close> (\<open>http_protocol.c\<close>): the request probe, the request parser and the JSON responses.
  \<^item> \<open>Http_Server\<close> (\<open>http_server.c\<close>): one connection, from the receive loop over routing to the
    response, with the locale \<open>query_service\<close> for the executor callback.
  \<^item> \<open>Engine\<close> (\<open>engine_api.c\<close>, \<open>week8_engine.c\<close>): the adapter with its output capture and the locale
    \<open>core_engine\<close> for the engine callback.
  \<^item> \<open>Query_Runtime\<close> and \<open>Server_Runtime\<close> (\<open>db_server_runtime.c\<close>, \<open>server_main.c\<close>): the executor under
    the lock, the composition of all layers, the accept loop with the sockets it owns, and the main
    function; \<open>Runtime_Config\<close> (\<open>runtime_config.c\<close>): the configuration.
  \<^item> \<open>Lifecycle\<close> (initialisation and destruction in \<open>lock_manager.c\<close>, \<open>job_queue.c\<close>, \<open>thread_pool.c\<close>,
    \<open>db_server_runtime.c\<close>, and \<open>db_server_main.c\<close>): the resources the server process holds, with every
    failing system call and allocation; \<open>Server_Log\<close>: the log lines of the lock manager and the runtime.
  \<^item> \<open>Command_Line\<close> (\<open>app/main.c\<close>, \<open>read_entire_file\<close>): the sources of SQL text, one run, and the
    prompt; it is shown to agree with the engine of the server on every statement.
  \<^item> \<open>Benchmark\<close> (\<open>benchmark/benchmark_main.c\<close>): the generated dataset and the two timed lookups.

  \<^bold>\<open>How the code is rendered.\<close> Structures are records, enumerations are datatypes, one definition
  stands for each function and each loop body has its own recursion. A function that fills a message
  buffer returns an \<open>outcome\<close>; a run that leaves the bounds of an array is a separate value
  (\<open>ArrayOverflow\<close>, \<open>TokenOutOfBounds\<close>, the outer \<open>None\<close> of an engine answer). Threads are transition
  systems whose steps are the critical sections. What the operating system does is data: \<open>recv\<close>,
  \<open>send\<close> and the calls during start follow scripts of results, \<open>accept\<close> an arbitrary sequence, \<open>getenv\<close> and \<open>stat\<close> are functions.
  Request numbers are 64-bit words; sizes and row numbers are unbounded, with the checks of the code
  against \<open>SIZE_MAX\<close> and \<open>INT_MAX\<close> kept.

  \<^bold>\<open>Termination.\<close> Every loop is a total function with a measure, except the growth of two
  buffers, \<open>while\<close> loops whose termination is proved where they are used, and the search for the repository
  root, a \<open>partial_function\<close> that really does not return in some directories: \<open>config_load_hangs_iff\<close>
  says exactly when. There is no fuel.

  \<^bold>\<open>Interfaces.\<close> \<open>bounded_fifo\<close> (ring buffer), \<open>invariant_system\<close> (lock, queue, pool, queries,
  server process), \<open>core_engine\<close> (SQL engine behind the adapter), \<open>query_service\<close> (executor behind
  the HTTP server) and \<open>managed_object\<close> (creation and disposal of the lock, the queue, the state mutex
  and the listening socket) are locales; each is interpreted on the definitions of the code.

  \<^bold>\<open>What the theorems show.\<close> An INSERT posted over HTTP stores exactly its row and is answered with
  200; concurrent queries are equivalent to running them one after the other; a SELECT returns the
  matching rows on both access paths; a connection is answered once and closed, its outcome does not
  depend on how its bytes arrive, and it touches table files only; every accepted socket is closed
  once; every accepted job is finished once; the server releases all it has acquired, however it
  ends; the command line program and the server run statements alike; the lookups the benchmark
  compares find the same row. The remaining theorems state the contracts of the parts.
  Some theorems pin down defects: the search for the repository root that never ends, a SELECT that
  lists more columns than the table has, literals that are never closed, a leaf left full after a
  failed allocation, blanks that unquoted CSV values lose, long statements that the prompt takes for
  a path, log entries that break at a line feed of the request path.

  \<^bold>\<open>Not modelled.\<close> The release of memory outside the lifecycle of the server, and failing allocations
  outside it and the B+ tree; failures of \<open>fseek\<close>, \<open>ftell\<close> and of writes to open files; the race of a
  signal that closes the listening socket while the shutdown does the same; sleeping for the debug
  header; all measured times; the tests.

  \<^bold>\<open>Plan.\<close> Allocation failures of the SQL layers.
\<close>

end
